(* ===== verification/Prelude.thy ===== *)
theory Prelude
  imports Main "HOL-Library.Word" "HOL-Library.Char_ord" "HOL-Library.List_Lexorder"
    "HOL-Library.Sublist"
begin

text \<open>
  The prelude: what the components share and no source file owns.  Rust's \<open>Result\<close> is the
  sum type \<open>'e + 'a\<close> with \<open>Inl\<close> for \<open>Err\<close>; Rust's \<open>str\<close> is a list of bytes
  (\<open>string\<close>, whose characters are 8 bit), so lengths and positions are byte counts as in
  Rust; decimal printing and reading of the standard library's integers; and the lemma
  collections that carry the component proofs.
\<close>

named_theorems wf_intros \<open>introduction rules for the well-formedness invariants\<close>
named_theorems step_simps \<open>unfolding rules for the operations of the stateful components\<close>

section \<open>Results\<close>

type_synonym ('e, 'a) result = "'e + 'a"

text \<open>The fixed-size and byte types of \<open>alloy_primitives\<close>.\<close>

type_synonym address = "160 word"
type_synonym b256 = "256 word"
type_synonym u256 = "256 word"
type_synonym bytes = "8 word list"

definition and_then :: "('e, 'a) result \<Rightarrow> ('a \<Rightarrow> ('e, 'b) result) \<Rightarrow> ('e, 'b) result" where
  "and_then r f = (case r of Inl e \<Rightarrow> Inl e | Inr x \<Rightarrow> f x)"

lemma and_then_simps [simp]:
  "and_then (Inl e) f = Inl e"
  "and_then (Inr x) f = f x"
  by (simp_all add: and_then_def)

lemma and_then_Inr_iff:
  "and_then r f = Inr y \<longleftrightarrow> (\<exists>x. r = Inr x \<and> f x = Inr y)"
  by (cases r) simp_all

definition is_ok :: "('e, 'a) result \<Rightarrow> bool" where
  "is_ok r = (case r of Inl _ \<Rightarrow> False | Inr _ \<Rightarrow> True)"

lemma is_ok_simps [simp]: "\<not> is_ok (Inl e)" "is_ok (Inr x)"
  by (simp_all add: is_ok_def)

lemma is_ok_iff: "is_ok r \<longleftrightarrow> (\<exists>x. r = Inr x)"
  by (cases r) simp_all

section \<open>Decimal numbers\<close>

text \<open>\<open>char::is_ascii_digit\<close>, and the decimal forms the standard library writes and reads.\<close>

definition is_ascii_digit :: "char \<Rightarrow> bool" where
  "is_ascii_digit c \<longleftrightarrow> 48 \<le> (of_char c :: nat) \<and> (of_char c :: nat) \<le> 57"

definition digit_char :: "nat \<Rightarrow> char" where
  "digit_char d = char_of (48 + d)"

definition digit_value :: "char \<Rightarrow> nat" where
  "digit_value c = of_char c - 48"

lemma digit_char_facts:
  assumes "d < 10"
  shows "is_ascii_digit (digit_char d)" and "digit_value (digit_char d) = d"
proof -
  have "(of_char (digit_char d) :: nat) = 48 + d"
    using assms by (simp add: digit_char_def of_char_of take_bit_eq_mod)
  then show "is_ascii_digit (digit_char d)" and "digit_value (digit_char d) = d"
    using assms by (simp_all add: is_ascii_digit_def digit_value_def)
qed

fun show_nat :: "nat \<Rightarrow> string" where
  "show_nat n = (if n < 10 then [digit_char n] else show_nat (n div 10) @ [digit_char (n mod 10)])"

declare show_nat.simps [simp del]

definition digits_value :: "string \<Rightarrow> nat" where
  "digits_value s = foldl (\<lambda>acc c. acc * 10 + digit_value c) 0 s"

lemma digits_value_snoc: "digits_value (s @ [c]) = digits_value s * 10 + digit_value c"
  by (simp add: digits_value_def)

lemma show_nat_digits: "\<forall>c \<in> set (show_nat n). is_ascii_digit c"
proof (induction n rule: show_nat.induct)
  case (1 n)
  show ?case
  proof (cases "n < 10")
    case True
    then show ?thesis by (subst show_nat.simps) (simp add: digit_char_facts)
  next
    case False
    with "1.IH" show ?thesis by (subst show_nat.simps) (auto simp: digit_char_facts)
  qed
qed

lemma show_nat_nonempty [simp]: "show_nat n \<noteq> []"
  by (subst show_nat.simps) simp

lemma digits_value_show_nat [simp]: "digits_value (show_nat n) = n"
proof (induction n rule: show_nat.induct)
  case (1 n)
  show ?case
  proof (cases "n < 10")
    case True
    then show ?thesis
      by (subst show_nat.simps) (simp add: digits_value_def digit_char_facts)
  next
    case False
    with "1.IH" have "digits_value (show_nat (n div 10)) = n div 10" by simp
    with False show ?thesis
      by (subst show_nat.simps) (simp add: digits_value_snoc digit_char_facts)
  qed
qed

definition show_int :: "int \<Rightarrow> string" where
  "show_int i = (if i < 0 then CHR ''-'' # show_nat (nat (- i)) else show_nat (nat i))"

section \<open>Lists\<close>

fun index_of :: "('a \<Rightarrow> bool) \<Rightarrow> 'a list \<Rightarrow> nat option" where
  "index_of p [] = None"
| "index_of p (x # xs) = (if p x then Some 0 else map_option Suc (index_of p xs))"

lemma index_of_Some:
  "index_of p xs = Some i \<Longrightarrow> i < length xs \<and> p (xs ! i) \<and> (\<forall>j < i. \<not> p (xs ! j))"
proof (induction xs arbitrary: i)
  case (Cons x xs)
  then show ?case
    by (auto split: if_splits simp: nth_Cons less_Suc_eq_0_disj split: nat.splits)
qed simp

lemma index_of_None: "index_of p xs = None \<longleftrightarrow> (\<forall>x \<in> set xs. \<not> p x)"
  by (induction xs) auto

fun join_with :: "'a list \<Rightarrow> 'a list list \<Rightarrow> 'a list" where
  "join_with sep [] = []"
| "join_with sep [x] = x"
| "join_with sep (x # y # zs) = x @ sep @ join_with sep (y # zs)"

section \<open>Text\<close>

text \<open>
  A Rust string is its UTF-8 bytes.  The white space and letter case of the standard library are
  modelled on ASCII: the bytes of a non-ASCII character are neither white space nor letters.
\<close>

definition is_whitespace :: "char \<Rightarrow> bool" where
  "is_whitespace c \<longleftrightarrow> (let n = (of_char c :: nat) in n = 32 \<or> 9 \<le> n \<and> n \<le> 13)"

definition trim_start :: "string \<Rightarrow> string" where
  "trim_start s = dropWhile is_whitespace s"

definition trim_end :: "string \<Rightarrow> string" where
  "trim_end s = rev (dropWhile is_whitespace (rev s))"

definition trim :: "string \<Rightarrow> string" where
  "trim s = trim_end (trim_start s)"

definition lower_char :: "char \<Rightarrow> char" where
  "lower_char c = (let n = (of_char c :: nat) in if 65 \<le> n \<and> n \<le> 90 then char_of (n + 32) else c)"

definition to_lowercase :: "string \<Rightarrow> string" where
  "to_lowercase s = map lower_char s"

text \<open>\<open>split_once\<close> and \<open>rsplit\<close> on one byte.\<close>

definition split_once :: "char \<Rightarrow> string \<Rightarrow> (string \<times> string) option" where
  "split_once sep s = (case dropWhile (\<lambda>c. c \<noteq> sep) s of
     [] \<Rightarrow> None | _ # rest \<Rightarrow> Some (takeWhile (\<lambda>c. c \<noteq> sep) s, rest))"

lemma split_once_Some: "split_once sep s = Some (a, b) \<longleftrightarrow> s = a @ sep # b \<and> sep \<notin> set a"
proof
  assume "split_once sep s = Some (a, b)"
  then obtain c where d: "dropWhile (\<lambda>c. c \<noteq> sep) s = c # b" and a: "a = takeWhile (\<lambda>c. c \<noteq> sep) s"
    by (auto simp: split_once_def split: list.splits)
  from d have "c = sep" by (simp add: dropWhile_eq_Cons_conv)
  with d a takeWhile_dropWhile_id [of "\<lambda>c. c \<noteq> sep" s] show "s = a @ sep # b \<and> sep \<notin> set a"
    by (metis set_takeWhileD)
next
  assume a: "s = a @ sep # b \<and> sep \<notin> set a"
  then have "dropWhile (\<lambda>c. c \<noteq> sep) s = sep # b" "takeWhile (\<lambda>c. c \<noteq> sep) s = a"
    by (auto simp: dropWhile_append takeWhile_append)
  then show "split_once sep s = Some (a, b)" by (simp add: split_once_def)
qed

lemma split_once_None: "split_once sep s = None \<longleftrightarrow> sep \<notin> set s"
proof
  assume n: "split_once sep s = None"
  show "sep \<notin> set s"
  proof
    assume "sep \<in> set s"
    then obtain a b where "s = a @ sep # b" "sep \<notin> set a" by (meson split_list_first)
    then have "split_once sep s = Some (a, b)" by (simp add: split_once_Some)
    with n show False by simp
  qed
next
  assume "sep \<notin> set s"
  then show "split_once sep s = None"
    by (cases "split_once sep s") (auto simp: split_once_Some)
qed

section \<open>Ordered maps\<close>

text \<open>
  \<open>std::collections::BTreeMap\<close>: the entries in ascending key order.  \<open>bt_wf\<close> is what the
  standard library keeps true of every map; iteration is the list itself.
\<close>

type_synonym ('k, 'v) btree = "('k \<times> 'v) list"

definition bt_wf :: "('k::linorder, 'v) btree \<Rightarrow> bool" where
  "bt_wf m \<longleftrightarrow> sorted_wrt (<) (map fst m)"

definition bt_keys :: "('k, 'v) btree \<Rightarrow> 'k list" where
  "bt_keys m = map fst m"

abbreviation bt_get :: "('k, 'v) btree \<Rightarrow> 'k \<Rightarrow> 'v option" where
  "bt_get m \<equiv> map_of m"

fun bt_insert :: "'k::linorder \<Rightarrow> 'v \<Rightarrow> ('k, 'v) btree \<Rightarrow> ('k, 'v) btree" where
  "bt_insert k v [] = [(k, v)]"
| "bt_insert k v ((k', v') # m) =
     (if k < k' then (k, v) # (k', v') # m
      else if k = k' then (k, v) # m
      else (k', v') # bt_insert k v m)"

definition bt_remove :: "'k \<Rightarrow> ('k, 'v) btree \<Rightarrow> ('k, 'v) btree" where
  "bt_remove k m = filter (\<lambda>e. fst e \<noteq> k) m"

definition bt_retain :: "('k \<Rightarrow> 'v \<Rightarrow> bool) \<Rightarrow> ('k, 'v) btree \<Rightarrow> ('k, 'v) btree" where
  "bt_retain p m = filter (\<lambda>(k, v). p k v) m"

definition bt_of_list :: "('k::linorder \<times> 'v) list \<Rightarrow> ('k, 'v) btree" where
  "bt_of_list es = fold (\<lambda>(k, v). bt_insert k v) es []"

lemma bt_get_insert [simp]: "bt_get (bt_insert k v m) = (bt_get m)(k \<mapsto> v)"
  by (induction k v m rule: bt_insert.induct) (auto simp: fun_eq_iff)

lemma bt_keys_insert [simp]: "fst ` set (bt_insert k v m) = insert k (fst ` set m)"
  by (induction k v m rule: bt_insert.induct) auto

lemma bt_wf_Nil [simp]: "bt_wf []"
  by (simp add: bt_wf_def)

lemma bt_wf_Cons: "bt_wf ((k, v) # m) \<longleftrightarrow> (\<forall>k' \<in> fst ` set m. k < k') \<and> bt_wf m"
  by (auto simp: bt_wf_def)

lemma bt_wf_insert [wf_intros]: "bt_wf m \<Longrightarrow> bt_wf (bt_insert k v m)"
  by (induction k v m rule: bt_insert.induct) (auto simp: bt_wf_Cons)

lemma bt_wf_distinct: "bt_wf m \<Longrightarrow> distinct (map fst m)"
  by (simp add: bt_wf_def strict_sorted_iff)

lemma sorted_wrt_map_filter: "sorted_wrt P (map f xs) \<Longrightarrow> sorted_wrt P (map f (filter q xs))"
  by (induction xs) auto

lemma bt_wf_filter [wf_intros]: "bt_wf m \<Longrightarrow> bt_wf (filter q m)"
  by (simp add: bt_wf_def sorted_wrt_map_filter)

lemma bt_wf_remove [wf_intros]: "bt_wf m \<Longrightarrow> bt_wf (bt_remove k m)"
  by (simp add: bt_remove_def bt_wf_filter)

lemma bt_wf_retain [wf_intros]: "bt_wf m \<Longrightarrow> bt_wf (bt_retain p m)"
  by (simp add: bt_retain_def bt_wf_filter)

text \<open>\<open>retain\<close> with a closure that also changes the values.\<close>

definition bt_filter_map :: "('k \<Rightarrow> 'v \<Rightarrow> 'w option) \<Rightarrow> ('k, 'v) btree \<Rightarrow> ('k, 'w) btree" where
  "bt_filter_map f m = List.map_filter (\<lambda>(k, v). map_option (Pair k) (f k v)) m"

lemma bt_filter_map_simps [simp]:
  "bt_filter_map f [] = []"
  "bt_filter_map f ((k, v) # m) = (case f k v of None \<Rightarrow> bt_filter_map f m | Some w \<Rightarrow> (k, w) # bt_filter_map f m)"
  by (simp_all add: bt_filter_map_def List.map_filter_simps split: option.split)

lemma bt_filter_map_mem: "(k, w) \<in> set (bt_filter_map f m) \<longleftrightarrow> (\<exists>v. (k, v) \<in> set m \<and> f k v = Some w)"
  by (induction m) (auto split: option.splits)

lemma bt_filter_map_keys: "fst ` set (bt_filter_map f m) \<subseteq> fst ` set m"
  by (force simp: bt_filter_map_mem)

lemma bt_wf_filter_map [wf_intros]: "bt_wf m \<Longrightarrow> bt_wf (bt_filter_map f m)"
proof (induction m)
  case (Cons e m)
  then show ?case
    by (cases e) (fastforce simp: bt_wf_Cons bt_filter_map_mem split: option.splits)
qed simp

lemma bt_get_filter_map:
  "bt_wf m \<Longrightarrow> bt_get (bt_filter_map f m) k = (case bt_get m k of None \<Rightarrow> None | Some v \<Rightarrow> f k v)"
proof (induction m)
  case (Cons e m)
  obtain a b where e: "e = (a, b)" by (cases e)
  have "bt_get m a = None" using Cons.prems by (auto simp: e bt_wf_Cons map_of_eq_None_iff)
  with Cons show ?case by (auto simp: e bt_wf_Cons split: option.splits)
qed simp

lemma bt_get_remove [simp]: "bt_get (bt_remove k m) = (bt_get m)(k := None)"
  by (induction m) (auto simp: bt_remove_def fun_eq_iff)

lemma bt_get_fold_insert:
  "bt_get (fold (\<lambda>(k, v). bt_insert k v) es m) k = Some v \<Longrightarrow> (k, v) \<in> set es \<or> bt_get m k = Some v"
proof (induction es arbitrary: m)
  case (Cons e es)
  obtain a b where e: "e = (a, b)" by (cases e)
  with Cons.IH [of "bt_insert a b m"] Cons.prems show ?case by (auto split: if_splits)
qed simp

lemma bt_get_mem: "bt_wf m \<Longrightarrow> bt_get m k = Some v \<longleftrightarrow> (k, v) \<in> set m"
  by (simp add: bt_wf_distinct)

lemma bt_wf_of_list [wf_intros]: "bt_wf (bt_of_list es)"
proof -
  have "bt_wf m \<Longrightarrow> bt_wf (fold (\<lambda>(k, v). bt_insert k v) es m)" for m
    by (induction es arbitrary: m) (auto intro: bt_wf_insert)
  then show ?thesis by (simp add: bt_of_list_def)
qed

lemma bt_get_of_list: "bt_get (bt_of_list es) = map_of (rev es)"
proof -
  have "bt_get (fold (\<lambda>(k, v). bt_insert k v) es m) = bt_get m ++ map_of (rev es)" for m
    by (induction es arbitrary: m) (auto simp: map_add_def fun_eq_iff split: option.splits)
  then show ?thesis by (simp add: bt_of_list_def)
qed

lemma map_of_rev: "distinct (map fst es) \<Longrightarrow> map_of (rev es) = map_of es"
  using map_of_inject_set [of "rev es" es] by (simp add: rev_map [symmetric])

lemma bt_get_of_distinct: "distinct (map fst es) \<Longrightarrow> bt_get (bt_of_list es) = map_of es"
  by (simp add: bt_get_of_list map_of_rev)

lemma bt_eqI:
  assumes a: "bt_wf a" and b: "bt_wf b" and g: "bt_get a = bt_get b"
  shows "a = b"
proof -
  have s: "set a = set b"
    using map_of_inject_set [OF bt_wf_distinct [OF a] bt_wf_distinct [OF b]] g by blast
  then have k: "set (map fst a) = set (map fst b)" by (metis list.set_map)
  have sa: "sorted (map fst a) \<and> distinct (map fst a)" "sorted (map fst b) \<and> distinct (map fst b)"
    using a b unfolding bt_wf_def strict_sorted_iff by blast+
  have "map fst a = map fst b"
    using sorted_distinct_set_unique [of "map fst a" "map fst b"] sa k by blast
  moreover have "inj_on fst (set a \<union> set b)"
    using s bt_wf_distinct [OF a] by (simp add: distinct_map)
  ultimately show ?thesis by (simp add: inj_on_map_eq_map)
qed

lemma bt_of_list_wf: "bt_wf m \<Longrightarrow> bt_of_list m = m"
  by (rule bt_eqI [OF bt_wf_of_list]) (simp_all add: bt_get_of_distinct bt_wf_distinct)

lemma bt_get_retain:
  assumes "bt_wf m"
  shows "bt_get (bt_retain p m) k = (case bt_get m k of None \<Rightarrow> None
           | Some v \<Rightarrow> if p k v then Some v else None)"
proof -
  have r: "bt_wf (bt_retain p m)"
    using assms by (rule bt_wf_retain)
  show ?thesis
  proof (cases "bt_get m k")
    case None
    then have "k \<notin> fst ` set m" by (simp add: map_of_eq_None_iff)
    then have "k \<notin> fst ` set (bt_retain p m)" by (auto simp: bt_retain_def)
    then have "bt_get (bt_retain p m) k = None" by (metis map_of_eq_None_iff)
    with None show ?thesis by simp
  next
    case (Some v)
    then have mem: "(k, v) \<in> set m" using assms by (simp add: bt_get_mem)
    show ?thesis
    proof (cases "p k v")
      case True
      then have "(k, v) \<in> set (bt_retain p m)" using mem by (auto simp: bt_retain_def)
      with True Some r show ?thesis by (simp add: bt_get_mem)
    next
      case False
      have "bt_get (bt_retain p m) k = None"
      proof (rule ccontr)
        assume "bt_get (bt_retain p m) k \<noteq> None"
        then obtain w where "(k, w) \<in> set (bt_retain p m)" using r by (auto simp: bt_get_mem)
        then have "(k, w) \<in> set m" "p k w" by (auto simp: bt_retain_def)
        with assms Some False show False by (metis bt_get_mem option.inject)
      qed
      with Some False show ?thesis by simp
    qed
  qed
qed

lemma find_SomeD: "find P xs = Some x \<Longrightarrow> x \<in> set xs \<and> P x"
  by (induction xs) (auto split: if_splits)

lemma set_last_butlast: "xs \<noteq> [] \<Longrightarrow> set xs = insert (last xs) (set (butlast xs))"
  by (induction xs) auto

section \<open>Tables of lists\<close>

text \<open>
  \<open>HashMap<K, Vec<V>>\<close> used by single keys only: \<open>entry_push\<close> is
  \<open>entry(k).or_default().push(v)\<close> (an occupied entry is extended, a vacant one created), and
  \<open>entry_remove\<close> is \<open>remove(k)\<close>.
\<close>

fun entry_push :: "'k \<Rightarrow> 'v \<Rightarrow> ('k \<times> 'v list) list \<Rightarrow> ('k \<times> 'v list) list" where
  "entry_push k s [] = [(k, [s])]"
| "entry_push k s ((k', ls) # t) = (if k' = k then (k', ls @ [s]) # t else (k', ls) # entry_push k s t)"

definition vacant :: "'k \<Rightarrow> ('k \<times> 'v list) list \<Rightarrow> bool" where
  "vacant k t \<longleftrightarrow> map_of t k = None"

fun entry_remove :: "'k \<Rightarrow> ('k \<times> 'v list) list \<Rightarrow> 'v list \<times> ('k \<times> 'v list) list" where
  "entry_remove k [] = ([], [])"
| "entry_remove k ((k', ls) # t) =
     (if k' = k then (ls, t) else case entry_remove k t of (r, t') \<Rightarrow> (r, (k', ls) # t'))"

lemma vacant_iff: "vacant k t \<longleftrightarrow> k \<notin> set (map fst t)"
  by (simp add: vacant_def map_of_eq_None_iff)

lemma entry_push_keys:
  "map fst (entry_push k s t) = map fst t @ (if vacant k t then [k] else [])"
  by (induction k s t rule: entry_push.induct) (auto simp: vacant_def)

lemma entry_push_distinct: "distinct (map fst t) \<Longrightarrow> distinct (map fst (entry_push k s t))"
  by (simp add: entry_push_keys vacant_iff)

lemma entry_push_filled: "[] \<notin> snd ` set t \<Longrightarrow> [] \<notin> snd ` set (entry_push k s t)"
  by (induction k s t rule: entry_push.induct) auto

lemma entry_remove_keys:
  "distinct (map fst t) \<Longrightarrow> map fst (snd (entry_remove k t)) = filter (\<lambda>x. x \<noteq> k) (map fst t)"
proof (induction k t rule: entry_remove.induct)
  case (2 k k' ls t)
  have "k' = k \<Longrightarrow> filter (\<lambda>x. x \<noteq> k) (map fst t) = map fst t"
    using 2(2) by (auto simp: filter_id_conv)
  with 2 show ?case by (auto split: prod.split)
qed simp

lemma entry_remove_subset: "set (snd (entry_remove k t)) \<subseteq> set t"
  by (induction k t rule: entry_remove.induct) (auto split: prod.split)

section \<open>Text codecs\<close>

text \<open>
  The interface between a type's \<open>Display\<close> and its \<open>FromStr\<close>: what is printed reads
  back.  Every client fact (printing is injective, a parse that fails hits no printed form,
  a list of printed values reads back) is proved here once and reached by interpretation.
\<close>

locale text_codec =
  fixes show_text :: "'a \<Rightarrow> string"
    and read_text :: "string \<Rightarrow> ('e, 'a) result"
  assumes read_show: "read_text (show_text x) = Inr x"
begin

lemma show_injective: "show_text x = show_text y \<Longrightarrow> x = y"
  by (metis read_show Inr_inject)

lemma read_error_not_shown: "read_text s = Inl e \<Longrightarrow> s \<noteq> show_text x"
  by (auto simp: read_show)

lemma read_all: "list_all (\<lambda>(x, s). read_text s = Inr x) (zip xs (map show_text xs))"
  by (induction xs) (simp_all add: read_show)

lemma show_mem_iff: "show_text x \<in> set (map show_text xs) \<longleftrightarrow> x \<in> set xs"
  using show_injective by auto

end

end
