(* ===== verification/Output_Selection.thy ===== *)
theory Output_Selection
  imports Prelude
begin

text \<open>
  \<open>crates/compilers/crates/artifacts/solc/src/output_selection.rs\<close>: the outputs that can be
  requested from solc, their text form (\<open>Display\<close>, which \<open>Serialize\<close> writes) and their
  parser (\<open>FromStr\<close>, which \<open>Deserialize\<close> calls), and the operations of
  \<open>OutputSelection\<close> on the two-level map \<open>file -> contract -> outputs\<close>.  A \<open>BTreeMap\<close> is
  a finite map; the error of a parser is the message the source formats.
\<close>

section \<open>Selections and their text\<close>

datatype BytecodeOutputSelection =
  BcAll | BcFunctionDebugData | BcObject | BcOpcodes | BcSourceMap | BcLinkReferences
| BcGeneratedSources

fun bytecode_display :: "BytecodeOutputSelection \<Rightarrow> string" where
  "bytecode_display BcAll = ''evm.bytecode''"
| "bytecode_display BcFunctionDebugData = ''evm.bytecode.functionDebugData''"
| "bytecode_display BcObject = ''evm.bytecode.object''"
| "bytecode_display BcOpcodes = ''evm.bytecode.opcodes''"
| "bytecode_display BcSourceMap = ''evm.bytecode.sourceMap''"
| "bytecode_display BcLinkReferences = ''evm.bytecode.linkReferences''"
| "bytecode_display BcGeneratedSources = ''evm.bytecode.generatedSources''"

definition bytecode_from_str :: "string \<Rightarrow> (string, BytecodeOutputSelection) result" where
  "bytecode_from_str s =
     (if s = ''evm.bytecode'' then Inr BcAll
      else if s = ''evm.bytecode.functionDebugData'' then Inr BcFunctionDebugData
      else if s \<in> {''code'', ''bin'', ''evm.bytecode.object''} then Inr BcObject
      else if s = ''evm.bytecode.opcodes'' then Inr BcOpcodes
      else if s = ''evm.bytecode.sourceMap'' then Inr BcSourceMap
      else if s = ''evm.bytecode.linkReferences'' then Inr BcLinkReferences
      else if s = ''evm.bytecode.generatedSources'' then Inr BcGeneratedSources
      else Inl (''Invalid bytecode selection: '' @ s))"

datatype DeployedBytecodeOutputSelection =
  DbAll | DbFunctionDebugData | DbObject | DbOpcodes | DbSourceMap | DbLinkReferences
| DbGeneratedSources | DbImmutableReferences

fun deployed_display :: "DeployedBytecodeOutputSelection \<Rightarrow> string" where
  "deployed_display DbAll = ''evm.deployedBytecode''"
| "deployed_display DbFunctionDebugData = ''evm.deployedBytecode.functionDebugData''"
| "deployed_display DbObject = ''evm.deployedBytecode.object''"
| "deployed_display DbOpcodes = ''evm.deployedBytecode.opcodes''"
| "deployed_display DbSourceMap = ''evm.deployedBytecode.sourceMap''"
| "deployed_display DbLinkReferences = ''evm.deployedBytecode.linkReferences''"
| "deployed_display DbGeneratedSources = ''evm.deployedBytecode.generatedSources''"
| "deployed_display DbImmutableReferences = ''evm.deployedBytecode.immutableReferences''"

definition deployed_from_str :: "string \<Rightarrow> (string, DeployedBytecodeOutputSelection) result" where
  "deployed_from_str s =
     (if s = ''evm.deployedBytecode'' then Inr DbAll
      else if s = ''evm.deployedBytecode.functionDebugData'' then Inr DbFunctionDebugData
      else if s \<in> {''deployed-code'', ''deployed-bin'', ''runtime-code'', ''runtime-bin'',
                    ''evm.deployedBytecode.object''} then Inr DbObject
      else if s = ''evm.deployedBytecode.opcodes'' then Inr DbOpcodes
      else if s = ''evm.deployedBytecode.sourceMap'' then Inr DbSourceMap
      else if s = ''evm.deployedBytecode.linkReferences'' then Inr DbLinkReferences
      else if s = ''evm.deployedBytecode.generatedSources'' then Inr DbGeneratedSources
      else if s = ''evm.deployedBytecode.immutableReferences'' then Inr DbImmutableReferences
      else Inl (''Invalid deployedBytecode selection: '' @ s))"

datatype EwasmOutputSelection = EwAll | EwWast | EwWasm

fun ewasm_display :: "EwasmOutputSelection \<Rightarrow> string" where
  "ewasm_display EwAll = ''ewasm''"
| "ewasm_display EwWast = ''ewasm.wast''"
| "ewasm_display EwWasm = ''ewasm.wasm''"

definition ewasm_from_str :: "string \<Rightarrow> (string, EwasmOutputSelection) result" where
  "ewasm_from_str s =
     (if s = ''ewasm'' then Inr EwAll
      else if s = ''ewasm.wast'' then Inr EwWast
      else if s = ''ewasm.wasm'' then Inr EwWasm
      else Inl (''Invalid ewasm selection: '' @ s))"

datatype EvmOutputSelection =
  EvmAll | EvmAssembly | EvmLegacyAssembly | EvmMethodIdentifiers | EvmGasEstimates
| EvmByteCode BytecodeOutputSelection
| EvmDeployedByteCode DeployedBytecodeOutputSelection

fun evm_display :: "EvmOutputSelection \<Rightarrow> string" where
  "evm_display EvmAll = ''evm''"
| "evm_display EvmAssembly = ''evm.assembly''"
| "evm_display EvmLegacyAssembly = ''evm.legacyAssembly''"
| "evm_display EvmMethodIdentifiers = ''evm.methodIdentifiers''"
| "evm_display EvmGasEstimates = ''evm.gasEstimates''"
| "evm_display (EvmByteCode b) = bytecode_display b"
| "evm_display (EvmDeployedByteCode b) = deployed_display b"

definition evm_from_str :: "string \<Rightarrow> (string, EvmOutputSelection) result" where
  "evm_from_str s =
     (if s = ''evm'' then Inr EvmAll
      else if s \<in> {''asm'', ''evm.assembly''} then Inr EvmAssembly
      else if s \<in> {''legacyAssembly'', ''evm.legacyAssembly''} then Inr EvmLegacyAssembly
      else if s \<in> {''methodidentifiers'', ''evm.methodIdentifiers'', ''evm.methodidentifiers''}
        then Inr EvmMethodIdentifiers
      else if s \<in> {''gas'', ''evm.gasEstimates'', ''evm.gasestimates''} then Inr EvmGasEstimates
      else case bytecode_from_str s of
        Inr b \<Rightarrow> Inr (EvmByteCode b)
      | Inl _ \<Rightarrow> (case deployed_from_str s of
          Inr d \<Rightarrow> Inr (EvmDeployedByteCode d)
        | Inl _ \<Rightarrow> Inl (''Invalid evm selection: '' @ s)))"

datatype ContractOutputSelection =
  CoAbi | CoDevDoc | CoUserDoc | CoMetadata | CoIr | CoIrOptimized | CoIrOptimizedAst
| CoStorageLayout | CoTransientStorageLayout
| CoEvm EvmOutputSelection
| CoEwasm EwasmOutputSelection

fun contract_display :: "ContractOutputSelection \<Rightarrow> string" where
  "contract_display CoAbi = ''abi''"
| "contract_display CoDevDoc = ''devdoc''"
| "contract_display CoUserDoc = ''userdoc''"
| "contract_display CoMetadata = ''metadata''"
| "contract_display CoIr = ''ir''"
| "contract_display CoIrOptimized = ''irOptimized''"
| "contract_display CoIrOptimizedAst = ''irOptimizedAst''"
| "contract_display CoStorageLayout = ''storageLayout''"
| "contract_display CoTransientStorageLayout = ''transientStorageLayout''"
| "contract_display (CoEvm e) = evm_display e"
| "contract_display (CoEwasm e) = ewasm_display e"

definition contract_from_str :: "string \<Rightarrow> (string, ContractOutputSelection) result" where
  "contract_from_str s =
     (if s = ''abi'' then Inr CoAbi
      else if s = ''devdoc'' then Inr CoDevDoc
      else if s = ''userdoc'' then Inr CoUserDoc
      else if s = ''metadata'' then Inr CoMetadata
      else if s = ''ir'' then Inr CoIr
      else if s \<in> {''ir-optimized'', ''irOptimized'', ''iroptimized''} then Inr CoIrOptimized
      else if s \<in> {''irOptimizedAst'', ''ir-optimized-ast'', ''iroptimizedast''}
        then Inr CoIrOptimizedAst
      else if s \<in> {''storage-layout'', ''storagelayout'', ''storageLayout''}
        then Inr CoStorageLayout
      else if s \<in> {''transient-storage-layout'', ''transientstoragelayout'',
                    ''transientStorageLayout''} then Inr CoTransientStorageLayout
      else case evm_from_str s of
        Inr e \<Rightarrow> Inr (CoEvm e)
      | Inl _ \<Rightarrow> (case ewasm_from_str s of
          Inr w \<Rightarrow> Inr (CoEwasm w)
        | Inl _ \<Rightarrow> Inl (''Invalid contract output selection: '' @ s)))"

definition contract_basic :: "ContractOutputSelection list" where
  "contract_basic =
     [CoAbi,
      CoEvm (EvmByteCode BcObject), CoEvm (EvmByteCode BcSourceMap),
      CoEvm (EvmByteCode BcLinkReferences),
      CoEvm (EvmDeployedByteCode DbObject), CoEvm (EvmDeployedByteCode DbSourceMap),
      CoEvm (EvmDeployedByteCode DbLinkReferences),
      CoEvm (EvmDeployedByteCode DbImmutableReferences),
      CoEvm EvmMethodIdentifiers]"

subsection \<open>The codecs\<close>

interpretation bytecode: text_codec bytecode_display bytecode_from_str
  by unfold_locales (case_tac x; simp add: bytecode_from_str_def)

interpretation deployed: text_codec deployed_display deployed_from_str
  by unfold_locales (case_tac x; simp add: deployed_from_str_def)

interpretation ewasm: text_codec ewasm_display ewasm_from_str
  by unfold_locales (case_tac x; simp add: ewasm_from_str_def)

lemma bytecode_rejects_deployed: "\<exists>e. bytecode_from_str (deployed_display d) = Inl e"
  by (cases d) (simp_all add: bytecode_from_str_def)

lemma evm_read_bytecode: "evm_from_str (bytecode_display b) = Inr (EvmByteCode b)"
  by (cases b) (simp_all add: evm_from_str_def bytecode_from_str_def)

lemma evm_read_deployed: "evm_from_str (deployed_display d) = Inr (EvmDeployedByteCode d)"
  by (cases d) (simp_all add: evm_from_str_def bytecode_from_str_def deployed_from_str_def)

interpretation evm: text_codec evm_display evm_from_str
proof unfold_locales
  fix x :: EvmOutputSelection
  show "evm_from_str (evm_display x) = Inr x"
    by (cases x) (simp_all add: evm_read_bytecode evm_read_deployed, simp_all add: evm_from_str_def)
qed

lemma evm_rejects_ewasm: "\<exists>e. evm_from_str (ewasm_display w) = Inl e"
  by (cases w) (simp_all add: evm_from_str_def bytecode_from_str_def deployed_from_str_def)

text \<open>No contract-level name hides an evm one.\<close>

lemma contract_read_evm: "contract_from_str (evm_display e) = Inr (CoEvm e)"
proof (cases e)
  case (EvmByteCode b)
  then show ?thesis
    by (cases b) (simp_all add: contract_from_str_def evm_from_str_def bytecode_from_str_def)
next
  case (EvmDeployedByteCode d)
  then show ?thesis
    by (cases d) (simp_all add: contract_from_str_def evm_from_str_def bytecode_from_str_def
        deployed_from_str_def)
qed (simp_all add: contract_from_str_def evm_from_str_def)

lemma contract_read_ewasm: "contract_from_str (ewasm_display w) = Inr (CoEwasm w)"
  by (cases w) (simp_all add: contract_from_str_def evm_from_str_def bytecode_from_str_def
      deployed_from_str_def ewasm_from_str_def)

interpretation contract: text_codec contract_display contract_from_str
proof unfold_locales
  fix x :: ContractOutputSelection
  show "contract_from_str (contract_display x) = Inr x"
    by (cases x) (simp_all add: contract_read_evm contract_read_ewasm,
        simp_all add: contract_from_str_def)
qed

section \<open>\<open>OutputSelection\<close>\<close>

type_synonym FileOutputSelection = "(string, string list) btree"
type_synonym OutputSelection = "(string, FileOutputSelection) btree"

definition complete_output_selection :: OutputSelection where
  "complete_output_selection = [(''*'', bt_of_list [(''*'', [''*'']), ([], [''*''])])]"

definition default_file_output_selection :: FileOutputSelection where
  "default_file_output_selection = [(''*'', map contract_display contract_basic)]"

definition default_output_selection :: OutputSelection where
  "default_output_selection = [(''*'', default_file_output_selection)]"

definition common_output_selection :: "string list \<Rightarrow> OutputSelection" where
  "common_output_selection outputs = [(''*'', [(''*'', outputs)])]"

definition empty_file_output_select :: FileOutputSelection where
  "empty_file_output_select = []"

definition ast_output_selection :: OutputSelection where
  "ast_output_selection = [(''*'', bt_of_list [(''*'', []), ([], [''ast''])])]"

definition is_subset_of :: "OutputSelection \<Rightarrow> OutputSelection \<Rightarrow> bool" where
  "is_subset_of this other =
     list_all (\<lambda>(file, selection).
       case bt_get other file of
         None \<Rightarrow> False
       | Some other_selection \<Rightarrow>
           list_all (\<lambda>(contract, outputs).
             case bt_get other_selection contract of
               None \<Rightarrow> False
             | Some other_outputs \<Rightarrow> list_all (\<lambda>out. List.member other_outputs out) outputs)
             selection)
       this"

definition contains_ast :: "OutputSelection \<Rightarrow> bool" where
  "contains_ast sel =
     list_ex (\<lambda>(_, file_selection).
       list_ex (\<lambda>(contract_name, outputs).
         contract_name = [] \<and> list_ex (\<lambda>out. out = ''ast'' \<or> out = ''*'') outputs)
         file_selection)
       sel"

text \<open>
  \<open>Serialize for OutputSelection\<close>: the entries the serializer is handed, in order; an empty
  file selection is written as \<open>{"*": []}\<close>.
\<close>

definition serialize_output_selection ::
    "OutputSelection \<Rightarrow> (string \<times> (string \<times> string list) list) list" where
  "serialize_output_selection sel =
     map (\<lambda>(file, selection). (file, if selection = [] then [(''*'', [])] else selection)) sel"

text \<open>What a selection asks of solc: the requested triples.\<close>

definition requested :: "OutputSelection \<Rightarrow> (string \<times> string \<times> string) set" where
  "requested sel = {(f, c, out). \<exists>fs outs. bt_get sel f = Some fs \<and> bt_get fs c = Some outs \<and> out \<in> set outs}"

definition selection_wf :: "OutputSelection \<Rightarrow> bool" where
  "selection_wf sel \<longleftrightarrow> bt_wf sel \<and> (\<forall>(f, fs) \<in> set sel. bt_wf fs)"

lemma is_subset_of_iff:
  assumes "selection_wf a"
  shows "is_subset_of a b \<longleftrightarrow>
     (\<forall>f fs. bt_get a f = Some fs \<longrightarrow> (\<exists>gs. bt_get b f = Some gs \<and>
        (\<forall>c outs. bt_get fs c = Some outs \<longrightarrow>
           (\<exists>outs'. bt_get gs c = Some outs' \<and> set outs \<subseteq> set outs'))))"
proof -
  have get_a: "bt_get a f = Some fs \<longleftrightarrow> (f, fs) \<in> set a" for f fs
    using assms by (simp add: selection_wf_def bt_wf_distinct)
  have get_fs: "bt_get fs c = Some outs \<longleftrightarrow> (c, outs) \<in> set fs" if "(f, fs) \<in> set a" for f fs c outs
    using assms that by (auto simp: selection_wf_def bt_wf_distinct)
  have entry: "(case bt_get b f of None \<Rightarrow> False
         | Some gs \<Rightarrow> list_all (\<lambda>(c, outs). case bt_get gs c of None \<Rightarrow> False
             | Some outs' \<Rightarrow> list_all (\<lambda>out. List.member outs' out) outs) fs) \<longleftrightarrow>
      (\<exists>gs. bt_get b f = Some gs \<and> (\<forall>c outs. bt_get fs c = Some outs \<longrightarrow>
           (\<exists>outs'. bt_get gs c = Some outs' \<and> set outs \<subseteq> set outs')))"
    if "(f, fs) \<in> set a" for f fs
    using get_fs [OF that]
    by (force simp: list_all_iff split: option.splits)
  show ?thesis
    unfolding is_subset_of_def list_all_iff [of _ a] using entry get_a by (auto 0 3)
qed

lemma is_subset_of_requested:
  assumes "selection_wf a" and "is_subset_of a b"
  shows "requested a \<subseteq> requested b"
  using assms(2) unfolding is_subset_of_iff [OF assms(1)] requested_def by fastforce

lemma contains_ast_iff:
  assumes "selection_wf sel"
  shows "contains_ast sel \<longleftrightarrow> (\<exists>f. (f, [], ''ast'') \<in> requested sel \<or> (f, [], ''*'') \<in> requested sel)"
proof -
  have get: "bt_get sel f = Some fs \<longleftrightarrow> (f, fs) \<in> set sel" for f fs
    using assms by (simp add: selection_wf_def bt_wf_distinct)
  have get2: "(f, fs) \<in> set sel \<Longrightarrow> bt_get fs c = Some outs \<longleftrightarrow> (c, outs) \<in> set fs" for f fs c outs
    using assms by (auto simp: selection_wf_def bt_wf_distinct)
  show ?thesis
    unfolding contains_ast_def requested_def list_ex_iff
    by (fastforce simp: get get2)
qed

section \<open>Properties\<close>

text \<open>
  C30: every output selection survives its text form: what \<open>Display\<close> prints for a contract, evm,
  bytecode, deployed bytecode or ewasm selection, \<open>FromStr\<close> of the same type reads back, and
  \<open>Display\<close> of a contract selection is injective although the five name spaces are merged.
\<close>

theorem output_selection_roundtrip:
  "contract_from_str (contract_display c) = Inr c \<and> evm_from_str (evm_display v) = Inr v \<and>
   bytecode_from_str (bytecode_display b) = Inr b \<and> deployed_from_str (deployed_display d) = Inr d \<and>
   ewasm_from_str (ewasm_display w) = Inr w \<and> inj contract_display"
  by (auto simp: contract.read_show evm.read_show bytecode.read_show deployed.read_show
      ewasm.read_show intro!: injI dest: contract.show_injective)



end
