(* ===== verification/Sourcemap.thy ===== *)
theory Sourcemap
  imports Prelude
begin

unbundle bit_operations_syntax

text \<open>
  \<open>crates/compilers/crates/artifacts/solc/src/sourcemap.rs\<close>: the lexer, the element builder,
  the separator state machine and the parser of solc's compressed source maps.  The 32-bit
  fields are words; \<open>index\<close> is an \<open>i32\<close>, read by \<open>sint\<close>; \<open>usize\<close> values are naturals that
  come from a checked 32-bit number.  The input is a byte list: a character outside ASCII is
  rejected by the lexer at its first byte, as in the source, and the message names that byte.
  \<open>unreachable!()\<close> and other panics are \<open>None\<close>.
\<close>

section \<open>Jumps and source elements\<close>

datatype Jump = JumpIn | JumpOut | JumpRegular

fun jump_to_str :: "Jump \<Rightarrow> string" where
  "jump_to_str JumpIn = ''i''"
| "jump_to_str JumpOut = ''o''"
| "jump_to_str JumpRegular = ''-''"

fun jump_to_int :: "Jump \<Rightarrow> 32 word" where
  "jump_to_int JumpIn = 0"
| "jump_to_int JumpOut = 1"
| "jump_to_int JumpRegular = 2"

definition jump_from_int :: "32 word \<Rightarrow> Jump option" where
  "jump_from_int i =
     (if i = 0 then Some JumpIn else if i = 1 then Some JumpOut
      else if i = 2 then Some JumpRegular else None)"

record SyntaxError =
  err_pos :: "nat option"
  err_msg :: string

definition syntax_error :: "nat option \<Rightarrow> string \<Rightarrow> SyntaxError" where
  "syntax_error p m = \<lparr>err_pos = p, err_msg = m\<rparr>"

record SourceElement =
  se_offset :: "32 word"
  se_length :: "32 word"
  se_index :: "32 word"
  jump_and_modifier_depth :: "32 word"

definition source_element_new :: SourceElement where
  "source_element_new = \<lparr>se_offset = 0, se_length = 0, se_index = -1, jump_and_modifier_depth = 0\<rparr>"

definition element_index :: "SourceElement \<Rightarrow> 32 word option" where
  "element_index e = (if se_index e = -1 then None else Some (se_index e))"

definition index_i32 :: "SourceElement \<Rightarrow> int" where
  "index_i32 e = sint (se_index e)"

definition element_jump :: "SourceElement \<Rightarrow> Jump option" where
  "element_jump e = jump_from_int (drop_bit 30 (jump_and_modifier_depth e))"

definition modifier_depth :: "SourceElement \<Rightarrow> 32 word" where
  "modifier_depth e = drop_bit 2 (push_bit 2 (jump_and_modifier_depth e))"

definition set_jump_and_modifier_depth ::
    "Jump \<Rightarrow> 32 word \<Rightarrow> SourceElement \<Rightarrow> SourceElement" where
  "set_jump_and_modifier_depth j d e =
     e\<lparr>jump_and_modifier_depth := push_bit 30 (jump_to_int j) OR d\<rparr>"

definition set_jump :: "Jump \<Rightarrow> SourceElement \<Rightarrow> SourceElement" where
  "set_jump j e = set_jump_and_modifier_depth j (modifier_depth e) e"

text \<open>\<open>set_modifier_depth\<close> reads the jump back, so it panics where \<open>jump\<close> does.\<close>

definition set_modifier_depth ::
    "nat \<Rightarrow> SourceElement \<Rightarrow> (SyntaxError, SourceElement) result option" where
  "set_modifier_depth d e =
     (if d > 2 ^ 30 - 1 then Some (Inl (syntax_error None ''modifier depth overflow''))
      else case element_jump e of
             None \<Rightarrow> None
           | Some j \<Rightarrow> Some (Inr (set_jump_and_modifier_depth j (of_nat d) e)))"

text \<open>\<open>Display for SourceElement\<close>; \<open>None\<close> where \<open>jump\<close> panics.\<close>

definition element_display :: "SourceElement \<Rightarrow> string option" where
  "element_display e = map_option (\<lambda>j.
     show_nat (unat (se_offset e)) @ '':'' @ show_nat (unat (se_length e)) @ '':'' @
     show_int (index_i32 e) @ '':'' @ jump_to_str j @ '':'' @
     show_nat (unat (modifier_depth e))) (element_jump e)"

definition element_wf :: "SourceElement \<Rightarrow> bool" where
  "element_wf e \<longleftrightarrow> element_jump e \<noteq> None"

subsection \<open>The packed word\<close>

lemma pack_jump: "drop_bit 30 (push_bit 30 (jump_to_int j) OR d) = jump_to_int j"
  if "unat d < 2 ^ 30" for d :: "32 word"
proof -
  have "drop_bit 30 d = 0"
    using that by (simp add: drop_bit_eq_div word_unat_eq_iff unat_div)
  moreover have "drop_bit 30 (push_bit 30 (jump_to_int j)) = jump_to_int j"
    by (cases j) simp_all
  ultimately show ?thesis by (simp add: drop_bit_or)
qed

lemma push_drop_two: "drop_bit 2 (push_bit 2 w) = take_bit 30 w" for w :: "32 word"
  by (rule bit_eqI) (auto simp: bit_simps)

lemma pack_depth: "drop_bit 2 (push_bit 2 (push_bit 30 (jump_to_int j) OR d)) = d"
  if "unat d < 2 ^ 30" for d :: "32 word"
proof -
  have "take_bit 30 d = d"
    using that by (simp add: take_bit_eq_mod word_unat_eq_iff unat_mod)
  moreover have "take_bit 30 (push_bit 30 w) = 0" for w :: "32 word"
    by (rule bit_eqI) (auto simp: bit_simps)
  ultimately show ?thesis by (simp add: push_drop_two take_bit_or)
qed

lemma unpack: "push_bit 30 (drop_bit 30 w) OR drop_bit 2 (push_bit 2 w) = w" for w :: "32 word"
  unfolding push_drop_two by (rule bit_eqI) (auto simp: bit_simps)

lemma modifier_depth_bound: "unat (modifier_depth e) < 2 ^ 30"
proof -
  have "unat (take_bit 30 w) < 2 ^ 30" for w :: "32 word"
    by (simp add: take_bit_eq_mod unat_mod)
  then show ?thesis by (simp add: modifier_depth_def push_drop_two)
qed

lemma jump_from_to_int [simp]: "jump_from_int (jump_to_int j) = Some j"
  by (cases j) (simp_all add: jump_from_int_def)

lemma jump_from_int_Some: "jump_from_int w = Some j \<longleftrightarrow> w = jump_to_int j"
  by (cases j) (auto simp: jump_from_int_def)

lemma jump_after_set:
  "unat d < 2 ^ 30 \<Longrightarrow> element_jump (set_jump_and_modifier_depth j d e) = Some j"
  using pack_jump [of d j] by (simp add: element_jump_def set_jump_and_modifier_depth_def)

lemma depth_after_set:
  "unat d < 2 ^ 30 \<Longrightarrow> modifier_depth (set_jump_and_modifier_depth j d e) = d"
  using pack_depth [of d j] by (simp add: modifier_depth_def set_jump_and_modifier_depth_def)

lemma pack_own_fields:
  "element_jump e = Some j \<Longrightarrow>
   push_bit 30 (jump_to_int j) OR modifier_depth e = jump_and_modifier_depth e"
  unfolding element_jump_def modifier_depth_def jump_from_int_Some by (metis unpack)

lemma element_wf_new [wf_intros]: "element_wf source_element_new"
  by (simp add: element_wf_def element_jump_def source_element_new_def jump_from_int_def)

lemma element_wf_set_jump [wf_intros]: "element_wf (set_jump j e)"
  using modifier_depth_bound [of e] by (simp add: element_wf_def set_jump_def jump_after_set)

section \<open>The lexer\<close>

datatype Token = TNumber string | TSemicolon | TColon | TIn | TOut | TRegular

text \<open>\<open>Lexer::number\<close>: the digits up to the first other character or the end.\<close>

fun lex_number :: "string \<Rightarrow> string \<times> string" where
  "lex_number [] = ([], [])"
| "lex_number (c # s) =
     (if is_ascii_digit c then (let (ds, r) = lex_number s in (c # ds, r)) else ([], c # s))"

text \<open>
  \<open>Lexer::next\<close>: the lexer is its position and the rest of the input; the result is the item
  with the lexer after it.
\<close>

type_synonym lexer = "nat \<times> string"

definition lex_next :: "lexer \<Rightarrow> ((SyntaxError, Token \<times> nat) result \<times> lexer) option" where
  "lex_next l = (case l of (start, inp) \<Rightarrow> (case inp of
       [] \<Rightarrow> None
     | ch # s \<Rightarrow> Some (
         if ch = CHR '';'' then (Inr (TSemicolon, start), (start + 1, s))
         else if ch = CHR '':'' then (Inr (TColon, start), (start + 1, s))
         else if ch = CHR ''i'' then (Inr (TIn, start), (start + 1, s))
         else if ch = CHR ''o'' then (Inr (TOut, start), (start + 1, s))
         else if ch = CHR ''-'' then
           (case s of
              d # s' \<Rightarrow>
                if is_ascii_digit d then
                  (let (ds, r) = lex_number s'
                   in (Inr (TNumber (ch # d # ds), start), (start + 2 + length ds, r)))
                else (Inr (TRegular, start), (start + 1, s))
            | [] \<Rightarrow> (Inr (TRegular, start), (start + 1, s)))
         else if is_ascii_digit ch then
           (let (ds, r) = lex_number s
            in (Inr (TNumber (ch # ds), start), (start + 1 + length ds, r)))
         else (Inl (syntax_error (Some start) (''unexpected character: '' @ [ch])),
               (start + 1, s)))))"

lemma lex_number_length: "lex_number s = (ds, r) \<Longrightarrow> length s = length ds + length r"
  by (induction s arbitrary: ds r) (auto split: if_splits prod.splits)

lemma lex_next_shorter:
  assumes "lex_next (p, s) = Some (item, (p', s'))"
  shows "length s' < length s"
  using assms
  by (auto simp: lex_next_def split: list.splits if_splits prod.splits dest: lex_number_length)

lemma lex_next_None [simp]: "lex_next (p, s) = None \<longleftrightarrow> s = []"
  by (auto simp: lex_next_def split: list.splits)

lemma lex_next_Nil [simp]: "lex_next (p, []) = None"
  by simp

lemma lex_number_all:
  "\<forall>c \<in> set ds. is_ascii_digit c \<Longrightarrow> r = [] \<or> \<not> is_ascii_digit (hd r) \<Longrightarrow>
   lex_number (ds @ r) = (ds, r)"
proof (induction ds)
  case Nil
  then show ?case by (cases r) auto
qed simp

section \<open>The element builder\<close>

record SourceElementBuilder =
  b_offset :: "nat option"
  b_length :: "nat option"
  b_index :: "32 word option option"
  b_jump :: "Jump option"
  b_modifier_depth :: "nat option"

definition builder_default :: SourceElementBuilder where
  "builder_default = \<lparr>b_offset = None, b_length = None, b_index = None, b_jump = None,
                      b_modifier_depth = None\<rparr>"

definition set_jmp :: "Jump \<Rightarrow> nat \<Rightarrow> SourceElementBuilder
    \<Rightarrow> (SyntaxError, SourceElementBuilder) result" where
  "set_jmp jmp p b =
     (if b_jump b \<noteq> None then Inl (syntax_error (Some p) ''jump already set'')
      else Inr (b\<lparr>b_jump := Some jmp\<rparr>))"

definition set_offset :: "nat \<Rightarrow> nat \<Rightarrow> SourceElementBuilder
    \<Rightarrow> (SyntaxError, SourceElementBuilder) result" where
  "set_offset v p b =
     (if b_offset b \<noteq> None then Inl (syntax_error (Some p) ''offset already set'')
      else Inr (b\<lparr>b_offset := Some v\<rparr>))"

definition set_length :: "nat \<Rightarrow> nat \<Rightarrow> SourceElementBuilder
    \<Rightarrow> (SyntaxError, SourceElementBuilder) result" where
  "set_length v p b =
     (if b_length b \<noteq> None then Inl (syntax_error (Some p) ''length already set'')
      else Inr (b\<lparr>b_length := Some v\<rparr>))"

definition set_index :: "32 word option \<Rightarrow> nat \<Rightarrow> SourceElementBuilder
    \<Rightarrow> (SyntaxError, SourceElementBuilder) result" where
  "set_index v p b =
     (if b_index b \<noteq> None then Inl (syntax_error (Some p) ''index already set'')
      else Inr (b\<lparr>b_index := Some v\<rparr>))"

definition set_modifier :: "nat \<Rightarrow> nat \<Rightarrow> SourceElementBuilder
    \<Rightarrow> (SyntaxError, SourceElementBuilder) result" where
  "set_modifier v p b =
     (if b_modifier_depth b \<noteq> None then Inl (syntax_error (Some p) ''modifier depth already set'')
      else Inr (b\<lparr>b_modifier_depth := Some v\<rparr>))"

text \<open>
  \<open>SourceElementBuilder::finish\<close>: unset fields are those of the previous element.  The outer
  option is the panic of \<open>set_modifier_depth\<close>.
\<close>

definition u32_try_from :: "nat \<Rightarrow> (SyntaxError, 32 word) result" where
  "u32_try_from n = (if n < 2 ^ 32 then Inr (of_nat n) else Inl (syntax_error None ''offset overflow''))"

definition builder_finish :: "SourceElementBuilder \<Rightarrow> SourceElement option
    \<Rightarrow> (SyntaxError, SourceElement) result option" where
  "builder_finish b prev =
     (let e0 = (case prev of Some e \<Rightarrow> e | None \<Rightarrow> source_element_new);
          r1 = (case b_offset b of None \<Rightarrow> Inr e0
                | Some n \<Rightarrow> and_then (u32_try_from n) (\<lambda>w. Inr (e0\<lparr>se_offset := w\<rparr>)));
          r2 = and_then r1 (\<lambda>e. case b_length b of None \<Rightarrow> Inr e
                | Some n \<Rightarrow> and_then (u32_try_from n) (\<lambda>w. Inr (e\<lparr>se_length := w\<rparr>)))
      in case r2 of
           Inl err \<Rightarrow> Some (Inl err)
         | Inr e2 \<Rightarrow>
             (let e3 = (case b_index b of None \<Rightarrow> e2
                        | Some i \<Rightarrow> e2\<lparr>se_index := (case i of None \<Rightarrow> -1 | Some x \<Rightarrow> x)\<rparr>);
                  e4 = (case b_jump b of None \<Rightarrow> e3 | Some j \<Rightarrow> set_jump j e3)
              in case b_modifier_depth b of
                   None \<Rightarrow> Some (Inr e4)
                 | Some d \<Rightarrow> set_modifier_depth d e4))"

lemma element_wf_update:
  "element_wf (e\<lparr>se_offset := w\<rparr>) = element_wf e"
  "element_wf (e\<lparr>se_length := w\<rparr>) = element_wf e"
  "element_wf (e\<lparr>se_index := w\<rparr>) = element_wf e"
  by (simp_all add: element_wf_def element_jump_def)

lemma set_modifier_depth_wf:
  "element_wf e \<Longrightarrow> \<exists>r. set_modifier_depth d e = Some r \<and> (\<forall>e'. r = Inr e' \<longrightarrow> element_wf e')"
proof (cases "d > 2 ^ 30 - 1")
  case False
  assume "element_wf e"
  then obtain j where j: "element_jump e = Some j" by (auto simp: element_wf_def)
  have "unat (of_nat d :: 32 word) < 2 ^ 30"
    using False by (simp add: unat_of_nat)
  with False j show ?thesis
    by (simp add: set_modifier_depth_def element_wf_def jump_after_set)
qed (simp add: set_modifier_depth_def)

lemma builder_finish_wf:
  assumes "\<And>e. prev = Some e \<Longrightarrow> element_wf e"
  shows "\<exists>r. builder_finish b prev = Some r \<and> (\<forall>e'. r = Inr e' \<longrightarrow> element_wf e')"
proof -
  have e0: "element_wf (case prev of Some e \<Rightarrow> e | None \<Rightarrow> source_element_new)"
    using assms element_wf_new by (simp split: option.splits)
  show ?thesis
    unfolding builder_finish_def Let_def
    using e0
    by (auto simp: and_then_def element_wf_update element_wf_set_jump
        split: option.splits sum.splits intro!: set_modifier_depth_wf)
qed

section \<open>The parser\<close>

datatype State = StOffset | StLength | StIndex | StJmp | StModifier

fun state_advance :: "State \<Rightarrow> nat \<Rightarrow> (SyntaxError, State) result" where
  "state_advance StOffset p = Inr StLength"
| "state_advance StLength p = Inr StIndex"
| "state_advance StIndex p = Inr StJmp"
| "state_advance StJmp p = Inr StModifier"
| "state_advance StModifier p = Inl (syntax_error (Some p) ''unexpected colon'')"

text \<open>
  \<open>str::parse::<i64>\<close> on what the lexer hands it: an optional minus and at least one digit.
\<close>

definition parse_i64 :: "string \<Rightarrow> (string, int) result" where
  "parse_i64 s =
     (let neg = (s \<noteq> [] \<and> hd s = CHR ''-'');
          v = int (digits_value (if neg then tl s else s))
      in if neg then (if v \<le> 2 ^ 63 then Inr (- v) else Inl ''number too small to fit in target type'')
         else if v < 2 ^ 63 then Inr v else Inl ''number too large to fit in target type'')"

definition parse_number :: "string \<Rightarrow> nat \<Rightarrow> (SyntaxError, 32 word option) result" where
  "parse_number s p =
     (case parse_i64 s of
        Inl e \<Rightarrow> Inl (syntax_error (Some p) e)
      | Inr num \<Rightarrow>
          if num < -1 then Inl (syntax_error (Some p) ''unexpected negative number'')
          else if num = -1 then Inr None
          else if num < 2 ^ 32 then Inr (Some (of_int num))
          else Inl (syntax_error (Some p) ''number too large''))"

definition number_or_zero :: "32 word option \<Rightarrow> nat" where
  "number_or_zero n = (case n of None \<Rightarrow> 0 | Some w \<Rightarrow> unat w)"

fun take_number :: "State \<Rightarrow> string \<Rightarrow> nat \<Rightarrow> SourceElementBuilder
    \<Rightarrow> (SyntaxError, SourceElementBuilder) result" where
  "take_number StOffset num p b = and_then (parse_number num p) (\<lambda>n. set_offset (number_or_zero n) p b)"
| "take_number StLength num p b = and_then (parse_number num p) (\<lambda>n. set_length (number_or_zero n) p b)"
| "take_number StIndex num p b = and_then (parse_number num p) (\<lambda>n. set_index n p b)"
| "take_number StModifier num p b = and_then (parse_number num p) (\<lambda>n. set_modifier (number_or_zero n) p b)"
| "take_number StJmp num p b = Inl (syntax_error (Some p) ''expected jump, found number'')"

text \<open>
  One turn of the token loop of \<open>Parser::advance\<close> on a token other than \<open>;\<close>.
\<close>

fun token_step :: "State \<Rightarrow> SourceElementBuilder \<Rightarrow> Token \<Rightarrow> nat
    \<Rightarrow> (SyntaxError, State \<times> SourceElementBuilder) result" where
  "token_step st b (TNumber num) p = and_then (take_number st num p b) (\<lambda>b'. Inr (st, b'))"
| "token_step st b TColon p = and_then (state_advance st p) (\<lambda>st'. Inr (st', b))"
| "token_step st b TIn p = and_then (set_jmp JumpIn p b) (\<lambda>b'. Inr (st, b'))"
| "token_step st b TOut p = and_then (set_jmp JumpOut p b) (\<lambda>b'. Inr (st, b'))"
| "token_step st b TRegular p = and_then (set_jmp JumpRegular p b) (\<lambda>b'. Inr (st, b'))"
| "token_step st b TSemicolon p = Inr (st, b)"

text \<open>
  The loop: \<open>Inr None\<close> is \<open>return Ok(None)\<close>; otherwise it breaks with the builder, the lexer
  and the \<open>done\<close> flag.
\<close>

function token_loop :: "State \<Rightarrow> SourceElementBuilder \<Rightarrow> lexer \<Rightarrow> bool
    \<Rightarrow> (SyntaxError, (SourceElementBuilder \<times> lexer \<times> bool) option) result" where
  "token_loop st b l fin =
     (case lex_next l of
        None \<Rightarrow> if fin then Inr None else Inr (Some (b, l, True))
      | Some (Inl err, l') \<Rightarrow> Inl err
      | Some (Inr (token, p), l') \<Rightarrow>
          if token = TSemicolon then Inr (Some (b, l', fin))
          else case token_step st b token p of
                 Inl e \<Rightarrow> Inl e
               | Inr (st', b') \<Rightarrow> token_loop st' b' l' fin)"
  by pat_completeness auto
termination
  by (relation "measure (\<lambda>(st, b, l, fin). length (snd l))") (auto dest: lex_next_shorter)

declare token_loop.simps [simp del]

text \<open>\<open>Parser\<close>: the lexer, the last element and the \<open>done\<close> flag.\<close>

record Parser =
  p_lexer :: lexer
  p_last_element :: "SourceElement option"
  p_done :: bool

definition parser_new :: "string \<Rightarrow> Parser" where
  "parser_new inp = \<lparr>p_lexer = (0, inp), p_last_element = None, p_done = (inp = [])\<rparr>"

definition parser_advance :: "Parser
    \<Rightarrow> (SyntaxError, (SourceElement \<times> Parser) option) result option" where
  "parser_advance ps =
     (case token_loop StOffset builder_default (p_lexer ps) (p_done ps) of
        Inl e \<Rightarrow> Some (Inl e)
      | Inr None \<Rightarrow> Some (Inr None)
      | Inr (Some (b, l', fin)) \<Rightarrow>
          (case builder_finish b (p_last_element ps) of
             None \<Rightarrow> None
           | Some (Inl e) \<Rightarrow> Some (Inl e)
           | Some (Inr el) \<Rightarrow>
               Some (Inr (Some (el, \<lparr>p_lexer = l', p_last_element = Some el, p_done = fin\<rparr>)))))"

abbreviation semicolons :: "string \<Rightarrow> nat" where
  "semicolons s \<equiv> count_list s CHR '';''"

lemma digit_no_semicolon: "is_ascii_digit c \<Longrightarrow> c \<noteq> CHR '';''"
  by (auto simp: is_ascii_digit_def)

lemma lex_number_semicolons: "lex_number s = (ds, r) \<Longrightarrow> semicolons s = semicolons r"
  by (induction s arbitrary: ds r) (auto split: if_splits prod.splits simp: digit_no_semicolon)

lemma lex_next_semicolons:
  assumes "lex_next (p, s) = Some (Inr (t, q), (p', s'))"
  shows "semicolons s = (if t = TSemicolon then Suc (semicolons s') else semicolons s')"
  using assms
  by (auto simp: lex_next_def digit_no_semicolon split: list.splits if_splits prod.splits
      dest: lex_number_semicolons)

lemma token_loop_exit:
  "token_loop st b l fin = Inr res \<Longrightarrow>
     (case res of
        None \<Rightarrow> fin \<and> semicolons (snd l) = 0
      | Some (b', l', fin') \<Rightarrow>
          fin' = fin \<and> length (snd l') < length (snd l) \<and>
            semicolons (snd l) = Suc (semicolons (snd l'))
          \<or> \<not> fin \<and> fin' \<and> snd l' = [] \<and> semicolons (snd l) = 0)"
proof (induction st b l fin arbitrary: res rule: token_loop.induct)
  case (1 st b l fin)
  show ?case
  proof (cases "lex_next l")
    case None
    with "1.prems" show ?thesis
      by (subst (asm) token_loop.simps) (cases l, auto split: if_splits)
  next
    case (Some it)
    obtain item l1 where it: "it = (item, l1)" by (cases it)
    show ?thesis
    proof (cases item)
      case (Inl e)
      with "1.prems" Some it show ?thesis by (subst (asm) token_loop.simps) auto
    next
      case (Inr tp)
      obtain t p where tp: "tp = (t, p)" by (cases tp)
      have short: "length (snd l1) < length (snd l)"
        using Some it lex_next_shorter by (cases l, cases l1) auto
      have cnt: "semicolons (snd l) = (if t = TSemicolon then Suc (semicolons (snd l1)) else semicolons (snd l1))"
        using Some it Inr tp lex_next_semicolons by (cases l, cases l1) auto
      note eq = "1.prems" [unfolded token_loop.simps [of st b l fin] Some it Inr tp, simplified]
      show ?thesis
      proof (cases "t = TSemicolon")
        case True
        with eq short cnt show ?thesis by auto
      next
        case False
        with eq obtain st' b2 where step: "token_step st b t p = Inr (st', b2)"
          and rec: "token_loop st' b2 l1 fin = Inr res"
          by (auto split: sum.splits)
        from "1.IH" [OF Some it [symmetric] Inr tp [symmetric] False step refl rec] short cnt False
        show ?thesis by (auto split: option.splits)
      qed
    qed
  qed
qed

lemmas token_loop_break = token_loop_exit [of _ _ _ _ "Some (b', l', fin')" for b' l' fin', simplified]
lemmas token_loop_return = token_loop_exit [of _ _ _ _ None, simplified]

text \<open>\<open>Parser::new(input).collect::<Result<_, _>>()\<close>, which \<open>parse\<close> returns.\<close>

function collect_elements :: "Parser \<Rightarrow> (SyntaxError, SourceElement list) result option" where
  "collect_elements ps =
     (case parser_advance ps of
        None \<Rightarrow> None
      | Some (Inl e) \<Rightarrow> Some (Inl e)
      | Some (Inr None) \<Rightarrow> Some (Inr [])
      | Some (Inr (Some (el, ps'))) \<Rightarrow>
          map_option (\<lambda>r. and_then r (\<lambda>es. Inr (el # es))) (collect_elements ps'))"
  by pat_completeness auto
termination
proof (relation "measure (\<lambda>ps. length (snd (p_lexer ps)) + (if p_done ps then 0 else 1))", goal_cases)
  case (2 ps a r x el ps')
  then show ?case
    by (auto simp: parser_advance_def split: sum.splits option.splits dest!: token_loop_break)
qed simp

declare collect_elements.simps [simp del]

definition sourcemap_parse :: "string \<Rightarrow> (SyntaxError, SourceElement list) result option" where
  "sourcemap_parse inp = collect_elements (parser_new inp)"

subsection \<open>What every parse keeps\<close>

definition parser_inv :: "Parser \<Rightarrow> bool" where
  "parser_inv ps \<longleftrightarrow> (\<forall>e. p_last_element ps = Some e \<longrightarrow> element_wf e) \<and>
                    (p_done ps \<longrightarrow> snd (p_lexer ps) = [])"

lemma parser_inv_new [wf_intros]: "parser_inv (parser_new inp)"
  by (simp add: parser_inv_def parser_new_def)

definition elements_left :: "Parser \<Rightarrow> nat" where
  "elements_left ps = (if p_done ps then 0 else Suc (semicolons (snd (p_lexer ps))))"

lemma parser_advance_inv:
  assumes "parser_inv ps"
  shows "\<exists>r. parser_advance ps = Some r \<and>
    (case r of Inl _ \<Rightarrow> True
     | Inr None \<Rightarrow> elements_left ps = 0
     | Inr (Some (el, ps')) \<Rightarrow> element_wf el \<and> parser_inv ps' \<and>
         elements_left ps = Suc (elements_left ps'))"
proof (cases "token_loop StOffset builder_default (p_lexer ps) (p_done ps)")
  case (Inl e)
  then show ?thesis by (simp add: parser_advance_def)
next
  case (Inr res)
  show ?thesis
  proof (cases res)
    case None
    with Inr have "p_done ps" using token_loop_return by blast
    then have "elements_left ps = 0" by (simp add: elements_left_def)
    moreover have "parser_advance ps = Some (Inr None)"
      using Inr None by (simp add: parser_advance_def)
    ultimately show ?thesis by simp
  next
    case (Some brk)
    obtain b l' fin where brk: "brk = (b, l', fin)" by (cases brk)
    obtain r where r: "builder_finish b (p_last_element ps) = Some r"
      and rwf: "\<And>e. r = Inr e \<Longrightarrow> element_wf e"
      using builder_finish_wf [of "p_last_element ps" b] assms by (auto simp: parser_inv_def)
    show ?thesis
    proof (cases r)
      case (Inl e)
      then show ?thesis by (simp add: parser_advance_def Inr Some brk r)
    next
      case right: (Inr el)
      have "elements_left ps = Suc (elements_left \<lparr>p_lexer = l', p_last_element = Some el, p_done = fin\<rparr>)
            \<and> (fin \<longrightarrow> snd l' = [])"
        using token_loop_break [OF Inr [unfolded Some brk]] assms
        by (auto simp: elements_left_def parser_inv_def)
      with right rwf show ?thesis
        by (simp add: parser_advance_def Inr Some brk r parser_inv_def)
    qed
  qed
qed

lemma collect_elements_inv:
  "parser_inv ps \<Longrightarrow> \<exists>r. collect_elements ps = Some r \<and>
     (\<forall>es. r = Inr es \<longrightarrow> list_all element_wf es \<and> length es = elements_left ps)"
proof (induction ps rule: collect_elements.induct)
  case (1 ps)
  obtain r where r: "parser_advance ps = Some r" and spec: "case r of Inl _ \<Rightarrow> True
     | Inr None \<Rightarrow> elements_left ps = 0
     | Inr (Some (el, ps')) \<Rightarrow> element_wf el \<and> parser_inv ps' \<and>
         elements_left ps = Suc (elements_left ps')"
    using parser_advance_inv [OF "1.prems"] by blast
  show ?case
  proof (cases r)
    case (Inl e)
    then show ?thesis by (simp add: collect_elements.simps [of ps] r)
  next
    case (Inr o1)
    show ?thesis
    proof (cases o1)
      case None
      with Inr spec show ?thesis by (simp add: collect_elements.simps [of ps] r)
    next
      case (Some p)
      obtain el ps' where p: "p = (el, ps')" by (cases p)
      with spec Inr Some have inv: "element_wf el" "parser_inv ps'" "elements_left ps = Suc (elements_left ps')"
        by simp_all
      from "1.IH" [OF r Inr Some p [symmetric] inv(2)] obtain r' where
        "collect_elements ps' = Some r'" and
        "\<forall>es. r' = Inr es \<longrightarrow> list_all element_wf es \<and> length es = elements_left ps'" by blast
      with inv show ?thesis
        by (auto simp: collect_elements.simps [of ps] r Inr Some p and_then_Inr_iff)
    qed
  qed
qed

subsection \<open>Reading back what \<open>Display\<close> writes\<close>

definition ends_token :: "string \<Rightarrow> bool" where
  "ends_token r \<longleftrightarrow> r = [] \<or> \<not> is_ascii_digit (hd r)"

lemma ends_token_simps [simp]:
  "ends_token []" "ends_token (CHR '':'' # r)" "ends_token (CHR '';'' # r)"
  by (simp_all add: ends_token_def is_ascii_digit_def)

lemma digit_not_punct:
  "is_ascii_digit c \<Longrightarrow> c \<noteq> CHR '';'' \<and> c \<noteq> CHR '':'' \<and> c \<noteq> CHR ''i'' \<and> c \<noteq> CHR ''o'' \<and> c \<noteq> CHR ''-''"
  by (auto simp: is_ascii_digit_def)

lemma lex_next_show_nat:
  assumes "ends_token r"
  shows "lex_next (p, show_nat n @ r) =
    Some (Inr (TNumber (show_nat n), p), (p + length (show_nat n), r))"
proof -
  obtain c ds where cd: "show_nat n = c # ds" by (cases "show_nat n") auto
  have dig: "is_ascii_digit c" "\<forall>x \<in> set ds. is_ascii_digit x"
    using show_nat_digits [of n] cd by auto
  have "lex_number (ds @ r) = (ds, r)"
    using dig assms by (intro lex_number_all) (auto simp: ends_token_def)
  with dig digit_not_punct [OF dig(1)] show ?thesis
    by (simp add: lex_next_def cd)
qed

lemma parse_number_show_nat: "n < 2 ^ 32 \<Longrightarrow> parse_number (show_nat n) p = Inr (Some (of_nat n))"
proof -
  assume n: "n < 2 ^ 32"
  obtain c ds where cd: "show_nat n = c # ds" by (cases "show_nat n") auto
  have "is_ascii_digit c" using show_nat_digits [of n] cd by auto
  then have "\<not> (show_nat n \<noteq> [] \<and> hd (show_nat n) = CHR ''-'')"
    by (simp add: cd digit_not_punct)
  then have "parse_i64 (show_nat n) = Inr (int n)"
    using n by (simp add: parse_i64_def Let_def)
  with n show ?thesis by (simp add: parse_number_def)
qed

lemma loop_number:
  "ends_token r \<Longrightarrow> take_number st (show_nat n) p b = Inr b' \<Longrightarrow>
   token_loop st b (p, show_nat n @ r) fin = token_loop st b' (p + length (show_nat n), r) fin"
  by (subst token_loop.simps) (simp add: lex_next_show_nat)

lemma loop_colon:
  "state_advance st p = Inr st' \<Longrightarrow>
   token_loop st b (p, CHR '':'' # r) fin = token_loop st' b (Suc p, r) fin"
  by (subst token_loop.simps) (simp add: lex_next_def)

lemma loop_jump:
  assumes "r = [] \<or> hd r = CHR '':''" and "set_jmp j p b = Inr b'"
  shows "token_loop st b (p, jump_to_str j @ r) fin = token_loop st b' (Suc p, r) fin"
proof -
  have "r = [] \<or> \<not> is_ascii_digit (hd r)"
    using assms(1) by (auto simp: is_ascii_digit_def)
  then have "case r of [] \<Rightarrow> True | d # _ \<Rightarrow> \<not> is_ascii_digit d"
    by (auto split: list.splits)
  with assms(2) show ?thesis
    by (subst token_loop.simps) (cases j, auto simp: lex_next_def split: list.splits)
qed

lemma lex_next_minus_one:
  "ends_token r \<Longrightarrow> lex_next (p, ''-1'' @ r) = Some (Inr (TNumber ''-1'', p), (p + 2, r))"
  using lex_number_all [of "[]" r] by (simp add: lex_next_def is_ascii_digit_def ends_token_def)

lemma show_nat_one: "show_nat (Suc 0) = ''1''"
  by code_simp

lemma unat_u32: "unat w < 2 ^ 32" for w :: "32 word"
  using unsigned_less [of w, where ?'a = nat] by simp

lemma parse_number_minus_one: "parse_number ''-1'' p = Inr None"
  by (simp add: parse_number_def parse_i64_def digits_value_def digit_value_def)

text \<open>An \<open>i32\<close> index at least \<open>-1\<close> reads back, \<open>-1\<close> as no index.\<close>

lemma loop_index_value:
  assumes "sint w \<ge> -1" and "ends_token r" and "b_index b = None"
  shows "token_loop StIndex b (p, show_int (sint w) @ r) fin =
    token_loop StIndex (b\<lparr>b_index := Some (if w = -1 then None else Some w)\<rparr>)
      (p + length (show_int (sint w)), r) fin"
proof (cases "sint w = -1")
  case True
  then have "w = -1" by (metis sint_n1 signed_word_eqI)
  moreover have one: "show_int (- 1) = ''-1''"
    by (simp add: show_int_def show_nat_one)
  have "token_loop StIndex b (p, ''-1'' @ r) fin =
      token_loop StIndex (b\<lparr>b_index := Some None\<rparr>) (p + 2, r) fin"
    by (subst token_loop.simps)
      (simp only: lex_next_minus_one [OF assms(2)], simp add: parse_number_minus_one set_index_def assms(3))
  ultimately show ?thesis by (simp add: one)
next
  case False
  with assms(1) have nn: "sint w \<ge> 0" by simp
  have "uint w = sint w"
    unfolding uint_sint [of w] using nn sint_lt [of w] by (intro take_bit_int_eq_self) simp_all
  then have u: "sint w = int (unat w)" by simp
  have small: "unat w < 2 ^ 32" by (rule unat_u32)
  have "token_loop StIndex b (p, show_nat (unat w) @ r) fin =
      token_loop StIndex (b\<lparr>b_index := Some (Some w)\<rparr>) (p + length (show_nat (unat w)), r) fin"
    using small by (intro loop_number assms(2)) (simp add: parse_number_show_nat set_index_def assms(3))
  with u nn False show ?thesis by (auto simp: show_int_def)
qed

definition element_printable :: "SourceElement \<Rightarrow> bool" where
  "element_printable e \<longleftrightarrow> element_wf e \<and> index_i32 e \<ge> -1"

definition full_builder :: "SourceElement \<Rightarrow> Jump \<Rightarrow> 32 word option \<Rightarrow> SourceElementBuilder" where
  "full_builder e j i = \<lparr>b_offset = Some (unat (se_offset e)), b_length = Some (unat (se_length e)),
     b_index = Some i, b_jump = Some j, b_modifier_depth = Some (unat (modifier_depth e))\<rparr>"

lemma loop_display:
  assumes e: "element_display e = Some s" and i: "index_i32 e \<ge> -1" and r: "r = [] \<or> hd r = CHR '';''"
  shows "\<exists>j i. element_jump e = Some j \<and> (case i of None \<Rightarrow> -1 | Some x \<Rightarrow> x) = se_index e \<and>
     token_loop StOffset builder_default (p, s @ r) fin =
     token_loop StModifier (full_builder e j i) (p + length s, r) fin"
proof -
  obtain j where j: "element_jump e = Some j"
    using e by (auto simp: element_display_def)
  let ?o = "show_nat (unat (se_offset e))" and ?l = "show_nat (unat (se_length e))"
    and ?x = "show_int (sint (se_index e))" and ?d = "show_nat (unat (modifier_depth e))"
  have s: "s = ?o @ '':'' @ ?l @ '':'' @ ?x @ '':'' @ jump_to_str j @ '':'' @ ?d"
    using e j by (auto simp: element_display_def index_i32_def)
  have er: "ends_token r" using r by (cases r) auto
  define b1 where "b1 = builder_default\<lparr>b_offset := Some (unat (se_offset e))\<rparr>"
  define b2 where "b2 = b1\<lparr>b_length := Some (unat (se_length e))\<rparr>"
  have t1: "take_number StOffset ?o q builder_default = Inr b1" for q
    by (simp add: parse_number_show_nat [OF unat_u32] set_offset_def builder_default_def b1_def number_or_zero_def)
  have t2: "take_number StLength ?l q b1 = Inr b2" for q
    by (simp add: parse_number_show_nat [OF unat_u32] set_length_def builder_default_def b1_def b2_def number_or_zero_def)
  define r5 where "r5 = ?d @ r"
  define r4 where "r4 = CHR '':'' # r5"
  define r3 where "r3 = CHR '':'' # jump_to_str j @ r4"
  obtain i where iw: "(case i of None \<Rightarrow> -1 | Some x \<Rightarrow> x) = se_index e" and
    ix: "\<And>q. token_loop StIndex b2 (q, ?x @ r3) fin =
      token_loop StIndex (b2\<lparr>b_index := Some i\<rparr>) (q + length ?x, r3) fin"
  proof -
    define iv where "iv = (if se_index e = -1 then None else Some (se_index e))"
    have "token_loop StIndex b2 (q, ?x @ r3) fin =
        token_loop StIndex (b2\<lparr>b_index := Some iv\<rparr>) (q + length ?x, r3) fin" for q
      using loop_index_value [of "se_index e" r3 b2 q fin] assms(2)
      by (simp add: iv_def index_i32_def r3_def b2_def b1_def builder_default_def)
    then show ?thesis by (intro that [of iv]) (simp_all add: iv_def)
  qed
  define b3 where "b3 = b2\<lparr>b_index := Some i\<rparr>"
  define b4 where "b4 = b3\<lparr>b_jump := Some j\<rparr>"
  have t4: "set_jmp j q b3 = Inr b4" for q
    by (simp add: set_jmp_def b3_def b2_def b1_def b4_def builder_default_def)
  have t5: "take_number StModifier ?d q b4 = Inr (full_builder e j i)" for q
    by (simp add: parse_number_show_nat [OF unat_u32] set_modifier_def builder_default_def b1_def b2_def
        b3_def b4_def number_or_zero_def full_builder_def)
  have "token_loop StOffset builder_default (p, s @ r) fin =
      token_loop StOffset builder_default (p, ?o @ CHR '':'' # ?l @ CHR '':'' # ?x @ r3) fin"
    by (simp add: s r3_def r4_def r5_def)
  also have "\<dots> = token_loop StIndex b3 (Suc (Suc (p + length ?o) + length ?l) + length ?x, r3) fin"
    by (simp add: loop_number [OF _ t1] loop_number [OF _ t2] loop_colon ix b3_def)
  also have "\<dots> = token_loop StModifier (full_builder e j i)
      (Suc (Suc (Suc (Suc (p + length ?o) + length ?l) + length ?x) + 1) + length ?d, r) fin"
    by (simp add: r3_def r4_def loop_colon loop_jump [OF _ t4] r5_def loop_number [OF er t5])
  also have "Suc (Suc (Suc (Suc (p + length ?o) + length ?l) + length ?x) + 1) + length ?d = p + length s"
    by (cases j) (simp_all add: s)
  finally show ?thesis using j iw by blast
qed

lemma loop_at_end: "token_loop st b (p, []) False = Inr (Some (b, (p, []), True))"
  by (subst token_loop.simps) simp

lemma loop_at_semicolon:
  "token_loop st b (p, CHR '';'' # r) fin = Inr (Some (b, (Suc p, r), fin))"
  by (subst token_loop.simps) (simp add: lex_next_def)

lemma finish_full_builder:
  assumes j: "element_jump e = Some j" and i: "(case i of None \<Rightarrow> -1 | Some x \<Rightarrow> x) = se_index e"
  shows "builder_finish (full_builder e j i) prev = Some (Inr e)"
proof -
  define e3 where "e3 = (case prev of Some x \<Rightarrow> x | None \<Rightarrow> source_element_new)
     \<lparr>se_offset := se_offset e, se_length := se_length e, se_index := se_index e\<rparr>"
  have bound: "\<not> unat (modifier_depth e) > 2 ^ 30 - 1"
    using modifier_depth_bound [of e] by simp
  have ej: "element_jump (set_jump j e3) = Some j"
    using modifier_depth_bound [of e3] by (simp add: set_jump_def jump_after_set)
  have "builder_finish (full_builder e j i) prev =
      set_modifier_depth (unat (modifier_depth e)) (set_jump j e3)"
    using unat_u32 [of "se_offset e"] unat_u32 [of "se_length e"]
    by (simp add: builder_finish_def full_builder_def u32_try_from_def e3_def i split: option.split)
  also have "\<dots> = Some (Inr (set_jump_and_modifier_depth j (modifier_depth e) (set_jump j e3)))"
    using bound ej by (simp add: set_modifier_depth_def)
  also have "set_jump_and_modifier_depth j (modifier_depth e) (set_jump j e3) = e"
    using pack_own_fields [OF j]
    by (simp add: set_jump_and_modifier_depth_def set_jump_def e3_def split: option.split)
  finally show ?thesis .
qed

lemma advance_display:
  assumes "element_display e = Some s" and "index_i32 e \<ge> -1"
  shows "\<exists>q. parser_advance \<lparr>p_lexer = (p, s), p_last_element = prev, p_done = False\<rparr> =
      Some (Inr (Some (e, \<lparr>p_lexer = (q, []), p_last_element = Some e, p_done = True\<rparr>)))"
    and "\<exists>q. parser_advance \<lparr>p_lexer = (p, s @ CHR '';'' # r), p_last_element = prev, p_done = False\<rparr> =
      Some (Inr (Some (e, \<lparr>p_lexer = (q, r), p_last_element = Some e, p_done = False\<rparr>)))"
  using loop_display [OF assms, of "[]" p False] loop_display [OF assms, of "CHR '';'' # r" p False]
  by (auto simp: parser_advance_def loop_at_end loop_at_semicolon finish_full_builder)

lemma collect_done: "collect_elements \<lparr>p_lexer = (q, []), p_last_element = e, p_done = True\<rparr> = Some (Inr [])"
  by (subst collect_elements.simps) (simp add: parser_advance_def token_loop.simps)

lemma collect_display:
  "list_all2 (\<lambda>e s. element_display e = Some s \<and> index_i32 e \<ge> -1) es ss \<Longrightarrow> es \<noteq> [] \<Longrightarrow>
   collect_elements \<lparr>p_lexer = (p, join_with '';'' ss), p_last_element = prev, p_done = False\<rparr> =
   Some (Inr es)"
proof (induction es ss arbitrary: p prev rule: list_all2_induct)
  case (Cons e es s ss)
  show ?case
  proof (cases es)
    case Nil
    with Cons.hyps have "ss = []" by simp
    with Nil advance_display(1) [of e s p prev] Cons.hyps show ?thesis
      by (subst collect_elements.simps) (auto simp: collect_done)
  next
    case (Cons e2 es2)
    with Cons.hyps obtain s2 ss2 where ss: "ss = s2 # ss2" by (cases ss) auto
    have ih: "\<And>q. collect_elements \<lparr>p_lexer = (q, join_with '';'' ss), p_last_element = Some e, p_done = False\<rparr>
        = Some (Inr es)"
      using Cons.IH Cons by simp
    have eq: "join_with '';'' (s # ss) = s @ CHR '';'' # join_with '';'' ss"
      by (simp add: ss)
    from advance_display(2) [of e s p "join_with '';'' ss" prev] Cons.hyps ih show ?thesis
      by (subst collect_elements.simps) (auto simp: eq simp del: join_with.simps)
  qed
qed simp

lemma element_display_nonempty: "element_display e = Some s \<Longrightarrow> s \<noteq> []"
  by (auto simp: element_display_def)

section \<open>Properties\<close>

text \<open>
  C12: a source map read back from its own uncompressed text is the source map: writing every
  element with \<open>Display\<close>, joining with semicolons and parsing returns the same elements, for
  every nonempty map whose elements hold a valid jump and no index below \<open>-1\<close>.
\<close>

theorem sourcemap_roundtrip:
  assumes "list_all element_printable es" and "es \<noteq> []"
  shows "sourcemap_parse (join_with '';'' (map (\<lambda>e. the (element_display e)) es)) = Some (Inr es)"
proof -
  let ?ss = "map (\<lambda>e. the (element_display e)) es"
  have all: "list_all2 (\<lambda>e s. element_display e = Some s \<and> index_i32 e \<ge> -1) es ?ss"
    using assms(1) by (induction es) (auto simp: element_printable_def element_wf_def element_display_def)
  obtain e es' where es: "es = e # es'" using assms(2) by (cases es) auto
  have "the (element_display e) \<noteq> []"
    using assms(1) es by (auto simp: element_printable_def element_wf_def element_display_def)
  then have "join_with '';'' ?ss \<noteq> []" by (cases es') (simp_all add: es)
  then show ?thesis
    using collect_display [OF all assms(2), of 0 None]
    by (simp add: sourcemap_parse_def parser_new_def)
qed

definition sample_elements :: "SourceElement list" where
  "sample_elements =
     [\<lparr>se_offset = 12, se_length = 3, se_index = -1, jump_and_modifier_depth = 0x40000002\<rparr>,
      \<lparr>se_offset = 0, se_length = 7, se_index = 2, jump_and_modifier_depth = 0x80000000\<rparr>]"

theorem sourcemap_roundtrip_witness:
  "sourcemap_parse (join_with '';'' (map (\<lambda>e. the (element_display e)) sample_elements)) =
   Some (Inr sample_elements)"
proof (rule sourcemap_roundtrip)
  show "list_all element_printable sample_elements"
    by (simp add: sample_elements_def element_printable_def element_wf_def element_jump_def
        jump_from_int_def index_i32_def)
  show "sample_elements \<noteq> []" by (simp add: sample_elements_def)
qed

text \<open>
  C25: parsing never panics and always returns, for every input; a successful parse has one
  element per semicolon-separated segment (none for the empty input), and in every element
  the packed word holds a valid jump, so \<open>jump()\<close> cannot reach \<open>unreachable!()\<close>.
\<close>

theorem sourcemap_parse_total:
  "case sourcemap_parse inp of
     None \<Rightarrow> False
   | Some (Inl err) \<Rightarrow> True
   | Some (Inr es) \<Rightarrow> list_all element_wf es \<and>
       length es = (if inp = [] then 0 else Suc (count_list inp CHR '';''))"
proof -
  obtain r where "sourcemap_parse inp = Some r" and
    "\<forall>es. r = Inr es \<longrightarrow> list_all element_wf es \<and> length es = elements_left (parser_new inp)"
    using collect_elements_inv [OF parser_inv_new] unfolding sourcemap_parse_def by blast
  then show ?thesis
    by (auto simp: elements_left_def parser_new_def split: sum.split)
qed

text \<open>
  C32: the packed field keeps its two halves apart: on every element with a valid jump, setting
  the jump changes only the jump and setting an in-range depth changes only the depth, and a
  depth of more than 30 bits is refused and nothing is written.
\<close>

theorem packed_fields_independent:
  assumes "element_wf e"
  shows "element_jump (set_jump j e) = Some j \<and> modifier_depth (set_jump j e) = modifier_depth e \<and>
     set_modifier_depth d e =
       Some (if d < 2 ^ 30
             then Inr (e\<lparr>jump_and_modifier_depth :=
                push_bit 30 (jump_to_int (the (element_jump e))) OR of_nat d\<rparr>)
             else Inl (syntax_error None ''modifier depth overflow'')) \<and>
     (\<forall>e'. set_modifier_depth d e = Some (Inr e') \<longrightarrow>
        element_jump e' = element_jump e \<and> unat (modifier_depth e') = d)"
proof -
  obtain j0 where j0: "element_jump e = Some j0" using assms by (auto simp: element_wf_def)
  have ud: "unat (of_nat d :: 32 word) = d" if "d < 2 ^ 30"
    using that by (simp add: unat_of_nat)
  have range: "\<not> d > 2 ^ 30 - 1 \<longleftrightarrow> d < 2 ^ 30" by auto
  have "element_jump e' = element_jump e \<and> unat (modifier_depth e') = d"
    if "set_modifier_depth d e = Some (Inr e')" for e'
  proof -
    from that have d: "d < 2 ^ 30" and e': "e' = set_jump_and_modifier_depth j0 (of_nat d) e"
      using j0 range by (auto simp: set_modifier_depth_def split: if_splits)
    have lt: "unat (of_nat d :: 32 word) < 2 ^ 30" using d by (simp only: ud [OF d])
    show ?thesis unfolding e' jump_after_set [OF lt] depth_after_set [OF lt] using j0 ud [OF d] by simp
  qed
  moreover have "set_modifier_depth d e =
       Some (if d < 2 ^ 30
             then Inr (e\<lparr>jump_and_modifier_depth := push_bit 30 (jump_to_int j0) OR of_nat d\<rparr>)
             else Inl (syntax_error None ''modifier depth overflow''))"
    using j0 range by (simp add: set_modifier_depth_def set_jump_and_modifier_depth_def)
  ultimately show ?thesis
    using modifier_depth_bound [of e] j0
    by (simp add: set_jump_def jump_after_set depth_after_set)
qed

theorem packed_fields_independent_witness:
  "element_jump (set_jump JumpOut source_element_new) = Some JumpOut \<and>
   set_modifier_depth (2 ^ 30) source_element_new =
     Some (Inl (syntax_error None ''modifier depth overflow''))"
  using packed_fields_independent [OF element_wf_new, of JumpOut "2 ^ 30"] by simp

text \<open>
  An index that fits 32 bits but not an \<open>i32\<close> is accepted; \<open>4294967295\<close> is then read as the
  index \<open>-1\<close>, that is as no source at all.
\<close>

lemma sourcemap_index_wraps:
  "parse_number (show_nat 4294967295) p = Inr (Some (-1)) \<and>
   builder_finish (builder_default\<lparr>b_index := Some (Some (-1))\<rparr>) None = Some (Inr source_element_new) \<and>
   element_index source_element_new = None"
  using parse_number_show_nat [of 4294967295 p]
  by (simp add: builder_finish_def builder_default_def source_element_new_def element_index_def)

end
