(* ===== verification/Request_Queue.thy ===== *)
theory Request_Queue
  imports Prelude
begin

text \<open>
  \<open>crates/wallets/src/wallet_browser/queue.rs\<close>: the queue of pending requests and the map of
  responses.  \<open>VecDeque\<close> is a list with its front first, \<open>HashMap<Uuid, Res>\<close> a finite map;
  the trait \<open>HasId\<close> is the parameter \<open>idf\<close>.  The locale \<open>request_lane\<close> is the contract
  the wallet state relies on, and its client lemmas are about the two composite operations of
  \<open>state.rs\<close>: answering a request and failing all that are pending.
\<close>

record ('req, 'u, 'res) RequestQueue =
  requests :: "'req list"
  responses :: "'u \<rightharpoonup> 'res"

definition queue_new :: "('req, 'u, 'res) RequestQueue" where
  "queue_new = \<lparr>requests = [], responses = Map.empty\<rparr>"

definition add_request :: "'req \<Rightarrow> ('req, 'u, 'res) RequestQueue \<Rightarrow> ('req, 'u, 'res) RequestQueue" where
  "add_request r q = q\<lparr>requests := requests q @ [r]\<rparr>"

definition has_request :: "('req \<Rightarrow> 'u) \<Rightarrow> 'u \<Rightarrow> ('req, 'u, 'res) RequestQueue \<Rightarrow> bool" where
  "has_request idf i q = list_ex (\<lambda>r. idf r = i) (requests q)"

definition read_request :: "('req, 'u, 'res) RequestQueue \<Rightarrow> 'req option" where
  "read_request q = (case requests q of [] \<Rightarrow> None | r # _ \<Rightarrow> Some r)"

definition remove_request :: "('req \<Rightarrow> 'u) \<Rightarrow> 'u \<Rightarrow> ('req, 'u, 'res) RequestQueue
    \<Rightarrow> 'req option \<times> ('req, 'u, 'res) RequestQueue" where
  "remove_request idf i q =
     (case index_of (\<lambda>r. idf r = i) (requests q) of
        Some pos \<Rightarrow> (Some (requests q ! pos),
                     q\<lparr>requests := take pos (requests q) @ drop (Suc pos) (requests q)\<rparr>)
      | None \<Rightarrow> (None, q))"

definition add_response :: "'u \<Rightarrow> 'res \<Rightarrow> ('req, 'u, 'res) RequestQueue \<Rightarrow> ('req, 'u, 'res) RequestQueue" where
  "add_response i r q = q\<lparr>responses := (responses q)(i \<mapsto> r)\<rparr>"

definition get_response :: "'u \<Rightarrow> ('req, 'u, 'res) RequestQueue
    \<Rightarrow> 'res option \<times> ('req, 'u, 'res) RequestQueue" where
  "get_response i q = (responses q i, q\<lparr>responses := (responses q)(i := None)\<rparr>)"

definition drain_request_ids :: "('req \<Rightarrow> 'u) \<Rightarrow> ('req, 'u, 'res) RequestQueue
    \<Rightarrow> 'u list \<times> ('req, 'u, 'res) RequestQueue" where
  "drain_request_ids idf q = (map idf (requests q), q\<lparr>requests := []\<rparr>)"

section \<open>The contract\<close>

text \<open>
  \<open>pending\<close> is the queue of request ids and \<open>answered\<close> the responses not yet fetched.
\<close>

fun remove_first :: "'a \<Rightarrow> 'a list \<Rightarrow> 'a list" where
  "remove_first x [] = []"
| "remove_first x (y # ys) = (if x = y then ys else y # remove_first x ys)"

lemma remove_first_subset: "set (remove_first x ys) \<subseteq> set ys"
  by (induction ys) auto

lemma remove_first_other: "y \<noteq> x \<Longrightarrow> y \<in> set (remove_first x ys) \<longleftrightarrow> y \<in> set ys"
  by (induction ys) auto

lemma remove_first_distinct: "distinct ys \<Longrightarrow> distinct (remove_first x ys) \<and> x \<notin> set (remove_first x ys)"
proof (induction ys)
  case (Cons y ys)
  then show ?case using remove_first_subset [of x ys] by auto
qed simp

lemma remove_first_absent: "x \<notin> set ys \<Longrightarrow> remove_first x ys = ys"
  by (induction ys) auto

locale request_lane =
  fixes idf :: "'req \<Rightarrow> 'u"
    and fresh :: 'q
    and push_req :: "'req \<Rightarrow> 'q \<Rightarrow> 'q"
    and has_req :: "'u \<Rightarrow> 'q \<Rightarrow> bool"
    and drop_req :: "'u \<Rightarrow> 'q \<Rightarrow> 'req option \<times> 'q"
    and put_resp :: "'u \<Rightarrow> 'res \<Rightarrow> 'q \<Rightarrow> 'q"
    and take_resp :: "'u \<Rightarrow> 'q \<Rightarrow> 'res option \<times> 'q"
    and drain :: "'q \<Rightarrow> 'u list \<times> 'q"
    and pending :: "'q \<Rightarrow> 'u list"
    and answered :: "'q \<Rightarrow> 'u \<rightharpoonup> 'res"
  assumes fresh_pending: "pending fresh = []" and fresh_answered: "answered fresh = Map.empty"
    and push_pending: "pending (push_req r q) = pending q @ [idf r]"
    and push_answered: "answered (push_req r q) = answered q"
    and has_iff: "has_req i q \<longleftrightarrow> i \<in> set (pending q)"
    and drop_pending: "pending (snd (drop_req i q)) = remove_first i (pending q)"
    and drop_answered: "answered (snd (drop_req i q)) = answered q"
    and put_pending: "pending (put_resp i x q) = pending q"
    and put_answered: "answered (put_resp i x q) = (answered q)(i \<mapsto> x)"
    and take_value: "fst (take_resp i q) = answered q i"
    and take_pending: "pending (snd (take_resp i q)) = pending q"
    and take_answered: "answered (snd (take_resp i q)) = (answered q)(i := None)"
    and drain_ids: "fst (drain q) = pending q"
    and drain_pending: "pending (snd (drain q)) = []"
    and drain_answered: "answered (snd (drain q)) = answered q"
begin

text \<open>Answering: \<open>add_response\<close> then \<open>remove_request\<close>, under one lock.\<close>

definition answer :: "'u \<Rightarrow> 'res \<Rightarrow> 'q \<Rightarrow> 'q" where
  "answer i r q = snd (drop_req i (put_resp i r q))"

text \<open>Failing: drain, then answer every drained id with the response made for it.\<close>

definition fail_all :: "('u \<Rightarrow> 'res) \<Rightarrow> 'q \<Rightarrow> 'q" where
  "fail_all mk q = (case drain q of (ids, q') \<Rightarrow> fold (\<lambda>i. put_resp i (mk i)) ids q')"

lemma answer_pending: "pending (answer i r q) = remove_first i (pending q)"
  by (simp add: answer_def drop_pending put_pending)

lemma answer_answered: "answered (answer i r q) = (answered q)(i \<mapsto> r)"
  by (simp add: answer_def drop_answered put_answered)

lemma answer_then_take: "fst (take_resp i (answer i r q)) = Some r"
  by (simp add: take_value answer_answered)

lemma take_once: "fst (take_resp i (snd (take_resp i q))) = None"
  by (simp add: take_value take_answered)

lemma put_many_pending: "pending (fold (\<lambda>i. put_resp i (mk i)) ids q) = pending q"
  by (induction ids arbitrary: q) (simp_all add: put_pending)

lemma put_many_answered:
  "answered (fold (\<lambda>i. put_resp i (mk i)) ids q) i =
     (if i \<in> set ids then Some (mk i) else answered q i)"
  by (induction ids arbitrary: q) (auto simp: put_answered)

lemma fail_all_pending: "pending (fail_all mk q) = []"
  by (simp add: fail_all_def case_prod_beta put_many_pending drain_pending)

lemma fail_all_answered:
  "answered (fail_all mk q) i = (if i \<in> set (pending q) then Some (mk i) else answered q i)"
  by (simp add: fail_all_def case_prod_beta put_many_answered drain_answered drain_ids)

text \<open>A predicate on the stored responses that every stored response satisfies is kept.\<close>

definition responses_ok :: "('u \<Rightarrow> 'res \<Rightarrow> bool) \<Rightarrow> 'q \<Rightarrow> bool" where
  "responses_ok P q \<longleftrightarrow> (\<forall>i r. answered q i = Some r \<longrightarrow> P i r)"

lemma responses_ok_ops:
  "responses_ok P fresh"
  "responses_ok P q \<Longrightarrow> responses_ok P (push_req x q)"
  "responses_ok P q \<Longrightarrow> responses_ok P (snd (drop_req i q))"
  "responses_ok P q \<Longrightarrow> responses_ok P (snd (take_resp i q))"
  "responses_ok P q \<Longrightarrow> P i r \<Longrightarrow> responses_ok P (answer i r q)"
  "responses_ok P q \<Longrightarrow> (\<And>i. P i (mk i)) \<Longrightarrow> responses_ok P (fail_all mk q)"
  by (auto simp: responses_ok_def fresh_answered push_answered drop_answered take_answered
      answer_answered fail_all_answered split: if_splits)

end

section \<open>The queue keeps the contract\<close>

lemma index_of_remove:
  "index_of (\<lambda>r. idf r = i) xs = Some n \<Longrightarrow>
   map idf (take n xs @ drop (Suc n) xs) = remove_first i (map idf xs)"
  by (induction xs arbitrary: n) (auto split: if_splits)

lemma has_request_iff: "has_request idf i q \<longleftrightarrow> i \<in> idf ` set (requests q)"
  by (auto simp: has_request_def list_ex_iff)

lemma remove_request_pending:
  "map idf (requests (snd (remove_request idf i q))) = remove_first i (map idf (requests q))"
proof (cases "index_of (\<lambda>r. idf r = i) (requests q)")
  case None
  then have "i \<notin> set (map idf (requests q))"
    by (auto simp: index_of_None)
  with None show ?thesis by (simp add: remove_request_def remove_first_absent)
next
  case (Some n)
  with index_of_remove [OF Some] show ?thesis by (simp add: remove_request_def)
qed

lemma remove_request_responses: "responses (snd (remove_request idf i q)) = responses q"
  by (simp add: remove_request_def split: option.split)

lemma queue_request_lane:
  "request_lane idf queue_new add_request (has_request idf) (remove_request idf) add_response
     get_response (drain_request_ids idf) (\<lambda>q. map idf (requests q)) responses"
proof unfold_locales
  show "map idf (requests queue_new) = []" and "responses queue_new = Map.empty"
    by (simp_all add: queue_new_def)
  fix r q
  show "map idf (requests (add_request r q)) = map idf (requests q) @ [idf r]"
    and "responses (add_request r q) = responses q"
    by (simp_all add: add_request_def)
next
  fix i q
  show "has_request idf i q \<longleftrightarrow> i \<in> set (map idf (requests q))"
    by (simp add: has_request_iff)
  show "map idf (requests (snd (remove_request idf i q))) = remove_first i (map idf (requests q))"
    by (rule remove_request_pending)
  show "responses (snd (remove_request idf i q)) = responses q"
    by (rule remove_request_responses)
qed (simp_all add: add_response_def get_response_def drain_request_ids_def)

interpretation queue: request_lane idf queue_new add_request "has_request idf" "remove_request idf"
  add_response get_response "drain_request_ids idf" "\<lambda>q. map idf (requests q)" responses for idf
  by (rule queue_request_lane)

end
