(* ===== verification/Browser_Wallet.thy ===== *)
theory Browser_Wallet
  imports Request_Queue
begin

text \<open>
  \<open>crates/wallets/src/wallet_browser\<close>: the shared state of the browser wallet
  (\<open>state.rs\<close>, \<open>types.rs\<close>), the HTTP handlers (\<open>handlers.rs\<close>), the session gate
  (\<open>router.rs\<close>), and the outcome of the server's request loops (\<open>server.rs\<close>) and the signer's
  guards (\<open>signer.rs\<close>).  Addresses, hashes and ids are words of their width; the network's
  transaction payload, tempo's key authorizations and the cryptography over them are type
  variables and parameters.  Every operation here runs under one lock; the interleaving of the
  operations of one request with other tasks is the theory \<open>Wallet_Sessions\<close>.
\<close>

type_synonym uuid = "128 word"

section \<open>Types\<close>

datatype 'a BrowserApiResponse = ApiOk 'a | ApiError string

record 'n BrowserTransactionRequest =
  txr_id :: uuid
  txr_request :: 'n

record BrowserTransactionResponse =
  txs_id :: uuid
  txs_hash :: "b256 option"
  txs_error :: "string option"

datatype SignType = PersonalSign | SignTypedDataV4

record SignRequest =
  sr_message :: string
  sr_address :: address

record BrowserSignRequest =
  sgr_id :: uuid
  sgr_sign_type :: SignType
  sgr_request :: SignRequest

record BrowserSignResponse =
  sgs_id :: uuid
  sgs_signature :: "bytes option"
  sgs_error :: "string option"

record 'k BrowserKeyAuthorizationRequest =
  kar_id :: uuid
  kar_root_account :: address
  kar_key_authorization :: 'k
  kar_digest :: b256

record BrowserKeyAuthorizationResponse =
  kas_id :: uuid
  kas_signed_hex :: "string option"
  kas_error :: "string option"

record Connection =
  conn_address :: address
  conn_chain_id :: "64 word"

record SessionInfo =
  si_alive :: bool
  si_connected :: bool

datatype BrowserWalletError =
  Timeout string | Rejected string string | NotConnected | ServerError string

section \<open>\<open>BrowserWalletState\<close>\<close>

record ('n, 'k) BrowserWalletState =
  connection :: "Connection option"
  transactions :: "('n BrowserTransactionRequest, uuid, BrowserTransactionResponse) RequestQueue"
  signings :: "(BrowserSignRequest, uuid, BrowserSignResponse) RequestQueue"
  key_authorizations ::
    "('k BrowserKeyAuthorizationRequest, uuid, BrowserKeyAuthorizationResponse) RequestQueue"
  session_token :: string
  development :: bool
  shutting_down :: bool

definition wallet_state_new :: "string \<Rightarrow> bool \<Rightarrow> ('n, 'k) BrowserWalletState" where
  "wallet_state_new token dev =
     \<lparr>connection = None, transactions = queue_new, signings = queue_new,
      key_authorizations = queue_new, session_token = token, development = dev,
      shutting_down = False\<rparr>"

definition set_shutting_down :: "('n, 'k) BrowserWalletState \<Rightarrow> ('n, 'k) BrowserWalletState" where
  "set_shutting_down s = s\<lparr>shutting_down := True\<rparr>"

definition is_connected :: "('n, 'k) BrowserWalletState \<Rightarrow> bool" where
  "is_connected s \<longleftrightarrow> connection s \<noteq> None"

definition disconnected_tx :: "uuid \<Rightarrow> BrowserTransactionResponse" where
  "disconnected_tx i = \<lparr>txs_id = i, txs_hash = None, txs_error = Some ''Wallet disconnected''\<rparr>"

definition disconnected_sign :: "uuid \<Rightarrow> BrowserSignResponse" where
  "disconnected_sign i = \<lparr>sgs_id = i, sgs_signature = None, sgs_error = Some ''Wallet disconnected''\<rparr>"

definition disconnected_key :: "uuid \<Rightarrow> BrowserKeyAuthorizationResponse" where
  "disconnected_key i = \<lparr>kas_id = i, kas_signed_hex = None, kas_error = Some ''Wallet disconnected''\<rparr>"

text \<open>The three blocks of \<open>fail_pending_with_disconnect\<close>, each under its own lock.\<close>

definition fail_transactions :: "('n, 'k) BrowserWalletState \<Rightarrow> ('n, 'k) BrowserWalletState" where
  "fail_transactions s = s\<lparr>transactions :=
     (case drain_request_ids txr_id (transactions s) of
        (ids, q) \<Rightarrow> fold (\<lambda>i. add_response i (disconnected_tx i)) ids q)\<rparr>"

definition fail_signings :: "('n, 'k) BrowserWalletState \<Rightarrow> ('n, 'k) BrowserWalletState" where
  "fail_signings s = s\<lparr>signings :=
     (case drain_request_ids sgr_id (signings s) of
        (ids, q) \<Rightarrow> fold (\<lambda>i. add_response i (disconnected_sign i)) ids q)\<rparr>"

definition fail_key_authorizations :: "('n, 'k) BrowserWalletState \<Rightarrow> ('n, 'k) BrowserWalletState" where
  "fail_key_authorizations s = s\<lparr>key_authorizations :=
     (case drain_request_ids kar_id (key_authorizations s) of
        (ids, q) \<Rightarrow> fold (\<lambda>i. add_response i (disconnected_key i)) ids q)\<rparr>"

definition fail_pending_with_disconnect ::
    "('n, 'k) BrowserWalletState \<Rightarrow> ('n, 'k) BrowserWalletState" where
  "fail_pending_with_disconnect s = fail_key_authorizations (fail_signings (fail_transactions s))"

definition set_connection :: "Connection option \<Rightarrow> ('n, 'k) BrowserWalletState
    \<Rightarrow> ('n, 'k) BrowserWalletState" where
  "set_connection c s =
     (let s' = s\<lparr>connection := c\<rparr> in if c = None then fail_pending_with_disconnect s' else s')"

definition add_transaction_request :: "'n BrowserTransactionRequest \<Rightarrow> ('n, 'k) BrowserWalletState
    \<Rightarrow> ('n, 'k) BrowserWalletState" where
  "add_transaction_request r s = s\<lparr>transactions := add_request r (transactions s)\<rparr>"

definition has_transaction_request :: "uuid \<Rightarrow> ('n, 'k) BrowserWalletState \<Rightarrow> bool" where
  "has_transaction_request i s = has_request txr_id i (transactions s)"

definition read_next_transaction_request ::
    "('n, 'k) BrowserWalletState \<Rightarrow> 'n BrowserTransactionRequest option" where
  "read_next_transaction_request s = read_request (transactions s)"

definition remove_transaction_request :: "uuid \<Rightarrow> ('n, 'k) BrowserWalletState
    \<Rightarrow> ('n, 'k) BrowserWalletState" where
  "remove_transaction_request i s =
     s\<lparr>transactions := snd (remove_request txr_id i (transactions s))\<rparr>"

definition add_transaction_response :: "BrowserTransactionResponse \<Rightarrow> ('n, 'k) BrowserWalletState
    \<Rightarrow> ('n, 'k) BrowserWalletState" where
  "add_transaction_response r s =
     (let i = txs_id r; q = add_response i r (transactions s)
      in s\<lparr>transactions := snd (remove_request txr_id i q)\<rparr>)"

definition get_transaction_response :: "uuid \<Rightarrow> ('n, 'k) BrowserWalletState
    \<Rightarrow> BrowserTransactionResponse option \<times> ('n, 'k) BrowserWalletState" where
  "get_transaction_response i s =
     (case get_response i (transactions s) of (r, q) \<Rightarrow> (r, s\<lparr>transactions := q\<rparr>))"

definition add_signing_request :: "BrowserSignRequest \<Rightarrow> ('n, 'k) BrowserWalletState
    \<Rightarrow> ('n, 'k) BrowserWalletState" where
  "add_signing_request r s = s\<lparr>signings := add_request r (signings s)\<rparr>"

definition has_signing_request :: "uuid \<Rightarrow> ('n, 'k) BrowserWalletState \<Rightarrow> bool" where
  "has_signing_request i s = has_request sgr_id i (signings s)"

definition read_next_signing_request :: "('n, 'k) BrowserWalletState \<Rightarrow> BrowserSignRequest option" where
  "read_next_signing_request s = read_request (signings s)"

definition remove_signing_request :: "uuid \<Rightarrow> ('n, 'k) BrowserWalletState
    \<Rightarrow> ('n, 'k) BrowserWalletState" where
  "remove_signing_request i s = s\<lparr>signings := snd (remove_request sgr_id i (signings s))\<rparr>"

definition add_signing_response :: "BrowserSignResponse \<Rightarrow> ('n, 'k) BrowserWalletState
    \<Rightarrow> ('n, 'k) BrowserWalletState" where
  "add_signing_response r s =
     (let i = sgs_id r; q = add_response i r (signings s)
      in s\<lparr>signings := snd (remove_request sgr_id i q)\<rparr>)"

definition get_signing_response :: "uuid \<Rightarrow> ('n, 'k) BrowserWalletState
    \<Rightarrow> BrowserSignResponse option \<times> ('n, 'k) BrowserWalletState" where
  "get_signing_response i s =
     (case get_response i (signings s) of (r, q) \<Rightarrow> (r, s\<lparr>signings := q\<rparr>))"

definition add_key_authorization_request :: "'k BrowserKeyAuthorizationRequest
    \<Rightarrow> ('n, 'k) BrowserWalletState \<Rightarrow> ('n, 'k) BrowserWalletState" where
  "add_key_authorization_request r s =
     s\<lparr>key_authorizations := add_request r (key_authorizations s)\<rparr>"

definition has_key_authorization_request :: "uuid \<Rightarrow> ('n, 'k) BrowserWalletState \<Rightarrow> bool" where
  "has_key_authorization_request i s = has_request kar_id i (key_authorizations s)"

definition read_next_key_authorization_request ::
    "('n, 'k) BrowserWalletState \<Rightarrow> 'k BrowserKeyAuthorizationRequest option" where
  "read_next_key_authorization_request s = read_request (key_authorizations s)"

definition remove_key_authorization_request :: "uuid \<Rightarrow> ('n, 'k) BrowserWalletState
    \<Rightarrow> ('n, 'k) BrowserWalletState" where
  "remove_key_authorization_request i s =
     s\<lparr>key_authorizations := snd (remove_request kar_id i (key_authorizations s))\<rparr>"

definition add_key_authorization_response :: "BrowserKeyAuthorizationResponse
    \<Rightarrow> ('n, 'k) BrowserWalletState \<Rightarrow> ('n, 'k) BrowserWalletState" where
  "add_key_authorization_response r s =
     (let i = kas_id r; q = add_response i r (key_authorizations s)
      in s\<lparr>key_authorizations := snd (remove_request kar_id i q)\<rparr>)"

definition get_key_authorization_response :: "uuid \<Rightarrow> ('n, 'k) BrowserWalletState
    \<Rightarrow> BrowserKeyAuthorizationResponse option \<times> ('n, 'k) BrowserWalletState" where
  "get_key_authorization_response i s =
     (case get_response i (key_authorizations s) of (r, q) \<Rightarrow> (r, s\<lparr>key_authorizations := q\<rparr>))"

section \<open>Handlers\<close>

definition get_next_transaction_request ::
    "('n, 'k) BrowserWalletState \<Rightarrow> 'n BrowserTransactionRequest BrowserApiResponse" where
  "get_next_transaction_request s =
     (case read_next_transaction_request s of
        Some tx \<Rightarrow> ApiOk tx | None \<Rightarrow> ApiError ''No pending transaction request'')"

text \<open>
  The validation of a transaction response between the two locked operations of its handler;
  the length of a 32-byte hash is its type's.
\<close>

definition hash_byte_length :: "b256 \<Rightarrow> nat" where
  "hash_byte_length h = LENGTH(256) div 8"

definition check_transaction_body :: "BrowserTransactionResponse \<Rightarrow> string option" where
  "check_transaction_body body =
     (case (txs_hash body, txs_error body) of
        (None, None) \<Rightarrow> Some ''Either hash or error must be provided''
      | (Some _, Some _) \<Rightarrow> Some ''Only one of hash or error can be provided''
      | _ \<Rightarrow>
          (case txs_hash body of
             Some hash \<Rightarrow>
               if hash = 0 then Some ''Invalid (zero) transaction hash''
               else if hash_byte_length hash \<noteq> 32
                 then Some ''Malformed transaction hash (expected 32 bytes)''
               else None
           | None \<Rightarrow> None))"

definition post_transaction_response :: "BrowserTransactionResponse \<Rightarrow> ('n, 'k) BrowserWalletState
    \<Rightarrow> unit BrowserApiResponse \<times> ('n, 'k) BrowserWalletState" where
  "post_transaction_response body s =
     (if \<not> has_transaction_request (txs_id body) s then (ApiError ''Unknown transaction id'', s)
      else case check_transaction_body body of
             Some msg \<Rightarrow> (ApiError msg, s)
           | None \<Rightarrow> (ApiOk (), add_transaction_response body s))"

definition get_next_signing_request ::
    "('n, 'k) BrowserWalletState \<Rightarrow> BrowserSignRequest BrowserApiResponse" where
  "get_next_signing_request s =
     (case read_next_signing_request s of
        Some r \<Rightarrow> ApiOk r | None \<Rightarrow> ApiError ''No pending signing request'')"

definition check_signing_body :: "BrowserSignResponse \<Rightarrow> string option" where
  "check_signing_body body =
     (case (sgs_signature body, sgs_error body) of
        (None, None) \<Rightarrow> Some ''Either signature or error must be provided''
      | (Some _, Some _) \<Rightarrow> Some ''Only one of signature or error can be provided''
      | _ \<Rightarrow> None)"

definition post_signing_response :: "BrowserSignResponse \<Rightarrow> ('n, 'k) BrowserWalletState
    \<Rightarrow> unit BrowserApiResponse \<times> ('n, 'k) BrowserWalletState" where
  "post_signing_response body s =
     (if \<not> has_signing_request (sgs_id body) s then (ApiError ''Unknown signing request id'', s)
      else case check_signing_body body of
             Some msg \<Rightarrow> (ApiError msg, s)
           | None \<Rightarrow> (ApiOk (), add_signing_response body s))"

definition get_connection_info ::
    "('n, 'k) BrowserWalletState \<Rightarrow> Connection option BrowserApiResponse" where
  "get_connection_info s = ApiOk (connection s)"

definition post_connection_update :: "Connection option \<Rightarrow> ('n, 'k) BrowserWalletState
    \<Rightarrow> unit BrowserApiResponse \<times> ('n, 'k) BrowserWalletState" where
  "post_connection_update body s = (ApiOk (), set_connection body s)"

definition get_next_key_authorization_request ::
    "('n, 'k) BrowserWalletState \<Rightarrow> 'k BrowserKeyAuthorizationRequest BrowserApiResponse" where
  "get_next_key_authorization_request s =
     (case read_next_key_authorization_request s of
        Some r \<Rightarrow> ApiOk r | None \<Rightarrow> ApiError ''No pending key authorization request'')"

definition check_key_authorization_body :: "BrowserKeyAuthorizationResponse \<Rightarrow> string option" where
  "check_key_authorization_body body =
     (case (kas_signed_hex body, kas_error body) of
        (None, None) \<Rightarrow> Some ''Either signed_hex or error must be provided''
      | (Some _, Some _) \<Rightarrow> Some ''Only one of signed_hex or error can be provided''
      | _ \<Rightarrow> None)"

definition post_key_authorization_response :: "BrowserKeyAuthorizationResponse
    \<Rightarrow> ('n, 'k) BrowserWalletState \<Rightarrow> unit BrowserApiResponse \<times> ('n, 'k) BrowserWalletState" where
  "post_key_authorization_response body s =
     (if \<not> has_key_authorization_request (kas_id body) s
      then (ApiError ''Unknown key authorization id'', s)
      else case check_key_authorization_body body of
             Some msg \<Rightarrow> (ApiError msg, s)
           | None \<Rightarrow> (ApiOk (), add_key_authorization_response body s))"

definition get_session_info :: "('n, 'k) BrowserWalletState \<Rightarrow> SessionInfo BrowserApiResponse" where
  "get_session_info s = ApiOk \<lparr>si_alive = (\<not> shutting_down s), si_connected = is_connected s\<rparr>"

section \<open>The session gate and the routes\<close>

datatype http_method = GET | POST | OPTIONS | OtherMethod

text \<open>\<open>require_session_token\<close>: \<open>True\<close> runs the handler, \<open>False\<close> is \<open>403 FORBIDDEN\<close>;
  \<open>provided\<close> is the header as text, absent or unreadable being \<open>None\<close>.\<close>

definition require_session_token ::
    "('n, 'k) BrowserWalletState \<Rightarrow> http_method \<Rightarrow> string option \<Rightarrow> bool" where
  "require_session_token s method provided =
     (if method = OPTIONS then True
      else if development s then True
      else case provided of
             None \<Rightarrow> False
           | Some token \<Rightarrow> if token \<noteq> session_token s then False else True)"

datatype ApiCall =
  GetTransactionRequest | PostTransactionResponse BrowserTransactionResponse
| GetSigningRequest | PostSigningResponse BrowserSignResponse
| GetConnection | PostConnection "Connection option"
| GetSession
| GetKeyAuthorizationRequest | PostKeyAuthorizationResponse BrowserKeyAuthorizationResponse

fun api_method :: "ApiCall \<Rightarrow> http_method" where
  "api_method (PostTransactionResponse _) = POST"
| "api_method (PostSigningResponse _) = POST"
| "api_method (PostConnection _) = POST"
| "api_method (PostKeyAuthorizationResponse _) = POST"
| "api_method _ = GET"

datatype ('n, 'k) ApiReply =
  ReplyForbidden
| ReplyUnit "unit BrowserApiResponse"
| ReplyTransaction "'n BrowserTransactionRequest BrowserApiResponse"
| ReplySigning "BrowserSignRequest BrowserApiResponse"
| ReplyConnection "Connection option BrowserApiResponse"
| ReplySession "SessionInfo BrowserApiResponse"
| ReplyKeyAuthorization "'k BrowserKeyAuthorizationRequest BrowserApiResponse"

text \<open>The \<open>/api\<close> routes of \<open>build_router\<close> behind their gate.\<close>

fun api_route :: "ApiCall \<Rightarrow> ('n, 'k) BrowserWalletState
    \<Rightarrow> ('n, 'k) ApiReply \<times> ('n, 'k) BrowserWalletState" where
  "api_route GetTransactionRequest s = (ReplyTransaction (get_next_transaction_request s), s)"
| "api_route (PostTransactionResponse b) s = apfst ReplyUnit (post_transaction_response b s)"
| "api_route GetSigningRequest s = (ReplySigning (get_next_signing_request s), s)"
| "api_route (PostSigningResponse b) s = apfst ReplyUnit (post_signing_response b s)"
| "api_route GetConnection s = (ReplyConnection (get_connection_info s), s)"
| "api_route (PostConnection b) s = apfst ReplyUnit (post_connection_update b s)"
| "api_route GetSession s = (ReplySession (get_session_info s), s)"
| "api_route GetKeyAuthorizationRequest s =
     (ReplyKeyAuthorization (get_next_key_authorization_request s), s)"
| "api_route (PostKeyAuthorizationResponse b) s =
     apfst ReplyUnit (post_key_authorization_response b s)"

definition api_call :: "ApiCall \<Rightarrow> string option \<Rightarrow> ('n, 'k) BrowserWalletState
    \<Rightarrow> ('n, 'k) ApiReply \<times> ('n, 'k) BrowserWalletState" where
  "api_call c provided s =
     (if require_session_token s (api_method c) provided then api_route c s else (ReplyForbidden, s))"

section \<open>Outcomes of the request loops\<close>

definition transaction_outcome :: "BrowserTransactionResponse \<Rightarrow> (BrowserWalletError, b256) result" where
  "transaction_outcome response =
     (case txs_hash response of
        Some hash \<Rightarrow> Inr hash
      | None \<Rightarrow> (case txs_error response of
          Some err \<Rightarrow> Inl (Rejected ''Transaction'' err)
        | None \<Rightarrow> Inl (ServerError ''Transaction response missing both hash and error'')))"

definition signing_outcome :: "BrowserSignResponse \<Rightarrow> (BrowserWalletError, bytes) result" where
  "signing_outcome response =
     (case sgs_signature response of
        Some signature \<Rightarrow> Inr signature
      | None \<Rightarrow> (case sgs_error response of
          Some err \<Rightarrow> Inl (Rejected ''Signing'' err)
        | None \<Rightarrow> Inl (ServerError ''Signing response missing both signature and error'')))"

text \<open>What \<open>request_key_authorization\<close> uses of \<open>hex\<close>, \<open>alloy_rlp\<close> and \<open>tempo_primitives\<close>.\<close>

record ('k, 'sk) key_crypto =
  kc_hex_decode :: "string \<Rightarrow> (string, bytes) result"
  kc_rlp_decode :: "bytes \<Rightarrow> (string, 'sk) result"
  kc_authorization :: "'sk \<Rightarrow> 'k"
  kc_signature_hash :: "'k \<Rightarrow> b256"
  kc_recover_signer :: "'sk \<Rightarrow> (string, address) result"
  kc_has_witness :: "'k \<Rightarrow> bool"
  kc_has_account :: "'k \<Rightarrow> bool"
  kc_is_admin :: "'k \<Rightarrow> bool"
  kc_chain_id :: "'k \<Rightarrow> 64 word"
  kc_show_hash :: "b256 \<Rightarrow> string"
  kc_show_address :: "address \<Rightarrow> string"

definition reject_unsupported_key_authorization_fields ::
    "('k, 'sk) key_crypto \<Rightarrow> 'k \<Rightarrow> (BrowserWalletError, unit) result" where
  "reject_unsupported_key_authorization_fields kc key =
     (let fields = (if kc_has_witness kc key then [''witness''] else []) @
                   (if kc_has_account kc key then [''account''] else []) @
                   (if kc_is_admin kc key then [''is_admin''] else [])
      in if fields \<noteq> []
         then Inl (ServerError (''browser key authorization signing does not support T5 fields yet: '' @
                join_with '', '' fields))
         else Inr ())"

fun trim_start_0x :: "string \<Rightarrow> string" where
  "trim_start_0x (a # b # s) =
     (if a = CHR ''0'' \<and> b = CHR ''x'' then trim_start_0x s else a # b # s)"
| "trim_start_0x s = s"

definition key_authorization_outcome :: "('k, 'sk) key_crypto \<Rightarrow> 'k \<Rightarrow> address
    \<Rightarrow> BrowserKeyAuthorizationResponse \<Rightarrow> (BrowserWalletError, 'sk) result" where
  "key_authorization_outcome kc key root response =
     (case kas_signed_hex response of
        Some hex_str \<Rightarrow>
          (case kc_hex_decode kc (trim_start_0x hex_str) of
             Inl e \<Rightarrow> Inl (ServerError (''invalid hex in key authorization response: '' @ e))
           | Inr bs \<Rightarrow>
             (case kc_rlp_decode kc bs of
                Inl e \<Rightarrow> Inl (ServerError (''invalid SignedKeyAuthorization RLP from wallet: '' @ e))
              | Inr sgd \<Rightarrow>
                  if kc_authorization kc sgd \<noteq> key then
                    Inl (ServerError (''wallet returned a mutated KeyAuthorization payload: signed digest '' @
                      kc_show_hash kc (kc_signature_hash kc (kc_authorization kc sgd)) @
                      '' but requested '' @ kc_show_hash kc (kc_signature_hash kc key)))
                  else (case kc_recover_signer kc sgd of
                    Inr recovered \<Rightarrow>
                      if recovered = root then Inr sgd
                      else Inl (ServerError (''wallet returned a SignedKeyAuthorization signed by '' @
                        kc_show_address kc recovered @ '' but the connected root account is '' @
                        kc_show_address kc root))
                  | Inl e \<Rightarrow> Inl (ServerError
                      (''wallet returned an unrecoverable SignedKeyAuthorization signature: '' @ e)))))
      | None \<Rightarrow> (case kas_error response of
          Some err \<Rightarrow> Inl (Rejected ''KeyAuthorization'' err)
        | None \<Rightarrow> Inl (ServerError ''Key authorization response missing both signed_hex and error'')))"

section \<open>The signer\<close>

record BrowserSigner =
  sg_address :: address
  sg_chain_id :: "64 word"

text \<open>
  The guards of \<open>send_transaction_via_browser\<close> and \<open>sign_key_authorization\<close>; \<open>from\<close> and
  \<open>chain_id\<close> of the network's request are parameters.
\<close>

definition check_send_transaction :: "('n \<Rightarrow> address option) \<Rightarrow> ('n \<Rightarrow> 64 word option)
    \<Rightarrow> BrowserSigner \<Rightarrow> 'n \<Rightarrow> (string, unit) result" where
  "check_send_transaction tx_from tx_chain sg tx =
     (if (case tx_from tx of Some a \<Rightarrow> a \<noteq> sg_address sg | None \<Rightarrow> False)
      then Inl ''Transaction `from` address does not match connected wallet address''
      else if (case tx_chain tx of Some c \<Rightarrow> c \<noteq> sg_chain_id sg | None \<Rightarrow> False)
      then Inl ''Transaction `chainId` does not match connected wallet chain ID''
      else Inr ())"

definition check_sign_key_authorization :: "('k, 'sk) key_crypto \<Rightarrow> BrowserSigner \<Rightarrow> 'k
    \<Rightarrow> bool" where
  "check_sign_key_authorization kc sg key \<longleftrightarrow>
     \<not> (kc_chain_id kc key \<noteq> 0 \<and> kc_chain_id kc key \<noteq> sg_chain_id sg)"

section \<open>The operations through the lane contract\<close>

lemma add_transaction_response_lane:
  "transactions (add_transaction_response r s) = queue.answer txr_id (txs_id r) r (transactions s)"
  by (simp add: add_transaction_response_def queue.answer_def Let_def)

lemma add_signing_response_lane:
  "signings (add_signing_response r s) = queue.answer sgr_id (sgs_id r) r (signings s)"
  by (simp add: add_signing_response_def queue.answer_def Let_def)

lemma add_key_authorization_response_lane:
  "key_authorizations (add_key_authorization_response r s) =
   queue.answer kar_id (kas_id r) r (key_authorizations s)"
  by (simp add: add_key_authorization_response_def queue.answer_def Let_def)

lemma fail_transactions_lane:
  "transactions (fail_transactions s) = queue.fail_all txr_id disconnected_tx (transactions s)"
  by (simp add: fail_transactions_def queue.fail_all_def)

lemma fail_signings_lane:
  "signings (fail_signings s) = queue.fail_all sgr_id disconnected_sign (signings s)"
  by (simp add: fail_signings_def queue.fail_all_def)

lemma fail_key_authorizations_lane:
  "key_authorizations (fail_key_authorizations s) =
   queue.fail_all kar_id disconnected_key (key_authorizations s)"
  by (simp add: fail_key_authorizations_def queue.fail_all_def)

lemma check_transaction_body_None:
  "check_transaction_body b = None \<longleftrightarrow>
     (txs_hash b = None \<and> txs_error b \<noteq> None) \<or> (\<exists>h. txs_hash b = Some h \<and> h \<noteq> 0 \<and> txs_error b = None)"
  by (auto simp: check_transaction_body_def hash_byte_length_def split: option.splits)

section \<open>Properties\<close>

text \<open>
  C26: posting a transaction response succeeds exactly when a request with its id is pending and
  the body holds exactly one of a nonzero hash and an error; then the response is what the
  caller's next poll for that id returns, the request is no longer pending and no other id is
  touched.  In every other case the reply is an error and the state is unchanged.
\<close>

theorem post_transaction_response_spec:
  "let accepted = has_transaction_request (txs_id b) s \<and>
         (txs_hash b = None \<and> txs_error b \<noteq> None \<or>
          (\<exists>h. txs_hash b = Some h \<and> h \<noteq> 0 \<and> txs_error b = None));
       (reply, s') = post_transaction_response b s
   in if accepted
      then reply = ApiOk () \<and> fst (get_transaction_response (txs_id b) s') = Some b \<and>
           map txr_id (requests (transactions s')) =
             remove_first (txs_id b) (map txr_id (requests (transactions s))) \<and>
           responses (transactions s') = (responses (transactions s))(txs_id b \<mapsto> b) \<and>
           s'\<lparr>transactions := transactions s\<rparr> = s
      else (\<exists>m. reply = ApiError m) \<and> s' = s"
proof -
  have ok: "post_transaction_response b s =
      (if has_transaction_request (txs_id b) s \<and> check_transaction_body b = None
       then (ApiOk (), add_transaction_response b s)
       else (ApiError (if has_transaction_request (txs_id b) s then the (check_transaction_body b)
                       else ''Unknown transaction id''), s))"
    by (auto simp: post_transaction_response_def split: option.splits)
  have frame: "(add_transaction_response b s)\<lparr>transactions := transactions s\<rparr> = s"
    by (simp add: add_transaction_response_def Let_def)
  show ?thesis
    unfolding ok check_transaction_body_None
    by (auto simp: frame get_transaction_response_def add_transaction_response_lane
        queue.answer_pending queue.answer_answered get_response_def)
qed

text \<open>
  C27: losing the wallet connection fails everything in flight: afterwards no transaction,
  signing or key authorization request is pending, every id that was pending is answered with
  an error that its caller sees as \<open>Rejected\<close> with reason \<open>Wallet disconnected\<close>, and the
  answers of other ids stay.
\<close>

theorem disconnect_fails_all_pending:
  "let s' = set_connection None s in
   \<not> is_connected s' \<and> requests (transactions s') = [] \<and> requests (signings s') = [] \<and>
   requests (key_authorizations s') = [] \<and>
   (\<forall>i. responses (transactions s') i =
      (if has_transaction_request i s then Some (disconnected_tx i) else responses (transactions s) i)) \<and>
   (\<forall>i. responses (signings s') i =
      (if has_signing_request i s then Some (disconnected_sign i) else responses (signings s) i)) \<and>
   (\<forall>i. responses (key_authorizations s') i =
      (if has_key_authorization_request i s then Some (disconnected_key i)
       else responses (key_authorizations s) i)) \<and>
   transaction_outcome (disconnected_tx i) = Inl (Rejected ''Transaction'' ''Wallet disconnected'') \<and>
   signing_outcome (disconnected_sign i) = Inl (Rejected ''Signing'' ''Wallet disconnected'')"
proof -
  define s0 where "s0 = s\<lparr>connection := None\<rparr>"
  have s': "set_connection None s = fail_key_authorizations (fail_signings (fail_transactions s0))"
    by (simp add: set_connection_def s0_def fail_pending_with_disconnect_def)
  have tx: "transactions (set_connection None s) = queue.fail_all txr_id disconnected_tx (transactions s)"
    and sg: "signings (set_connection None s) = queue.fail_all sgr_id disconnected_sign (signings s)"
    and ka: "key_authorizations (set_connection None s) =
        queue.fail_all kar_id disconnected_key (key_authorizations s)"
    and cn: "connection (set_connection None s) = None"
    unfolding s' by (simp_all add: fail_transactions_lane [symmetric] fail_signings_lane [symmetric]
        fail_key_authorizations_lane [symmetric])
      (simp_all add: fail_transactions_def fail_signings_def fail_key_authorizations_def s0_def)
  have none: "requests q = []" if "map f (requests q) = []" for f q using that by simp
  show ?thesis
    unfolding Let_def is_connected_def tx sg ka cn
    by (auto simp: queue.fail_all_answered has_transaction_request_def has_signing_request_def
        has_key_authorization_request_def has_request_iff transaction_outcome_def signing_outcome_def
        disconnected_tx_def disconnected_sign_def
        intro: none [OF queue.fail_all_pending])
qed



text \<open>
  C29: a key authorization handed back to the caller is the one that was asked for, signed by
  the root account: the outcome is a success exactly when the wallet's hex decodes to a signed
  authorization with the requested payload whose recovered signer is the root account.
\<close>

theorem key_authorization_outcome_sound:
  "key_authorization_outcome kc key root response = Inr sgd \<longleftrightarrow>
   (\<exists>hex bs. kas_signed_hex response = Some hex \<and> kc_hex_decode kc (trim_start_0x hex) = Inr bs \<and>
      kc_rlp_decode kc bs = Inr sgd \<and> kc_authorization kc sgd = key \<and>
      kc_recover_signer kc sgd = Inr root)"
  by (auto simp: key_authorization_outcome_def split: option.splits sum.splits)

end
