(* ===== verification/Wallet_Sessions.thy ===== *)
theory Wallet_Sessions
  imports Browser_Wallet
begin

text \<open>
  The tasks that share one \<open>BrowserWalletState\<close>: the request loops of \<open>server.rs\<close>, the POST
  handlers of \<open>handlers.rs\<close> and connection updates (\<open>state.rs\<close>).  A task runs until it gives up
  a lock or sleeps; \<open>task_step\<close> is one such stretch, and a run of the system interleaves the
  stretches of its tasks in any order.  \<open>expired\<close> is the answer of the clock to
  \<open>start.elapsed() > self.timeout\<close>.
\<close>

section \<open>Tasks\<close>

datatype 'n Task =
    TxStart "'n BrowserTransactionRequest" | TxAdd "'n BrowserTransactionRequest"
  | TxPoll uuid | TxClock uuid | TxDone uuid "(BrowserWalletError, b256) result"
  | SgStart BrowserSignRequest | SgAdd BrowserSignRequest
  | SgPoll uuid | SgClock uuid | SgDone uuid "(BrowserWalletError, bytes) result"
  | PostTx BrowserTransactionResponse | PostTxStore BrowserTransactionResponse
  | PostTxDone BrowserTransactionResponse "unit BrowserApiResponse"
  | PostSg BrowserSignResponse | PostSgStore BrowserSignResponse
  | PostSgDone BrowserSignResponse "unit BrowserApiResponse"
  | ConnWrite "Connection option" | ConnFailTx | ConnFailSg | ConnFailKey | ConnDone

fun is_start :: "'n Task \<Rightarrow> bool" where
  "is_start (TxStart _) \<longleftrightarrow> True"
| "is_start (SgStart _) \<longleftrightarrow> True"
| "is_start (PostTx _) \<longleftrightarrow> True"
| "is_start (PostSg _) \<longleftrightarrow> True"
| "is_start (ConnWrite _) \<longleftrightarrow> True"
| "is_start _ \<longleftrightarrow> False"

text \<open>\<open>request_transaction\<close>, one locked stretch at a time.\<close>

fun tx_step :: "bool \<Rightarrow> 'n Task \<Rightarrow> ('n, 'k) BrowserWalletState \<Rightarrow> 'n Task \<times> ('n, 'k) BrowserWalletState" where
  "tx_step expired (TxStart r) s =
     (if \<not> is_connected s then (TxDone (txr_id r) (Inl NotConnected), s) else (TxAdd r, s))"
| "tx_step expired (TxAdd r) s = (TxPoll (txr_id r), add_transaction_request r s)"
| "tx_step expired (TxPoll i) s =
     (case get_transaction_response i s of
        (Some response, s') \<Rightarrow> (TxDone i (transaction_outcome response), s')
      | (None, s') \<Rightarrow> (TxClock i, s'))"
| "tx_step expired (TxClock i) s =
     (if expired then (TxDone i (Inl (Timeout ''Transaction'')), remove_transaction_request i s)
      else (TxPoll i, s))"
| "tx_step expired t s = (t, s)"

text \<open>\<open>request_signing\<close>.\<close>

fun sg_step :: "bool \<Rightarrow> 'n Task \<Rightarrow> ('n, 'k) BrowserWalletState \<Rightarrow> 'n Task \<times> ('n, 'k) BrowserWalletState" where
  "sg_step expired (SgStart r) s =
     (if \<not> is_connected s then (SgDone (sgr_id r) (Inl NotConnected), s) else (SgAdd r, s))"
| "sg_step expired (SgAdd r) s = (SgPoll (sgr_id r), add_signing_request r s)"
| "sg_step expired (SgPoll i) s =
     (case get_signing_response i s of
        (Some response, s') \<Rightarrow> (SgDone i (signing_outcome response), s')
      | (None, s') \<Rightarrow> (SgClock i, s'))"
| "sg_step expired (SgClock i) s =
     (if expired then (SgDone i (Inl (Timeout ''Signing'')), remove_signing_request i s)
      else (SgPoll i, s))"
| "sg_step expired t s = (t, s)"

text \<open>
  The POST handlers and \<open>set_connection\<close>: \<open>has_\<dots>_request\<close> and the validation are one stretch,
  the insertion the next; a disconnect clears the connection and then fails one queue after
  the other.
\<close>

fun post_step :: "'n Task \<Rightarrow> ('n, 'k) BrowserWalletState \<Rightarrow> 'n Task \<times> ('n, 'k) BrowserWalletState" where
  "post_step (PostTx body) s =
     (if \<not> has_transaction_request (txs_id body) s
      then (PostTxDone body (ApiError ''Unknown transaction id''), s)
      else case check_transaction_body body of
             Some msg \<Rightarrow> (PostTxDone body (ApiError msg), s)
           | None \<Rightarrow> (PostTxStore body, s))"
| "post_step (PostTxStore body) s = (PostTxDone body (ApiOk ()), add_transaction_response body s)"
| "post_step (PostSg body) s =
     (if \<not> has_signing_request (sgs_id body) s
      then (PostSgDone body (ApiError ''Unknown signing request id''), s)
      else case check_signing_body body of
             Some msg \<Rightarrow> (PostSgDone body (ApiError msg), s)
           | None \<Rightarrow> (PostSgStore body, s))"
| "post_step (PostSgStore body) s = (PostSgDone body (ApiOk ()), add_signing_response body s)"
| "post_step (ConnWrite c) s = (if c = None then ConnFailTx else ConnDone, s\<lparr>connection := c\<rparr>)"
| "post_step ConnFailTx s = (ConnFailSg, fail_transactions s)"
| "post_step ConnFailSg s = (ConnFailKey, fail_signings s)"
| "post_step ConnFailKey s = (ConnDone, fail_key_authorizations s)"
| "post_step t s = (t, s)"

fun task_step :: "bool \<Rightarrow> 'n Task \<Rightarrow> ('n, 'k) BrowserWalletState \<Rightarrow> 'n Task \<times> ('n, 'k) BrowserWalletState" where
  "task_step e (TxStart r) s = tx_step e (TxStart r) s"
| "task_step e (TxAdd r) s = tx_step e (TxAdd r) s"
| "task_step e (TxPoll i) s = tx_step e (TxPoll i) s"
| "task_step e (TxClock i) s = tx_step e (TxClock i) s"
| "task_step e (SgStart r) s = sg_step e (SgStart r) s"
| "task_step e (SgAdd r) s = sg_step e (SgAdd r) s"
| "task_step e (SgPoll i) s = sg_step e (SgPoll i) s"
| "task_step e (SgClock i) s = sg_step e (SgClock i) s"
| "task_step e t s = post_step t s"

section \<open>Runs\<close>

type_synonym ('n, 'k) system = "('n, 'k) BrowserWalletState \<times> 'n Task list"

inductive sys_step :: "('n, 'k) system \<Rightarrow> ('n, 'k) system \<Rightarrow> bool" where
  Spawn: "is_start t \<Longrightarrow> sys_step (s, ts) (s, ts @ [t])"
| Run: "i < length ts \<Longrightarrow> task_step e (ts ! i) s = (t', s') \<Longrightarrow> sys_step (s, ts) (s', ts[i := t'])"

inductive reachable :: "string \<Rightarrow> bool \<Rightarrow> ('n, 'k) system \<Rightarrow> bool" for token dev where
  Init: "reachable token dev (wallet_state_new token dev, [])"
| Step: "reachable token dev a \<Longrightarrow> sys_step a b \<Longrightarrow> reachable token dev b"

text \<open>Schedules, to exhibit runs.\<close>

datatype 'n event = SpawnTask "'n Task" | RunTask nat bool

fun exec_event :: "'n event \<Rightarrow> ('n, 'k) system \<Rightarrow> ('n, 'k) system" where
  "exec_event (SpawnTask t) (s, ts) = (if is_start t then (s, ts @ [t]) else (s, ts))"
| "exec_event (RunTask i e) (s, ts) =
     (if i < length ts then (case task_step e (ts ! i) s of (t', s') \<Rightarrow> (s', ts[i := t']))
      else (s, ts))"

definition exec_events :: "string \<Rightarrow> bool \<Rightarrow> 'n event list \<Rightarrow> ('n, 'k) system" where
  "exec_events token dev evs = fold exec_event evs (wallet_state_new token dev, [])"

lemma exec_event_reachable:
  assumes "reachable token dev (s, ts)"
  shows "reachable token dev (exec_event e (s, ts))"
proof (cases e)
  case (SpawnTask t)
  with assms show ?thesis by (auto intro: reachable.Step sys_step.Spawn)
next
  case (RunTask i x)
  with assms show ?thesis
    by (auto split: prod.split intro: reachable.Step sys_step.Run)
qed

lemma exec_events_reachable: "reachable token dev (exec_events token dev evs)"
proof -
  have "reachable token dev a \<Longrightarrow> reachable token dev (fold exec_event evs a)" for a :: "('a, 'b) system"
  proof (induction evs arbitrary: a)
    case (Cons e evs)
    then show ?case using exec_event_reachable [of token dev "fst a" "snd a" e] by simp
  qed simp
  then show ?thesis by (simp add: exec_events_def reachable.Init)
qed

section \<open>The invariant\<close>

text \<open>
  What may be stored: a synthetic disconnect, or a body that some POST task had accepted.
\<close>

definition tx_stored :: "'n Task set \<Rightarrow> uuid \<Rightarrow> BrowserTransactionResponse \<Rightarrow> bool" where
  "tx_stored T i r \<longleftrightarrow> txs_id r = i \<and> check_transaction_body r = None \<and>
     (r = disconnected_tx i \<or> PostTxDone r (ApiOk ()) \<in> T)"

definition sg_stored :: "'n Task set \<Rightarrow> uuid \<Rightarrow> BrowserSignResponse \<Rightarrow> bool" where
  "sg_stored T i r \<longleftrightarrow> sgs_id r = i \<and> check_signing_body r = None \<and>
     (r = disconnected_sign i \<or> PostSgDone r (ApiOk ()) \<in> T)"

fun task_ok :: "'n Task set \<Rightarrow> 'n Task \<Rightarrow> bool" where
  "task_ok T (PostTxStore b) \<longleftrightarrow> check_transaction_body b = None"
| "task_ok T (PostSgStore b) \<longleftrightarrow> check_signing_body b = None"
| "task_ok T (TxDone i (Inr h)) \<longleftrightarrow> h \<noteq> 0 \<and>
     (\<exists>b. PostTxDone b (ApiOk ()) \<in> T \<and> txs_id b = i \<and> txs_hash b = Some h)"
| "task_ok T (TxDone i (Inl e)) \<longleftrightarrow>
     e = NotConnected \<or> e = Timeout ''Transaction'' \<or> (\<exists>m. e = Rejected ''Transaction'' m \<and>
       (m = ''Wallet disconnected'' \<or>
        (\<exists>b. PostTxDone b (ApiOk ()) \<in> T \<and> txs_id b = i \<and> txs_error b = Some m)))"
| "task_ok T (SgDone i (Inr x)) \<longleftrightarrow>
     (\<exists>b. PostSgDone b (ApiOk ()) \<in> T \<and> sgs_id b = i \<and> sgs_signature b = Some x)"
| "task_ok T (SgDone i (Inl e)) \<longleftrightarrow>
     e = NotConnected \<or> e = Timeout ''Signing'' \<or> (\<exists>m. e = Rejected ''Signing'' m \<and>
       (m = ''Wallet disconnected'' \<or>
        (\<exists>b. PostSgDone b (ApiOk ()) \<in> T \<and> sgs_id b = i \<and> sgs_error b = Some m)))"
| "task_ok T _ \<longleftrightarrow> True"

definition session_inv :: "('n, 'k) BrowserWalletState \<Rightarrow> 'n Task set \<Rightarrow> bool" where
  "session_inv s T \<longleftrightarrow> queue.responses_ok (tx_stored T) (transactions s) \<and>
     queue.responses_ok (sg_stored T) (signings s) \<and> (\<forall>t\<in>T. task_ok T t)"

text \<open>The answers that a finished POST gave stay as the other tasks move on.\<close>

definition posts :: "'n Task set \<Rightarrow> 'n Task set" where
  "posts T = {t \<in> T. (\<exists>b x. t = PostTxDone b x) \<or> (\<exists>b x. t = PostSgDone b x)}"

lemma task_ok_mono: "task_ok T t \<Longrightarrow> posts T \<subseteq> posts T' \<Longrightarrow> task_ok T' t"
  by (induction T t rule: task_ok.induct) (auto simp: posts_def)

lemma tx_stored_mono: "tx_stored T i r \<Longrightarrow> posts T \<subseteq> posts T' \<Longrightarrow> tx_stored T' i r"
  and sg_stored_mono: "sg_stored T i x \<Longrightarrow> posts T \<subseteq> posts T' \<Longrightarrow> sg_stored T' i x"
  by (auto simp: tx_stored_def sg_stored_def posts_def)

lemma session_inv_mono:
  assumes "session_inv s T" and "posts T \<subseteq> posts T'" and "\<And>t. t \<in> T' \<Longrightarrow> t \<in> T \<or> task_ok T' t"
  shows "session_inv s T'"
  using assms tx_stored_mono [OF _ assms(2)] sg_stored_mono [OF _ assms(2)] task_ok_mono [OF _ assms(2)]
  unfolding session_inv_def queue.responses_ok_def by meson

lemma disconnected_tx_stored: "tx_stored T i (disconnected_tx i)"
  and disconnected_sign_stored: "sg_stored T i (disconnected_sign i)"
  by (simp_all add: tx_stored_def sg_stored_def disconnected_tx_def disconnected_sign_def
      check_transaction_body_def check_signing_body_def)

lemma transaction_outcome_ok:
  "tx_stored T i r \<Longrightarrow> task_ok T (TxDone i (transaction_outcome r))"
  by (cases "r = disconnected_tx i")
    (auto simp: tx_stored_def check_transaction_body_None transaction_outcome_def disconnected_tx_def
      split: option.splits)

lemma signing_outcome_ok:
  "sg_stored T i r \<Longrightarrow> task_ok T (SgDone i (signing_outcome r))"
  by (cases "r = disconnected_sign i")
    (auto simp: sg_stored_def check_signing_body_def signing_outcome_def disconnected_sign_def
      split: option.splits)

lemma tx_lane_ok:
  "queue.responses_ok P q \<Longrightarrow> queue.responses_ok P (add_request x q)"
  "queue.responses_ok P q \<Longrightarrow> queue.responses_ok P (snd (remove_request f i q))"
  "queue.responses_ok P q \<Longrightarrow> queue.responses_ok P (snd (get_response i q))"
  "queue.responses_ok P q \<Longrightarrow> P i r \<Longrightarrow> queue.responses_ok P (queue.answer f i r q)"
  "queue.responses_ok P q \<Longrightarrow> (\<And>i. P i (mk i)) \<Longrightarrow> queue.responses_ok P (queue.fail_all f mk q)"
  by (simp_all add: queue.responses_ok_ops)

text \<open>One stretch keeps what is stored sound and leaves its task sound.\<close>

lemma tx_step_inv:
  assumes tx: "queue.responses_ok (tx_stored T) (transactions s)"
    and sg: "queue.responses_ok (sg_stored T) (signings s)"
    and ok: "task_ok T t" and st: "tx_step e t s = (t', s')"
  shows "queue.responses_ok (tx_stored T) (transactions s') \<and>
     queue.responses_ok (sg_stored T) (signings s') \<and> task_ok T t'"
proof (cases t)
  case (TxPoll i)
  show ?thesis
  proof (cases "responses (transactions s) i")
    case None
    with TxPoll st tx sg show ?thesis
      by (auto simp: get_transaction_response_def get_response_def queue.responses_ok_def
          split: if_splits)
  next
    case (Some r)
    then have "tx_stored T i r" using tx by (simp add: queue.responses_ok_def)
    with Some TxPoll st tx sg show ?thesis
      by (auto simp: get_transaction_response_def get_response_def queue.responses_ok_def
          transaction_outcome_ok simp del: task_ok.simps split: if_splits)
  qed
qed (use assms in \<open>auto simp: add_transaction_request_def remove_transaction_request_def tx_lane_ok
      split: if_splits\<close>)

lemma sg_step_inv:
  assumes tx: "queue.responses_ok (tx_stored T) (transactions s)"
    and sg: "queue.responses_ok (sg_stored T) (signings s)"
    and ok: "task_ok T t" and st: "sg_step e t s = (t', s')"
  shows "queue.responses_ok (tx_stored T) (transactions s') \<and>
     queue.responses_ok (sg_stored T) (signings s') \<and> task_ok T t'"
proof (cases t)
  case (SgPoll i)
  show ?thesis
  proof (cases "responses (signings s) i")
    case None
    with SgPoll st tx sg show ?thesis
      by (auto simp: get_signing_response_def get_response_def queue.responses_ok_def
          split: if_splits)
  next
    case (Some r)
    then have "sg_stored T i r" using sg by (simp add: queue.responses_ok_def)
    with Some SgPoll st tx sg show ?thesis
      by (auto simp: get_signing_response_def get_response_def queue.responses_ok_def
          signing_outcome_ok simp del: task_ok.simps split: if_splits)
  qed
qed (use assms in \<open>auto simp: add_signing_request_def remove_signing_request_def tx_lane_ok
      split: if_splits\<close>)

lemma post_step_inv:
  assumes tx: "queue.responses_ok (tx_stored T) (transactions s)"
    and sg: "queue.responses_ok (sg_stored T) (signings s)"
    and ok: "task_ok T t" and st: "post_step t s = (t', s')" and t': "t' \<in> T"
  shows "queue.responses_ok (tx_stored T) (transactions s') \<and>
     queue.responses_ok (sg_stored T) (signings s') \<and> task_ok T t'"
proof (cases t)
  case (PostTxStore b)
  with assms have "tx_stored T (txs_id b) b" by (auto simp: tx_stored_def)
  with PostTxStore assms show ?thesis
    by (auto simp: add_transaction_response_lane tx_lane_ok)
      (simp add: add_transaction_response_def Let_def)
next
  case (PostSgStore b)
  with assms have "sg_stored T (sgs_id b) b" by (auto simp: sg_stored_def)
  with PostSgStore assms show ?thesis
    by (auto simp: add_signing_response_lane tx_lane_ok)
      (simp add: add_signing_response_def Let_def)
next
  case ConnFailTx
  with assms show ?thesis
    by (auto simp: fail_transactions_lane tx_lane_ok disconnected_tx_stored)
      (simp add: fail_transactions_def)
next
  case ConnFailSg
  with assms show ?thesis
    by (auto simp: fail_signings_lane tx_lane_ok disconnected_sign_stored)
      (simp add: fail_signings_def)
next
  case ConnFailKey
  with assms show ?thesis by (auto simp: fail_key_authorizations_def)
qed (use assms in \<open>auto split: if_splits option.splits\<close>)

lemma task_step_inv:
  assumes "queue.responses_ok (tx_stored T) (transactions s)"
    and "queue.responses_ok (sg_stored T) (signings s)"
    and "task_ok T t" and "task_step e t s = (t', s')" and "t' \<in> T"
  shows "queue.responses_ok (tx_stored T) (transactions s') \<and>
     queue.responses_ok (sg_stored T) (signings s') \<and> task_ok T t'"
  using tx_step_inv [OF assms(1-3), of e t' s'] sg_step_inv [OF assms(1-3), of e t' s']
    post_step_inv [OF assms(1-3) _ assms(5), of s'] assms(4)
  by (cases t) (simp_all del: tx_step.simps sg_step.simps post_step.simps)

lemma task_step_posts:
  assumes "task_step e (ts ! i) s = (t', s')" and "i < length ts"
  shows "posts (set ts) \<subseteq> posts (set (ts[i := t']))"
proof
  fix t assume t: "t \<in> posts (set ts)"
  then obtain j where j: "j < length ts" "ts ! j = t" by (auto simp: posts_def in_set_conv_nth)
  show "t \<in> posts (set (ts[i := t']))"
  proof (cases "j = i")
    case True
    with j t assms have "t' = t" by (auto simp: posts_def)
    with True j t show ?thesis by (metis list_update_id)
  next
    case False
    with j have "ts[i := t'] ! j = t" "j < length (ts[i := t'])" by simp_all
    then have "t \<in> set (ts[i := t'])" by (metis nth_mem)
    with t show ?thesis by (simp add: posts_def)
  qed
qed

lemma session_inv_step:
  assumes inv: "session_inv s (set ts)" and step: "sys_step (s, ts) (s', ts')"
  shows "session_inv s' (set ts')"
  using step
proof cases
  case (Spawn t)
  have "task_ok T t" for T using Spawn(3) by (cases t) simp_all
  then show ?thesis
    using session_inv_mono [OF inv, of "set ts'"] Spawn by (auto simp: posts_def)
next
  case (Run i e t')
  let ?T = "set (ts[i := t'])"
  note sub = task_step_posts [OF Run(3) Run(2)]
  have ok: "queue.responses_ok (tx_stored ?T) (transactions s)"
    "queue.responses_ok (sg_stored ?T) (signings s)" "\<And>t. t \<in> set ts \<Longrightarrow> task_ok ?T t"
    using inv tx_stored_mono [OF _ sub] sg_stored_mono [OF _ sub] task_ok_mono [OF _ sub]
    unfolding session_inv_def queue.responses_ok_def by meson+
  have t': "t' \<in> ?T" using Run(2) by (simp add: set_update_memI)
  have "task_ok ?T u" if "u \<in> ?T" for u
    using that set_update_subset_insert [of ts i t'] ok(3)
      task_step_inv [OF ok(1,2) ok(3) Run(3) t'] Run(2) by auto
  then show ?thesis
    using task_step_inv [OF ok(1,2) ok(3) Run(3) t'] Run(1,2) by (simp add: session_inv_def)
qed

lemma reachable_inv: "reachable token dev (s, ts) \<Longrightarrow> session_inv s (set ts)"
proof (induction "(s, ts)" arbitrary: s ts rule: reachable.induct)
  case Init
  show ?case
    by (simp add: session_inv_def wallet_state_new_def queue.responses_ok_ops)
next
  case (Step a)
  then show ?case by (cases a) (auto intro: session_inv_step)
qed

section \<open>Properties\<close>

lemmas session_ops = add_transaction_request_def add_request_def get_transaction_response_def
  get_response_def remove_transaction_request_def remove_request_def has_transaction_request_def
  has_request_def add_transaction_response_def add_response_def queue_new_def wallet_state_new_def
  is_connected_def fail_transactions_def fail_signings_def fail_key_authorizations_def
  drain_request_ids_def exec_events_def

text \<open>
  C10: whatever the interleaving of request loops, POST handlers and connection updates, a
  transaction request returns a hash only if the hash is nonzero and some POST with the
  request's id was accepted with it; every failure is \<open>NotConnected\<close>, \<open>Timeout\<close> or a
  rejection that a POST or a disconnect gave, so the \<open>missing both hash and error\<close> server error
  cannot occur; and a stored response belongs to its id and holds exactly one of hash and error.
\<close>

theorem session_results_sound:
  assumes "reachable token dev (s, ts)"
  shows "(case result of
      Inr h \<Rightarrow> TxDone i (Inr h) \<in> set ts \<longrightarrow> h \<noteq> 0 \<and>
        (\<exists>b. PostTxDone b (ApiOk ()) \<in> set ts \<and> txs_id b = i \<and> txs_hash b = Some h)
    | Inl e \<Rightarrow> TxDone i (Inl e) \<in> set ts \<longrightarrow>
        e = NotConnected \<or> e = Timeout ''Transaction'' \<or> (\<exists>m. e = Rejected ''Transaction'' m \<and>
          (m = ''Wallet disconnected'' \<or>
           (\<exists>b. PostTxDone b (ApiOk ()) \<in> set ts \<and> txs_id b = i \<and> txs_error b = Some m)))) \<and>
    (\<forall>j r. responses (transactions s) j = Some r \<longrightarrow> txs_id r = j \<and>
       (txs_hash r = None) \<noteq> (txs_error r = None))"
proof -
  have inv: "session_inv s (set ts)" by (rule reachable_inv [OF assms])
  then have "task_ok (set ts) (TxDone i result)" if "TxDone i result \<in> set ts"
    using that by (simp add: session_inv_def)
  moreover have "txs_id r = j \<and> (txs_hash r = None) \<noteq> (txs_error r = None)"
    if "responses (transactions s) j = Some r" for j r
  proof -
    have "tx_stored (set ts) j r"
      using that inv by (simp add: session_inv_def queue.responses_ok_def)
    then show ?thesis unfolding tx_stored_def check_transaction_body_None by auto
  qed
  ultimately show ?thesis by (cases result) auto
qed

definition demo_request :: "nat BrowserTransactionRequest" where
  "demo_request = \<lparr>txr_id = 7, txr_request = 0\<rparr>"

definition demo_response :: BrowserTransactionResponse where
  "demo_response = \<lparr>txs_id = 7, txs_hash = Some 5, txs_error = None\<rparr>"

definition demo_connection :: Connection where
  "demo_connection = \<lparr>conn_address = 1, conn_chain_id = 1\<rparr>"

text \<open>A run in which the wallet connects, a transaction is asked for, answered and returned.\<close>

definition demo_answered :: "(nat, nat) system" where
  "demo_answered = exec_events ''t'' False
     [SpawnTask (ConnWrite (Some demo_connection)), RunTask 0 False,
      SpawnTask (TxStart demo_request), RunTask 1 False, RunTask 1 False,
      SpawnTask (PostTx demo_response), RunTask 2 False, RunTask 2 False, RunTask 1 False]"

lemma demo_answered_tasks: "snd demo_answered =
    [ConnDone, TxDone 7 (Inr 5), PostTxDone demo_response (ApiOk ())]"
  by (simp add: demo_answered_def session_ops demo_request_def demo_response_def demo_connection_def
      check_transaction_body_def hash_byte_length_def transaction_outcome_def)

theorem session_results_sound_witness:
  "\<exists>b. PostTxDone b (ApiOk ()) \<in> set (snd demo_answered) \<and> txs_id b = 7 \<and> txs_hash b = Some 5"
proof -
  have "reachable ''t'' False (fst demo_answered, snd demo_answered)"
    by (simp add: demo_answered_def exec_events_reachable)
  from session_results_sound [OF this, where result = "Inr 5" and i = 7] show ?thesis
    by (simp add: demo_answered_tasks)
qed

text \<open>
  The check and the insertion of a POST are two locked operations, so a request may time
  out between them: there is a run that ends with every task finished, the caller told
  \<open>Timeout\<close>, the wallet's answer accepted with \<open>Ok\<close>, and the transaction's hash left in the
  response map that nobody polls again.
\<close>

theorem accepted_answer_can_be_lost:
  "\<exists>s ts. reachable ''t'' False ((s, ts) :: (nat, nat) system) \<and>
     TxDone 7 (Inl (Timeout ''Transaction'')) \<in> set ts \<and>
     PostTxDone demo_response (ApiOk ()) \<in> set ts \<and>
     list_all (\<lambda>t. case t of TxDone _ _ \<Rightarrow> True | PostTxDone _ _ \<Rightarrow> True | ConnDone \<Rightarrow> True | _ \<Rightarrow> False) ts \<and>
     responses (transactions s) 7 = Some demo_response"
proof -
  let ?evs = "[SpawnTask (ConnWrite (Some demo_connection)), RunTask 0 False,
      SpawnTask (TxStart demo_request), RunTask 1 False, RunTask 1 False, RunTask 1 False,
      SpawnTask (PostTx demo_response), RunTask 2 False, RunTask 1 True, RunTask 2 False]"
  obtain s and ts :: "nat Task list" where
    st: "(exec_events ''t'' False ?evs :: (nat, nat) system) = (s, ts)" by fastforce
  then have "s = fst (exec_events ''t'' False ?evs :: (nat, nat) system)"
    and "ts = snd (exec_events ''t'' False ?evs :: (nat, nat) system)" by simp_all
  moreover have "snd (exec_events ''t'' False ?evs :: (nat, nat) system) =
      [ConnDone, TxDone 7 (Inl (Timeout ''Transaction'')), PostTxDone demo_response (ApiOk ())]"
    and "responses (transactions (fst (exec_events ''t'' False ?evs :: (nat, nat) system))) 7 =
      Some demo_response"
    by (simp_all add: session_ops demo_request_def demo_response_def demo_connection_def
      check_transaction_body_def hash_byte_length_def transaction_outcome_def)
  moreover have "reachable ''t'' False (exec_events ''t'' False ?evs :: (nat, nat) system)"
    by (rule exec_events_reachable)
  ultimately show ?thesis using st by (intro exI [of _ s] exI [of _ ts]) simp
qed

text \<open>
  A request that passed its connection check before a disconnect and is queued after it is
  not failed by it: there is a run in which the whole disconnect has finished, the wallet is
  not connected, and the transaction is pending with its caller left to its timeout.
\<close>

theorem disconnect_can_miss_a_request:
  "\<exists>s ts. reachable ''t'' False ((s, ts) :: (nat, nat) system) \<and>
     ts = [ConnDone, TxClock 7, ConnDone] \<and> \<not> is_connected s \<and> has_transaction_request 7 s \<and>
     responses (transactions s) 7 = None"
proof -
  let ?evs = "[SpawnTask (ConnWrite (Some demo_connection)), RunTask 0 False,
      SpawnTask (TxStart demo_request), RunTask 1 False,
      SpawnTask (ConnWrite None), RunTask 2 False, RunTask 2 False, RunTask 2 False, RunTask 2 False,
      RunTask 1 False, RunTask 1 False]"
  obtain s and ts :: "nat Task list" where
    st: "(exec_events ''t'' False ?evs :: (nat, nat) system) = (s, ts)" by fastforce
  then have "s = fst (exec_events ''t'' False ?evs :: (nat, nat) system)"
    and "ts = snd (exec_events ''t'' False ?evs :: (nat, nat) system)" by simp_all
  moreover have "snd (exec_events ''t'' False ?evs :: (nat, nat) system) =
      [ConnDone, TxClock 7, ConnDone]"
    and "\<not> is_connected (fst (exec_events ''t'' False ?evs :: (nat, nat) system))"
    and "has_transaction_request 7 (fst (exec_events ''t'' False ?evs :: (nat, nat) system))"
    and "responses (transactions (fst (exec_events ''t'' False ?evs :: (nat, nat) system))) 7 = None"
    by (simp_all add: session_ops demo_request_def demo_connection_def)
  moreover have "reachable ''t'' False (exec_events ''t'' False ?evs :: (nat, nat) system)"
    by (rule exec_events_reachable)
  ultimately show ?thesis using st by (intro exI [of _ s] exI [of _ ts]) simp
qed

end
