(* ===== verification/Fork_Cache.thy ===== *)
theory Fork_Cache
  imports Prelude
begin

text \<open>
  \<open>crates/fork-db/src/cache.rs\<close>: the in-memory database of fetched chain data (\<open>MemDb\<close>), the
  metadata of a cache file and when it is reused (\<open>BlockchainDb::new_db\<close>), and the reading and
  writing of the file.  The hash maps are association lists in key order (the code never depends
  on their iteration order).  \<open>revm\<close>'s accounts and code, \<open>serde_json\<close>, \<open>zstd\<close> and \<open>url\<close> are
  parameters.
\<close>

section \<open>\<open>MemDb\<close>\<close>

record 'code AccountInfo =
  ai_balance :: u256
  ai_nonce :: "64 word"
  ai_code_hash :: b256
  ai_code :: "'code option"

type_synonym StorageInfo = "(u256, u256) btree"

record 'code MemDb =
  db_accounts :: "(address, 'code AccountInfo) btree"
  db_storage :: "(address, StorageInfo) btree"
  db_block_hashes :: "(u256, b256) btree"

definition memdb_default :: "'code MemDb" where
  "memdb_default = \<lparr>db_accounts = [], db_storage = [], db_block_hashes = []\<rparr>"

definition memdb_clear :: "'code MemDb \<Rightarrow> 'code MemDb" where
  "memdb_clear db = db\<lparr>db_accounts := [], db_storage := [], db_block_hashes := []\<rparr>"

definition do_insert_account :: "address \<Rightarrow> 'code AccountInfo \<Rightarrow> 'code MemDb \<Rightarrow> 'code MemDb" where
  "do_insert_account a acc db = db\<lparr>db_accounts := bt_insert a acc (db_accounts db)\<rparr>"

text \<open>\<open>revm\<close>'s account: its info, the present values of its touched slots, and its status flags;
  what \<open>do_commit\<close> asks of it is the record \<open>revm\<close>.\<close>

record 'code Account =
  ac_info :: "'code AccountInfo"
  ac_storage :: "(u256 \<times> u256) list"
  ac_created :: bool
  ac_selfdestructed :: bool

record 'code revm =
  rv_is_empty :: "'code Account \<Rightarrow> bool"
  rv_code_is_empty :: "'code \<Rightarrow> bool"
  rv_hash_slow :: "'code \<Rightarrow> b256"
  rv_keccak_empty :: b256

definition commit_info :: "'code revm \<Rightarrow> 'code AccountInfo \<Rightarrow> 'code AccountInfo" where
  "commit_info rv info =
     (case (case ai_code info of
              Some c \<Rightarrow> if rv_code_is_empty rv c then None else Some (rv_hash_slow rv c)
            | None \<Rightarrow> None) of
        Some h \<Rightarrow> info\<lparr>ai_code_hash := h\<rparr>
      | None \<Rightarrow> if ai_code_hash info = 0 then info\<lparr>ai_code_hash := rv_keccak_empty rv\<rparr> else info)"

definition commit_slot :: "u256 \<times> u256 \<Rightarrow> StorageInfo \<Rightarrow> StorageInfo" where
  "commit_slot = (\<lambda>(index, present) st.
     if present = 0 then bt_remove index st else bt_insert index present st)"

definition commit_account :: "'code revm \<Rightarrow> address \<times> 'code Account \<Rightarrow> 'code MemDb \<Rightarrow> 'code MemDb" where
  "commit_account rv = (\<lambda>(add, acc) db.
     if rv_is_empty rv acc \<or> ac_selfdestructed acc then
       db\<lparr>db_accounts := bt_remove add (db_accounts db), db_storage := bt_remove add (db_storage db)\<rparr>
     else
       let accs = bt_insert add (commit_info rv (ac_info acc)) (db_accounts db);
           old = (case bt_get (db_storage db) add of None \<Rightarrow> [] | Some st \<Rightarrow> st);
           cleared = (if ac_created acc then [] else old);
           st = fold commit_slot (ac_storage acc) cleared
       in db\<lparr>db_accounts := accs,
             db_storage := (if st = [] then bt_remove add (db_storage db)
                            else bt_insert add st (db_storage db))\<rparr>)"

definition do_commit :: "'code revm \<Rightarrow> (address \<times> 'code Account) list \<Rightarrow> 'code MemDb \<Rightarrow> 'code MemDb" where
  "do_commit rv changes db = fold (commit_account rv) changes db"

text \<open>The reader's view of a slot: \<open>None\<close> means that the value has to be fetched.\<close>

definition cached_slot :: "'code MemDb \<Rightarrow> address \<Rightarrow> u256 \<Rightarrow> u256 option" where
  "cached_slot db a i = (case bt_get (db_storage db) a of None \<Rightarrow> None | Some st \<Rightarrow> bt_get st i)"

lemma commit_slots_get:
  assumes "distinct (map fst ws)"
  shows "bt_get (fold commit_slot ws st) i =
     (case map_of ws i of Some v \<Rightarrow> if v = 0 then None else Some v | None \<Rightarrow> bt_get st i)"
  using assms
proof (induction ws arbitrary: st)
  case (Cons w ws)
  obtain j v where w: "w = (j, v)" by (cases w)
  with Cons have "map_of ws j = None" by (simp add: map_of_eq_None_iff)
  with Cons w show ?case by (auto simp: commit_slot_def split: option.split)
qed simp

lemma commit_account_other:
  assumes "a \<noteq> b"
  shows "bt_get (db_accounts (commit_account rv (b, acc) db)) a = bt_get (db_accounts db) a"
    and "bt_get (db_storage (commit_account rv (b, acc) db)) a = bt_get (db_storage db) a"
  using assms by (auto simp: commit_account_def Let_def)

lemma commit_account_hashes [simp]:
  "db_block_hashes (commit_account rv ch db) = db_block_hashes db"
  by (simp add: commit_account_def Let_def split: prod.split)

lemma do_commit_frame:
  "a \<notin> fst ` set changes \<Longrightarrow> bt_get (db_accounts (do_commit rv changes db)) a = bt_get (db_accounts db) a"
  "a \<notin> fst ` set changes \<Longrightarrow> bt_get (db_storage (do_commit rv changes db)) a = bt_get (db_storage db) a"
  "db_block_hashes (do_commit rv changes db) = db_block_hashes db"
proof (induction changes arbitrary: db)
  case (Cons ch changes)
  { case 1 with Cons(1) show ?case by (cases ch) (simp add: do_commit_def commit_account_other) }
  { case 2 with Cons(2) show ?case by (cases ch) (simp add: do_commit_def commit_account_other) }
  { case 3 with Cons(3) show ?case by (simp add: do_commit_def) }
qed (simp_all add: do_commit_def)

lemma do_commit_at:
  assumes "distinct (map fst changes)" and "(a, acc) \<in> set changes"
  shows "bt_get (db_accounts (do_commit rv changes db)) a =
           bt_get (db_accounts (commit_account rv (a, acc) db)) a"
    and "bt_get (db_storage (do_commit rv changes db)) a =
           bt_get (db_storage (commit_account rv (a, acc) db)) a"
proof -
  obtain xs ys where ch: "changes = xs @ (a, acc) # ys" using assms(2) by (auto simp: in_set_conv_decomp)
  with assms(1) have out: "a \<notin> fst ` set xs" "a \<notin> fst ` set ys" by auto
  have split: "do_commit rv changes db =
      do_commit rv ys (commit_account rv (a, acc) (do_commit rv xs db))"
    by (simp add: ch do_commit_def)
  have same: "bt_get (db_storage (do_commit rv xs db)) a = bt_get (db_storage db) a"
    by (rule do_commit_frame(2) [OF out(1)])
  show "bt_get (db_accounts (do_commit rv changes db)) a =
      bt_get (db_accounts (commit_account rv (a, acc) db)) a"
    unfolding split do_commit_frame(1) [OF out(2)] by (simp add: commit_account_def Let_def)
  show "bt_get (db_storage (do_commit rv changes db)) a =
      bt_get (db_storage (commit_account rv (a, acc) db)) a"
    unfolding split do_commit_frame(2) [OF out(2)] by (simp add: commit_account_def Let_def same)
qed

section \<open>Metadata\<close>

record 'b BlockchainDbMeta =
  mt_chain :: "64 word option"
  mt_block_env :: 'b
  mt_hosts :: "string set"

text \<open>\<open>url_host\<close> is \<open>Url::parse(url).ok().and_then(|url| url.host()\<dots>)\<close>.\<close>

definition meta_host :: "(string \<Rightarrow> string option) \<Rightarrow> string \<Rightarrow> string" where
  "meta_host url_host url = (case url_host url of Some h \<Rightarrow> h | None \<Rightarrow> url)"

definition meta_new :: "(string \<Rightarrow> string option) \<Rightarrow> 'b \<Rightarrow> string \<Rightarrow> 'b BlockchainDbMeta" where
  "meta_new url_host env url = \<lparr>mt_chain = None, mt_block_env = env, mt_hosts = {meta_host url_host url}\<rparr>"

definition with_url :: "(string \<Rightarrow> string option) \<Rightarrow> string \<Rightarrow> 'b BlockchainDbMeta \<Rightarrow> 'b BlockchainDbMeta" where
  "with_url url_host url m = m\<lparr>mt_hosts := insert (meta_host url_host url) (mt_hosts m)\<rparr>"

definition set_chain :: "64 word \<Rightarrow> 'b BlockchainDbMeta \<Rightarrow> 'b BlockchainDbMeta" where
  "set_chain c m = m\<lparr>mt_chain := Some c\<rparr>"

definition set_block_env :: "'b \<Rightarrow> 'b BlockchainDbMeta \<Rightarrow> 'b BlockchainDbMeta" where
  "set_block_env env m = m\<lparr>mt_block_env := env\<rparr>"

definition meta_eq :: "'b BlockchainDbMeta \<Rightarrow> 'b BlockchainDbMeta \<Rightarrow> bool" where
  "meta_eq m m' \<longleftrightarrow> mt_block_env m = mt_block_env m'"

datatype Hosts = Multi "string set" | Single string

fun hosts_from :: "Hosts \<Rightarrow> string set" where
  "hosts_from (Multi hs) = hs"
| "hosts_from (Single h) = {h}"

text \<open>
  \<open>BlockEnvBackwardsCompat\<close>: the fields of the default value that the stored object lacks are
  added to it before it is read; a value that is not an object is read as it is.
\<close>

datatype 'j json = JObject "(string \<times> 'j) list" | JOther 'j

definition fill_missing :: "(string \<times> 'j) list \<Rightarrow> (string \<times> 'j) list \<Rightarrow> (string \<times> 'j) list" where
  "fill_missing defaults obj =
     fold (\<lambda>(key, v) o'. if map_of o' key = None then o' @ [(key, v)] else o') defaults obj"

definition block_env_compat :: "(string \<times> 'j) list \<Rightarrow> ('j json \<Rightarrow> (string, 'b) result) \<Rightarrow> 'j json
    \<Rightarrow> (string, 'b) result" where
  "block_env_compat defaults from_value v =
     from_value (case v of JObject obj \<Rightarrow> JObject (fill_missing defaults obj) | JOther j \<Rightarrow> JOther j)"

section \<open>The cache file\<close>

record ('b, 'code) JsonBlockCacheData =
  jd_meta :: "'b BlockchainDbMeta"
  jd_data :: "'code MemDb"

record ('b, 'code) JsonBlockCacheDB =
  jc_path :: "string option"
  jc_data :: "('b, 'code) JsonBlockCacheData"

definition cache_db_new :: "'b BlockchainDbMeta \<Rightarrow> string option \<Rightarrow> ('b, 'code) JsonBlockCacheDB" where
  "cache_db_new m path = \<lparr>jc_path = path, jc_data = \<lparr>jd_meta = m, jd_data = memdb_default\<rparr>\<rparr>"

definition is_transient :: "('b, 'code) JsonBlockCacheDB \<Rightarrow> bool" where
  "is_transient c \<longleftrightarrow> jc_path c = None"

text \<open>
  \<open>serde_json\<close> and \<open>zstd\<close>; \<open>zstd\<close> is \<open>None\<close> when the feature is off, and else the pair of the
  compressor and the decompressor.
\<close>

record ('b, 'code) codec =
  cd_to_json :: "('b, 'code) JsonBlockCacheData \<Rightarrow> bytes"
  cd_from_json :: "bytes \<Rightarrow> (string, ('b, 'code) JsonBlockCacheData) result"
  cd_zstd :: "((bytes \<Rightarrow> bytes) \<times> (bytes \<Rightarrow> (string, bytes) result)) option"

definition ZSTD_FRAME_MAGIC :: bytes where
  "ZSTD_FRAME_MAGIC = [0x28, 0xB5, 0x2F, 0xFD]"

definition maybe_decompress :: "('b, 'code) codec \<Rightarrow> bytes \<Rightarrow> (string, bytes) result" where
  "maybe_decompress cd raw =
     (if take (length ZSTD_FRAME_MAGIC) raw \<noteq> ZSTD_FRAME_MAGIC then Inr raw
      else case cd_zstd cd of
             Some (_, decode_all) \<Rightarrow> decode_all raw
           | None \<Rightarrow> Inl ''zstd-compressed but the zstd feature is not enabled'')"

lemma magic_length [simp]: "length ZSTD_FRAME_MAGIC = 4"
  by (simp add: ZSTD_FRAME_MAGIC_def)

text \<open>The file system is a map from paths to contents.\<close>

definition cache_load :: "('b, 'code) codec \<Rightarrow> (string \<rightharpoonup> bytes) \<Rightarrow> string
    \<Rightarrow> (string, ('b, 'code) JsonBlockCacheDB) result" where
  "cache_load cd fs path =
     and_then (case fs path of None \<Rightarrow> Inl ''Failed to read cache file'' | Some raw \<Rightarrow> Inr raw) (\<lambda>raw.
     and_then (maybe_decompress cd raw) (\<lambda>json.
     and_then (cd_from_json cd json) (\<lambda>data. Inr \<lparr>jc_path = Some path, jc_data = data\<rparr>)))"

definition cache_flush_to :: "('b, 'code) codec \<Rightarrow> string \<Rightarrow> ('b, 'code) JsonBlockCacheDB
    \<Rightarrow> (string \<rightharpoonup> bytes) \<Rightarrow> (string \<rightharpoonup> bytes)" where
  "cache_flush_to cd path c fs =
     fs(path \<mapsto> (case cd_zstd cd of
                   Some (encode, _) \<Rightarrow> encode (cd_to_json cd (jc_data c))
                 | None \<Rightarrow> cd_to_json cd (jc_data c)))"

definition cache_flush :: "('b, 'code) codec \<Rightarrow> ('b, 'code) JsonBlockCacheDB
    \<Rightarrow> (string \<rightharpoonup> bytes) \<Rightarrow> (string \<rightharpoonup> bytes)" where
  "cache_flush cd c fs = (case jc_path c of None \<Rightarrow> fs | Some p \<Rightarrow> cache_flush_to cd p c fs)"

definition new_db :: "('b, 'code) codec \<Rightarrow> (string \<rightharpoonup> bytes) \<Rightarrow> 'b BlockchainDbMeta \<Rightarrow> string option \<Rightarrow> bool
    \<Rightarrow> ('b, 'code) JsonBlockCacheDB" where
  "new_db cd fs m cache_path skip_check =
     (case (case cache_path of
              None \<Rightarrow> None
            | Some p \<Rightarrow>
                (case cache_load cd fs p of
                   Inl _ \<Rightarrow> None
                 | Inr c \<Rightarrow>
                     if skip_check then Some c
                     else let existing = (jd_meta (jc_data c))\<lparr>mt_hosts :=
                                mt_hosts (jd_meta (jc_data c)) \<union> mt_hosts m\<rparr>;
                              c' = c\<lparr>jc_data := (jc_data c)\<lparr>jd_meta := existing\<rparr>\<rparr>
                          in if meta_eq m existing then Some c' else None)) of
        Some c \<Rightarrow> c
      | None \<Rightarrow> cache_db_new m cache_path)"

section \<open>Properties\<close>

text \<open>
  C11: what a commit leaves in the database, for every address and slot, whatever the order in
  which the changes are applied.  An untouched address keeps its account and slots.  An empty or
  self-destructed account is gone with all its slots.  Any other account is stored with its
  code hash normalised, a created one starts from no slots, a written slot holds the present
  value, and a slot set to zero is dropped.
\<close>

theorem do_commit_spec:
  assumes "distinct (map fst changes)"
    and "\<And>b acc. (b, acc) \<in> set changes \<Longrightarrow> distinct (map fst (ac_storage acc))"
  shows "bt_get (db_accounts (do_commit rv changes db)) a =
      (case map_of changes a of
         None \<Rightarrow> bt_get (db_accounts db) a
       | Some acc \<Rightarrow> if rv_is_empty rv acc \<or> ac_selfdestructed acc then None
                     else Some (commit_info rv (ac_info acc)))
    \<and> cached_slot (do_commit rv changes db) a i =
      (case map_of changes a of
         None \<Rightarrow> cached_slot db a i
       | Some acc \<Rightarrow> if rv_is_empty rv acc \<or> ac_selfdestructed acc then None
           else case map_of (ac_storage acc) i of
                  Some v \<Rightarrow> if v = 0 then None else Some v
                | None \<Rightarrow> if ac_created acc then None else cached_slot db a i)"
proof (cases "map_of changes a")
  case None
  then have "a \<notin> fst ` set changes" by (simp add: map_of_eq_None_iff)
  with None show ?thesis by (simp add: do_commit_frame cached_slot_def)
next
  case (Some acc)
  then have m: "(a, acc) \<in> set changes" by (rule map_of_SomeD)
  note slots = commit_slots_get [OF assms(2) [OF m]]
  have "cached_slot (commit_account rv (a, acc) db) a i =
      (if rv_is_empty rv acc \<or> ac_selfdestructed acc then None
       else bt_get (fold commit_slot (ac_storage acc)
         (if ac_created acc then [] else case bt_get (db_storage db) a of None \<Rightarrow> [] | Some st \<Rightarrow> st)) i)"
    by (simp add: commit_account_def cached_slot_def Let_def)
  with Some show ?thesis
    unfolding cached_slot_def do_commit_at [OF assms(1) m] slots
    by (auto simp: commit_account_def Let_def split: option.split)
qed

definition sample_account :: "nat Account" where
  "sample_account = \<lparr>ac_info = \<lparr>ai_balance = 1, ai_nonce = 0, ai_code_hash = 0, ai_code = None\<rparr>,
     ac_storage = [(3, 0)], ac_created = False, ac_selfdestructed = False\<rparr>"

definition sample_revm :: "nat revm" where
  "sample_revm = \<lparr>rv_is_empty = (\<lambda>acc. ai_balance (ac_info acc) = 0), rv_code_is_empty = (\<lambda>c. c = 0),
     rv_hash_slow = of_nat, rv_keccak_empty = 5\<rparr>"

theorem do_commit_spec_witness:
  "bt_get (db_accounts (do_commit sample_revm [(7, sample_account)] memdb_default)) 7 =
     Some ((ac_info sample_account)\<lparr>ai_code_hash := 5\<rparr>)"
proof -
  have "distinct (map fst [(7 :: address, sample_account)])"
    and "\<And>b acc. (b, acc) \<in> set [(7 :: address, sample_account)] \<Longrightarrow> distinct (map fst (ac_storage acc))"
    by (simp_all add: sample_account_def)
  from do_commit_spec [OF this, where rv = sample_revm and db = memdb_default and a = 7 and i = 3]
  show ?thesis by (simp add: sample_account_def sample_revm_def commit_info_def)
qed


definition sample_cache :: "(nat, nat) JsonBlockCacheDB" where
  "sample_cache = cache_db_new \<lparr>mt_chain = None, mt_block_env = 1, mt_hosts = {}\<rparr> None"

definition sample_codec :: "(nat, nat) codec" where
  "sample_codec = \<lparr>cd_to_json = (\<lambda>_. [0x7B]), cd_from_json = (\<lambda>_. Inr (jc_data sample_cache)), cd_zstd = None\<rparr>"


end
