(* ===== verification/Fork_Backend.thy ===== *)
theory Fork_Backend
  imports Fork_Cache "HOL-Library.Multiset"
begin

text \<open>
  \<open>crates/fork-db/src/backend.rs\<close>: the handler that answers database requests from the cache,
  fetches what is missing from the provider, and bundles requests for the same value into one
  fetch.  A reply channel is a number, and \<open>h_sent\<close> the replies in the order they were sent.  The
  provider is a function from a request in progress to \<open>obs\<close>: what its futures yield when the
  request is polled.
  The locale \<open>handler_inv\<close> is the rule by which a property of the handler survives a poll, and
  \<open>fetch_dedup\<close> the contract of one bundling table.
\<close>

type_synonym sender = nat

datatype 'bid DatabaseError =
  MissingCode b256 | Recv | Send
| GetAccount address string
| GetStorage address u256 string
| GetBlockHash "64 word" string
| GetFullBlock 'bid string
| BlockNotFound 'bid
| GetTransaction b256 string
| AnyRequestError string

fun get_rpc_error :: "'bid DatabaseError \<Rightarrow> string option" where
  "get_rpc_error (GetAccount _ err) = Some err"
| "get_rpc_error (GetStorage _ _ err) = Some err"
| "get_rpc_error (GetBlockHash _ err) = Some err"
| "get_rpc_error (GetFullBlock _ err) = Some err"
| "get_rpc_error (GetTransaction _ err) = Some err"
| "get_rpc_error (AnyRequestError err) = Some err"
| "get_rpc_error _ = None"

datatype ('code, 'bid, 'p) reply =
  RAccount "('bid DatabaseError, 'code AccountInfo) result"
| RStorage "('bid DatabaseError, u256) result"
| RBlockHash "('bid DatabaseError, b256) result"
| RFullBlock "('bid DatabaseError, 'p) result"
| RTransaction "('bid DatabaseError, 'p) result"
| RAny "(string, 'p) result"

datatype FetchMode = Unchecked | SupportsAccInfo | SeparateRequests

text \<open>How far the future of \<open>get_account_req\<close> has come.\<close>

datatype AccountFuture = FetchInit | FetchRace | FetchInfo | FetchTriple

datatype 'bid ProviderRequest =
  PAccount address 'bid AccountFuture
| PStorage address u256 'bid
| PBlockHash "64 word"
| PFullBlock 'bid sender
| PTransaction b256 sender
| PAny nat sender

datatype ('code, 'bid) BackendRequest =
  Basic address sender
| Storage address u256 sender
| BlockHash "64 word" sender
| FullBlock 'bid sender
| Transaction b256 sender
| SetPinnedBlock 'bid
| UpdateAddress "(address \<times> 'code AccountInfo) list"
| UpdateStorage "(address \<times> StorageInfo) list"
| UpdateBlockHash "(u256 \<times> b256) list"
| AnyRequest nat sender

type_synonym account_data = "u256 \<times> 64 word \<times> bytes"

record 'p obs =
  ob_info :: "(string, account_data) result option"
  ob_triple :: "(string, account_data) result option"
  ob_info_first :: bool
  ob_storage :: "(string, u256) result option"
  ob_block_hash :: "(string, b256 option) result option"
  ob_full_block :: "(string, 'p option) result option"
  ob_transaction :: "(string, 'p option) result option"
  ob_any :: "(string, 'p) result option"

text \<open>What the handler uses of its libraries.\<close>

record ('code, 'bid) chain_ops =
  co_keccak :: "bytes \<Rightarrow> b256"
  co_keccak_empty :: b256
  co_new_raw :: "bytes \<Rightarrow> 'code"
  co_default_block :: 'bid

type_synonym 'k listeners = "('k \<times> sender list) list"   \<comment> \<open>an \<open>entry_push\<close> table\<close>

record ('code, 'bid, 'p) Handler =
  h_db :: "'code MemDb"
  h_pending :: "'bid ProviderRequest list"
  h_account_requests :: "address listeners"
  h_storage_requests :: "(address \<times> u256) listeners"
  h_block_requests :: "64 word listeners"
  h_queued :: "('code, 'bid) BackendRequest list"
  h_block_id :: "'bid option"
  h_mode :: FetchMode
  h_sent :: "(sender \<times> ('code, 'bid, 'p) reply) list"

definition handler_new :: "'code MemDb \<Rightarrow> 'bid option \<Rightarrow> ('code, 'bid, 'p) Handler" where
  "handler_new db block_id =
     \<lparr>h_db = db, h_pending = [], h_account_requests = [], h_storage_requests = [],
      h_block_requests = [], h_queued = [], h_block_id = block_id, h_mode = Unchecked, h_sent = []\<rparr>"

section \<open>Requests\<close>

definition block_or_default :: "('code, 'bid) chain_ops \<Rightarrow> ('code, 'bid, 'p) Handler \<Rightarrow> 'bid" where
  "block_or_default ops h = (case h_block_id h of Some b \<Rightarrow> b | None \<Rightarrow> co_default_block ops)"

definition push_pending :: "'bid ProviderRequest \<Rightarrow> ('code, 'bid, 'p) Handler \<Rightarrow> ('code, 'bid, 'p) Handler" where
  "push_pending r h = h\<lparr>h_pending := h_pending h @ [r]\<rparr>"

definition send :: "sender list \<Rightarrow> ('code, 'bid, 'p) reply \<Rightarrow> ('code, 'bid, 'p) Handler
    \<Rightarrow> ('code, 'bid, 'p) Handler" where
  "send ls r h = h\<lparr>h_sent := h_sent h @ map (\<lambda>l. (l, r)) ls\<rparr>"

definition get_account_req :: "('code, 'bid) chain_ops \<Rightarrow> address \<Rightarrow> ('code, 'bid, 'p) Handler
    \<Rightarrow> 'bid ProviderRequest" where
  "get_account_req ops a h = PAccount a (block_or_default ops h) FetchInit"

definition request_account :: "('code, 'bid) chain_ops \<Rightarrow> address \<Rightarrow> sender
    \<Rightarrow> ('code, 'bid, 'p) Handler \<Rightarrow> ('code, 'bid, 'p) Handler" where
  "request_account ops a s h =
     (let h' = h\<lparr>h_account_requests := entry_push a s (h_account_requests h)\<rparr>
      in if vacant a (h_account_requests h) then push_pending (get_account_req ops a h) h' else h')"

definition request_account_storage :: "('code, 'bid) chain_ops \<Rightarrow> address \<Rightarrow> u256 \<Rightarrow> sender
    \<Rightarrow> ('code, 'bid, 'p) Handler \<Rightarrow> ('code, 'bid, 'p) Handler" where
  "request_account_storage ops a i s h =
     (let h' = h\<lparr>h_storage_requests := entry_push (a, i) s (h_storage_requests h)\<rparr>
      in if vacant (a, i) (h_storage_requests h)
         then push_pending (PStorage a i (block_or_default ops h)) h' else h')"

definition request_hash :: "64 word \<Rightarrow> sender \<Rightarrow> ('code, 'bid, 'p) Handler \<Rightarrow> ('code, 'bid, 'p) Handler" where
  "request_hash n s h =
     (let h' = h\<lparr>h_block_requests := entry_push n s (h_block_requests h)\<rparr>
      in if vacant n (h_block_requests h) then push_pending (PBlockHash n) h' else h')"

definition request_full_block :: "'bid \<Rightarrow> sender \<Rightarrow> ('code, 'bid, 'p) Handler \<Rightarrow> ('code, 'bid, 'p) Handler" where
  "request_full_block b s h = push_pending (PFullBlock b s) h"

definition request_transaction :: "b256 \<Rightarrow> sender \<Rightarrow> ('code, 'bid, 'p) Handler \<Rightarrow> ('code, 'bid, 'p) Handler" where
  "request_transaction t s h = push_pending (PTransaction t s) h"

fun on_request :: "('code, 'bid) chain_ops \<Rightarrow> ('code, 'bid) BackendRequest
    \<Rightarrow> ('code, 'bid, 'p) Handler \<Rightarrow> ('code, 'bid, 'p) Handler" where
  "on_request ops (Basic a s) h =
     (case bt_get (db_accounts (h_db h)) a of
        Some basic \<Rightarrow> send [s] (RAccount (Inr basic)) h
      | None \<Rightarrow> request_account ops a s h)"
| "on_request ops (BlockHash n s) h =
     (case bt_get (db_block_hashes (h_db h)) (ucast n) of
        Some hash \<Rightarrow> send [s] (RBlockHash (Inr hash)) h
      | None \<Rightarrow> request_hash n s h)"
| "on_request ops (FullBlock b s) h = request_full_block b s h"
| "on_request ops (Transaction t s) h = request_transaction t s h"
| "on_request ops (Storage a i s) h =
     (case cached_slot (h_db h) a i of
        Some v \<Rightarrow> send [s] (RStorage (Inr v)) h
      | None \<Rightarrow> request_account_storage ops a i s h)"
| "on_request ops (SetPinnedBlock b) h = h\<lparr>h_block_id := Some b\<rparr>"
| "on_request ops (UpdateAddress ds) h = h\<lparr>h_db := (h_db h)\<lparr>db_accounts :=
     fold (\<lambda>(a, d). bt_insert a d) ds (db_accounts (h_db h))\<rparr>\<rparr>"
| "on_request ops (UpdateStorage ds) h = h\<lparr>h_db := (h_db h)\<lparr>db_storage :=
     fold (\<lambda>(a, d). bt_insert a d) ds (db_storage (h_db h))\<rparr>\<rparr>"
| "on_request ops (UpdateBlockHash ds) h = h\<lparr>h_db := (h_db h)\<lparr>db_block_hashes :=
     fold (\<lambda>(b, d). bt_insert b d) ds (db_block_hashes (h_db h))\<rparr>\<rparr>"
| "on_request ops (AnyRequest fut s) h = push_pending (PAny fut s) h"

section \<open>Futures\<close>

text \<open>
  The future of \<open>get_account_req\<close>, polled once: the mode it leaves, and either the point it
  waits at or its result.  \<open>select!\<close> polls its two branches in a random order.
\<close>

definition poll_triple :: "FetchMode \<Rightarrow> 'p obs
    \<Rightarrow> FetchMode \<times> (AccountFuture + (string, account_data) result)" where
  "poll_triple mode ob = (mode, case ob_triple ob of None \<Rightarrow> Inl FetchTriple | Some r \<Rightarrow> Inr r)"

definition poll_race :: "FetchMode \<Rightarrow> 'p obs
    \<Rightarrow> FetchMode \<times> (AccountFuture + (string, account_data) result)" where
  "poll_race mode ob =
     (let by_info = (case ob_info ob of
            None \<Rightarrow> None
          | Some (Inr v) \<Rightarrow> Some (SupportsAccInfo, Inr (Inr v))
          | Some (Inl _) \<Rightarrow> Some (poll_triple SeparateRequests ob));
          by_triple = (case ob_triple ob of
            None \<Rightarrow> None
          | Some (Inr v) \<Rightarrow> Some (SeparateRequests, Inr (Inr v))
          | Some (Inl e) \<Rightarrow> Some (mode, Inr (Inl e)))
      in case (if ob_info_first ob then (by_info, by_triple) else (by_triple, by_info)) of
           (Some r, _) \<Rightarrow> r
         | (None, Some r) \<Rightarrow> r
         | (None, None) \<Rightarrow> (mode, Inl FetchRace))"

definition poll_info :: "FetchMode \<Rightarrow> 'p obs
    \<Rightarrow> FetchMode \<times> (AccountFuture + (string, account_data) result)" where
  "poll_info mode ob =
     (case ob_info ob of
        None \<Rightarrow> (mode, Inl FetchInfo)
      | Some (Inr v) \<Rightarrow> (mode, Inr (Inr v))
      | Some (Inl _) \<Rightarrow> poll_triple SeparateRequests ob)"

fun poll_account :: "FetchMode \<Rightarrow> AccountFuture \<Rightarrow> 'p obs
    \<Rightarrow> FetchMode \<times> (AccountFuture + (string, account_data) result)" where
  "poll_account mode FetchInit ob =
     (case mode of Unchecked \<Rightarrow> poll_race mode ob
      | SupportsAccInfo \<Rightarrow> poll_info mode ob
      | SeparateRequests \<Rightarrow> poll_triple mode ob)"
| "poll_account mode FetchRace ob = poll_race mode ob"
| "poll_account mode FetchInfo ob = poll_info mode ob"
| "poll_account mode FetchTriple ob = poll_triple mode ob"

definition account_info :: "('code, 'bid) chain_ops \<Rightarrow> account_data \<Rightarrow> 'code AccountInfo" where
  "account_info ops = (\<lambda>(balance, nonce, code).
     let (code, code_hash) = (if code = [] then ([], co_keccak_empty ops) else (code, co_keccak ops code))
     in \<lparr>ai_balance = balance, ai_nonce = nonce, ai_code_hash = code_hash,
         ai_code = Some (co_new_raw ops code)\<rparr>)"

section \<open>Polling a request in progress\<close>

definition finish_account :: "('code, 'bid) chain_ops \<Rightarrow> address \<Rightarrow> (string, account_data) result
    \<Rightarrow> ('code, 'bid, 'p) Handler \<Rightarrow> ('code, 'bid, 'p) Handler" where
  "finish_account ops a resp h =
     (case entry_remove a (h_account_requests h) of (ls, t) \<Rightarrow>
        (case resp of
           Inl err \<Rightarrow> send ls (RAccount (Inl (GetAccount a err))) (h\<lparr>h_account_requests := t\<rparr>)
         | Inr data \<Rightarrow>
             (let acc = account_info ops data
              in send ls (RAccount (Inr acc)) (h\<lparr>h_account_requests := t, h_db := do_insert_account a acc (h_db h)\<rparr>))))"

definition insert_slot :: "address \<Rightarrow> u256 \<Rightarrow> u256 \<Rightarrow> 'code MemDb \<Rightarrow> 'code MemDb" where
  "insert_slot a i v db =
     (let old = (case bt_get (db_storage db) a of None \<Rightarrow> [] | Some st \<Rightarrow> st)
      in db\<lparr>db_storage := bt_insert a (bt_insert i v old) (db_storage db)\<rparr>)"

definition finish_storage :: "address \<Rightarrow> u256 \<Rightarrow> (string, u256) result
    \<Rightarrow> ('code, 'bid, 'p) Handler \<Rightarrow> ('code, 'bid, 'p) Handler" where
  "finish_storage a i resp h =
     (case entry_remove (a, i) (h_storage_requests h) of (ls, t) \<Rightarrow>
        (case resp of
           Inl err \<Rightarrow> send ls (RStorage (Inl (GetStorage a i err))) (h\<lparr>h_storage_requests := t\<rparr>)
         | Inr v \<Rightarrow> send ls (RStorage (Inr v)) (h\<lparr>h_storage_requests := t, h_db := insert_slot a i v (h_db h)\<rparr>)))"

definition finish_hash :: "64 word \<Rightarrow> (string, b256) result
    \<Rightarrow> ('code, 'bid, 'p) Handler \<Rightarrow> ('code, 'bid, 'p) Handler" where
  "finish_hash n resp h =
     (case entry_remove n (h_block_requests h) of (ls, t) \<Rightarrow>
        (case resp of
           Inl err \<Rightarrow> send ls (RBlockHash (Inl (GetBlockHash n err))) (h\<lparr>h_block_requests := t\<rparr>)
         | Inr v \<Rightarrow> send ls (RBlockHash (Inr v)) (h\<lparr>h_block_requests := t,
             h_db := (h_db h)\<lparr>db_block_hashes := bt_insert (ucast n) v (db_block_hashes (h_db h))\<rparr>\<rparr>)))"

text \<open>Inside the futures of \<open>request_hash\<close> and \<open>request_transaction\<close>.\<close>

definition hash_result :: "('code, 'bid) chain_ops \<Rightarrow> (string, b256 option) result \<Rightarrow> (string, b256) result" where
  "hash_result ops resp = (case resp of
     Inr (Some hash) \<Rightarrow> Inr hash | Inr None \<Rightarrow> Inr (co_keccak_empty ops) | Inl err \<Rightarrow> Inl err)"

definition transaction_result :: "(string, 'p option) result \<Rightarrow> (string, 'p) result" where
  "transaction_result resp = (case resp of
     Inr (Some tx) \<Rightarrow> Inr tx | Inr None \<Rightarrow> Inl ''could not get transaction'' | Inl err \<Rightarrow> Inl err)"

text \<open>\<open>None\<close> means that the request is done, \<open>Some\<close> that it goes back into the pool.\<close>

fun poll_request :: "('code, 'bid) chain_ops \<Rightarrow> 'p obs \<Rightarrow> 'bid ProviderRequest
    \<Rightarrow> ('code, 'bid, 'p) Handler \<Rightarrow> 'bid ProviderRequest option \<times> ('code, 'bid, 'p) Handler" where
  "poll_request ops ob (PAccount a b fut) h =
     (case poll_account (h_mode h) fut ob of (mode, r) \<Rightarrow>
        (case r of Inl fut' \<Rightarrow> (Some (PAccount a b fut'), h\<lparr>h_mode := mode\<rparr>)
         | Inr resp \<Rightarrow> (None, finish_account ops a resp (h\<lparr>h_mode := mode\<rparr>))))"
| "poll_request ops ob (PStorage a i b) h =
     (case ob_storage ob of None \<Rightarrow> (Some (PStorage a i b), h)
      | Some resp \<Rightarrow> (None, finish_storage a i resp h))"
| "poll_request ops ob (PBlockHash n) h =
     (case ob_block_hash ob of None \<Rightarrow> (Some (PBlockHash n), h)
      | Some resp \<Rightarrow> (None, finish_hash n (hash_result ops resp) h))"
| "poll_request ops ob (PFullBlock b s) h =
     (case ob_full_block ob of None \<Rightarrow> (Some (PFullBlock b s), h)
      | Some resp \<Rightarrow> (None, send [s] (RFullBlock (case resp of
            Inr (Some blk) \<Rightarrow> Inr blk | Inr None \<Rightarrow> Inl (BlockNotFound b)
          | Inl err \<Rightarrow> Inl (GetFullBlock b err))) h))"
| "poll_request ops ob (PTransaction t s) h =
     (case ob_transaction ob of None \<Rightarrow> (Some (PTransaction t s), h)
      | Some resp \<Rightarrow> (None, send [s] (RTransaction (case transaction_result resp of
            Inr tx \<Rightarrow> Inr tx | Inl err \<Rightarrow> Inl (GetTransaction t err))) h))"
| "poll_request ops ob (PAny fut s) h =
     (case ob_any ob of None \<Rightarrow> (Some (PAny fut s), h)
      | Some resp \<Rightarrow> (None, send [s] (RAny resp) h))"

definition swap_remove :: "nat \<Rightarrow> 'a list \<Rightarrow> 'a list" where
  "swap_remove n xs = (if Suc n = length xs then butlast xs else (butlast xs)[n := last xs])"

text \<open>\<open>for n in (0..pending_requests.len()).rev()\<close>.\<close>

type_synonym ('bid, 'p) provider = "'bid ProviderRequest \<Rightarrow> 'p obs"

definition poll_at :: "('code, 'bid) chain_ops \<Rightarrow> ('bid, 'p) provider \<Rightarrow> nat
    \<Rightarrow> ('code, 'bid, 'p) Handler \<Rightarrow> ('code, 'bid, 'p) Handler" where
  "poll_at ops pv n h =
     (let request = h_pending h ! n
      in case poll_request ops (pv request) request (h\<lparr>h_pending := swap_remove n (h_pending h)\<rparr>) of
           (None, h') \<Rightarrow> h'
         | (Some request', h') \<Rightarrow> push_pending request' h')"

fun poll_pass :: "('code, 'bid) chain_ops \<Rightarrow> (nat \<Rightarrow> ('bid, 'p) provider) \<Rightarrow> nat
    \<Rightarrow> ('code, 'bid, 'p) Handler \<Rightarrow> ('code, 'bid, 'p) Handler" where
  "poll_pass ops obs 0 h = h"
| "poll_pass ops obs (Suc n) h = poll_pass ops obs n (poll_at ops (obs n) n h)"

definition poll_all :: "('code, 'bid) chain_ops \<Rightarrow> (nat \<Rightarrow> ('bid, 'p) provider)
    \<Rightarrow> ('code, 'bid, 'p) Handler \<Rightarrow> ('code, 'bid, 'p) Handler" where
  "poll_all ops obs h = poll_pass ops obs (length (h_pending h)) h"

definition drain_queue :: "('code, 'bid) chain_ops \<Rightarrow> ('code, 'bid, 'p) Handler \<Rightarrow> ('code, 'bid, 'p) Handler" where
  "drain_queue ops h = fold (on_request ops) (h_queued h) (h\<lparr>h_queued := []\<rparr>)"

text \<open>
  One wakeup of the handler.  Each element of \<open>arrivals\<close> is what one round of the outer loop
  sees: the requests that are ready in the channel, whether it is then closed, and what the
  provider's futures yield.  The result is whether the handler has finished (\<open>Poll::Ready\<close>),
  the rounds not reached, and the handler; a round beyond the list finds nothing new.
\<close>

type_synonym ('code, 'bid, 'p) arrival =
  "('code, 'bid) BackendRequest list \<times> bool \<times> (nat \<Rightarrow> ('bid, 'p) provider)"

fun poll_handler :: "('code, 'bid) chain_ops \<Rightarrow> (nat \<Rightarrow> ('bid, 'p) provider) \<Rightarrow> ('code, 'bid, 'p) arrival list
    \<Rightarrow> ('code, 'bid, 'p) Handler
    \<Rightarrow> bool \<times> ('code, 'bid, 'p) arrival list \<times> ('code, 'bid, 'p) Handler" where
  "poll_handler ops obs [] h = (False, [], poll_all ops obs (drain_queue ops h))"
| "poll_handler ops obs ((batch, closed, ob) # rest) h =
     (let h1 = (drain_queue ops h)\<lparr>h_queued := batch\<rparr>
      in if closed then (True, rest, h1)
         else let h2 = poll_all ops ob h1
              in if h_queued h2 = [] then (False, rest, h2) else poll_handler ops obs rest h2)"

section \<open>Frame facts\<close>

lemma send_simps [simp]:
  "h_db (send ls r h) = h_db h" "h_pending (send ls r h) = h_pending h"
  "h_account_requests (send ls r h) = h_account_requests h"
  "h_storage_requests (send ls r h) = h_storage_requests h"
  "h_block_requests (send ls r h) = h_block_requests h" "h_queued (send ls r h) = h_queued h"
  "h_block_id (send ls r h) = h_block_id h"
  "h_sent (send ls r h) = h_sent h @ map (\<lambda>l. (l, r)) ls"
  by (simp_all add: send_def)

lemma push_pending_simps [simp]:
  "h_db (push_pending r h) = h_db h" "h_pending (push_pending r h) = h_pending h @ [r]"
  "h_account_requests (push_pending r h) = h_account_requests h"
  "h_storage_requests (push_pending r h) = h_storage_requests h"
  "h_block_requests (push_pending r h) = h_block_requests h"
  "h_queued (push_pending r h) = h_queued h" "h_block_id (push_pending r h) = h_block_id h"
  "h_sent (push_pending r h) = h_sent h"
  by (simp_all add: push_pending_def)

lemmas finish_defs = finish_account_def finish_storage_def finish_hash_def

lemma poll_request_queued: "h_queued (snd (poll_request ops ob r h)) = h_queued h"
  by (cases r) (auto simp: finish_defs Let_def split: option.split sum.split prod.split)

lemma poll_request_pending: "h_pending (snd (poll_request ops ob r h)) = h_pending h"
  by (cases r) (auto simp: finish_defs Let_def split: option.split sum.split prod.split)

lemma poll_request_pin: "h_block_id (snd (poll_request ops ob r h)) = h_block_id h"
  by (cases r) (auto simp: finish_defs Let_def split: option.split sum.split prod.split)

lemma poll_at_queued: "h_queued (poll_at ops pv n h) = h_queued h"
  using poll_request_queued [of ops "pv (h_pending h ! n)" "h_pending h ! n" "h\<lparr>h_pending := swap_remove n (h_pending h)\<rparr>"]
  by (auto simp: poll_at_def Let_def split: prod.split option.split)

lemma poll_pass_queued: "h_queued (poll_pass ops obs n h) = h_queued h"
  by (induction n arbitrary: h) (simp_all add: poll_at_queued)

lemma poll_all_queued [simp]: "h_queued (poll_all ops obs h) = h_queued h"
  by (simp add: poll_all_def poll_pass_queued)

lemma swap_remove_mset:
  assumes "n < length xs" shows "mset xs = add_mset (xs ! n) (mset (swap_remove n xs))"
proof (cases "Suc n = length xs")
  case True
  then have "xs = butlast xs @ [xs ! n]"
    by (metis append_butlast_last_id assms diff_Suc_1 last_conv_nth list.size(3) not_less_zero)
  then have "mset xs = mset (butlast xs @ [xs ! n])" by simp
  with True show ?thesis by (simp add: swap_remove_def)
next
  case False
  with assms have n: "n < length (butlast xs)" and ne: "xs \<noteq> []" by auto
  have xs: "mset xs = add_mset (last xs) (mset (butlast xs))"
    using ne by (metis append_butlast_last_id mset.simps(1) mset.simps(2) mset_append union_mset_add_mset_right add.right_neutral)
  have nth: "butlast xs ! n = xs ! n" using n by (rule nth_butlast)
  have "xs ! n \<in># mset (butlast xs)" using n nth by (metis nth_mem_mset)
  then show ?thesis
    using False n xs nth by (simp add: swap_remove_def mset_update)
qed

lemma swap_remove_take: "take n (swap_remove n xs) = take n xs" if "n < length xs"
  using that by (cases "Suc n = length xs")
    (auto simp: swap_remove_def take_butlast butlast_conv_take)

lemma swap_remove_length: "n < length xs \<Longrightarrow> length (swap_remove n xs) = length xs - 1"
  by (simp add: swap_remove_def)

lemma poll_at_length:
  assumes "n < length (h_pending h)"
  shows "n \<le> length (h_pending (poll_at ops pv n h)) \<and>
     take n (h_pending (poll_at ops pv n h)) = take n (h_pending h)"
  using poll_request_pending [of ops "pv (h_pending h ! n)" "h_pending h ! n" "h\<lparr>h_pending := swap_remove n (h_pending h)\<rparr>"]
    swap_remove_length [OF assms] swap_remove_take [OF assms] assms
  by (auto simp: poll_at_def Let_def split: prod.split option.split)

section \<open>Properties that survive a poll\<close>

text \<open>
  \<open>inv c h\<close>: a property of the handler that may count the requests received so far (\<open>c\<close>).
\<close>

definition request_senders :: "('code, 'bid) BackendRequest \<Rightarrow> sender multiset" where
  "request_senders r = (case r of
     Basic _ s \<Rightarrow> {#s#} | Storage _ _ s \<Rightarrow> {#s#} | BlockHash _ s \<Rightarrow> {#s#} | FullBlock _ s \<Rightarrow> {#s#}
   | Transaction _ s \<Rightarrow> {#s#} | AnyRequest _ s \<Rightarrow> {#s#} | _ \<Rightarrow> {#})"

definition senders :: "('code, 'bid) BackendRequest list \<Rightarrow> sender multiset" where
  "senders rs = sum_list (map request_senders rs)"

definition arrival_senders :: "('code, 'bid, 'p) arrival list \<Rightarrow> sender multiset" where
  "arrival_senders as = sum_list (map (\<lambda>a. senders (fst a)) as)"

locale handler_inv =
  fixes ops :: "('code, 'bid) chain_ops"
    and inv :: "sender multiset \<Rightarrow> ('code, 'bid, 'p) Handler \<Rightarrow> bool"
    and ok_request :: "('code, 'bid) BackendRequest \<Rightarrow> bool"
    and ok_provider :: "('bid, 'p) provider \<Rightarrow> bool"
  assumes serve: "inv c (h\<lparr>h_queued := r # q\<rparr>) \<Longrightarrow> inv c (on_request ops r (h\<lparr>h_queued := q\<rparr>))"
    and receive: "inv c h \<Longrightarrow> h_queued h = [] \<Longrightarrow> (\<And>r. r \<in> set batch \<Longrightarrow> ok_request r) \<Longrightarrow>
      inv (c + senders batch) (h\<lparr>h_queued := batch\<rparr>)"
    and poll_one: "inv c h \<Longrightarrow> n < length (h_pending h) \<Longrightarrow> ok_provider pv \<Longrightarrow>
      inv c (poll_at ops pv n h)"
begin

lemma drain_fold:
  "inv c (h\<lparr>h_queued := q\<rparr>) \<Longrightarrow> inv c (fold (on_request ops) q (h\<lparr>h_queued := []\<rparr>)) \<and>
     h_queued (fold (on_request ops) q (h\<lparr>h_queued := []\<rparr>)) = []"
proof (induction q arbitrary: h)
  case (Cons r q)
  have step: "on_request ops r (h\<lparr>h_queued := q\<rparr>) = (on_request ops r (h\<lparr>h_queued := []\<rparr>))\<lparr>h_queued := q\<rparr>"
    and nil: "(on_request ops r (h\<lparr>h_queued := []\<rparr>))\<lparr>h_queued := []\<rparr> = on_request ops r (h\<lparr>h_queued := []\<rparr>)"
    by (cases r; simp add: send_def request_account_def request_account_storage_def request_hash_def
        request_full_block_def request_transaction_def push_pending_def get_account_req_def
        block_or_default_def Let_def split: option.split)+
  have "inv c ((on_request ops r (h\<lparr>h_queued := []\<rparr>))\<lparr>h_queued := q\<rparr>)"
    using serve [OF Cons.prems] unfolding step .
  from Cons.IH [OF this] show ?case by (simp add: nil)
qed simp

lemma drain: "inv c h \<Longrightarrow> inv c (drain_queue ops h) \<and> h_queued (drain_queue ops h) = []"
  using drain_fold [where c = c and h = h and q = "h_queued h"] by (simp add: drain_queue_def)

lemma pass:
  "inv c h \<Longrightarrow> n \<le> length (h_pending h) \<Longrightarrow> (\<And>k. ok_provider (obs k)) \<Longrightarrow> inv c (poll_pass ops obs n h)"
proof (induction n arbitrary: h)
  case (Suc n)
  then have n: "n < length (h_pending h)" by simp
  with Suc.prems have "inv c (poll_at ops (obs n) n h)" by (blast intro: poll_one)
  with Suc.IH poll_at_length [OF n] Suc.prems(3) show ?case by simp
qed simp

lemma poll_all: "inv c h \<Longrightarrow> (\<And>k. ok_provider (obs k)) \<Longrightarrow> inv c (poll_all ops obs h)"
  by (simp add: poll_all_def pass)

lemma poll:
  assumes "inv c h" and "\<And>k. ok_provider (obs k)"
    and "\<And>batch closed ob. (batch, closed, ob) \<in> set arrivals \<Longrightarrow>
      (\<forall>r \<in> set batch. ok_request r) \<and> (\<forall>k. ok_provider (ob k))"
  shows "case poll_handler ops obs arrivals h of (done, rest, h') \<Rightarrow>
     \<exists>d. arrival_senders arrivals = d + arrival_senders rest \<and> inv (c + d) h'"
  using assms
proof (induction arrivals arbitrary: c h)
  case Nil
  then show ?case using drain [of c h] poll_all by (simp add: arrival_senders_def)
next
  case (Cons a rest)
  obtain batch closed ob where a: "a = (batch, closed, ob)" by (cases a)
  let ?h1 = "(drain_queue ops h)\<lparr>h_queued := batch\<rparr>"
  have ok: "\<And>r. r \<in> set batch \<Longrightarrow> ok_request r" "\<And>k. ok_provider (ob k)"
    using Cons.prems(3) [of batch closed ob] by (auto simp: a)
  have h1: "inv (c + senders batch) ?h1"
    using drain [OF Cons.prems(1)] ok(1) by (blast intro: receive)
  then have h2: "inv (c + senders batch) (poll_all ops ob ?h1)"
    by (rule poll_all) (rule ok(2))
  have plus: "arrival_senders (a # rest) = senders batch + arrival_senders rest"
    by (simp add: arrival_senders_def a)
  show ?case
  proof (cases "closed \<or> batch = []")
    case True
    with h1 h2 plus show ?thesis by (auto simp: a Let_def)
  next
    case False
    have rest: "\<And>batch closed ob. (batch, closed, ob) \<in> set rest \<Longrightarrow>
        (\<forall>r \<in> set batch. ok_request r) \<and> (\<forall>k. ok_provider (ob k))"
      using Cons.prems(3) by (meson list.set_intros(2))
    have "poll_handler ops obs (a # rest) h = poll_handler ops obs rest (poll_all ops ob ?h1)"
      using False by (simp add: a Let_def)
    moreover have "case poll_handler ops obs rest (poll_all ops ob ?h1) of (done, rest', h') \<Rightarrow>
        \<exists>d. arrival_senders rest = d + arrival_senders rest' \<and> inv (c + senders batch + d) h'"
      using rest by (intro Cons.IH h2 Cons.prems(2))
    ultimately show ?thesis using plus by (auto simp: add.assoc split: prod.splits)
  qed
qed

end

section \<open>One fetch per value\<close>

fun account_key :: "'bid ProviderRequest \<Rightarrow> address option" where
  "account_key (PAccount a _ _) = Some a"
| "account_key _ = None"

fun storage_key :: "'bid ProviderRequest \<Rightarrow> (address \<times> u256) option" where
  "storage_key (PStorage a i _) = Some (a, i)"
| "storage_key _ = None"

fun hash_key :: "'bid ProviderRequest \<Rightarrow> 64 word option" where
  "hash_key (PBlockHash n) = Some n"
| "hash_key _ = None"

definition keys_of :: "('r \<Rightarrow> 'k option) \<Rightarrow> 'r multiset \<Rightarrow> 'k multiset" where
  "keys_of key M = image_mset (\<lambda>r. the (key r)) (filter_mset (\<lambda>r. key r \<noteq> None) M)"

lemma keys_of_add [simp]:
  "keys_of key (add_mset r M) = (case key r of None \<Rightarrow> keys_of key M | Some k \<Rightarrow> add_mset k (keys_of key M))"
  by (simp add: keys_of_def split: option.split)

text \<open>The keys with listeners are exactly the keys being fetched, each once.\<close>

definition table_ok :: "('r \<Rightarrow> 'k option) \<Rightarrow> 'k listeners \<Rightarrow> 'r multiset \<Rightarrow> bool" where
  "table_ok key t M \<longleftrightarrow> distinct (map fst t) \<and> keys_of key M = mset (map fst t) \<and> [] \<notin> snd ` set t"

lemma table_push:
  assumes "table_ok key t M"
  shows "key r = Some k \<Longrightarrow> vacant k t \<Longrightarrow> table_ok key (entry_push k s t) (add_mset r M)"
    and "\<not> vacant k t \<Longrightarrow> table_ok key (entry_push k s t) M"
  using assms entry_push_filled [of t k s]
  by (auto simp: table_ok_def entry_push_keys vacant_iff)

lemma table_remove:
  assumes "table_ok key t (add_mset r M)" and "key r = Some k"
  shows "table_ok key (snd (entry_remove k t)) M"
proof -
  have d: "distinct (map fst t)" and m: "add_mset k (keys_of key M) = mset (map fst t)"
    using assms by (simp_all add: table_ok_def)
  have "mset (filter (\<lambda>x. x \<noteq> k) (map fst t)) = filter_mset (\<lambda>x. x \<noteq> k) (add_mset k (keys_of key M))"
    unfolding m by (simp add: mset_filter)
  moreover have "k \<notin># keys_of key M"
  proof -
    have "count (mset (map fst t)) k \<le> 1" using d by (simp add: distinct_count_atmost_1)
    then show ?thesis unfolding m [symmetric] by (simp add: not_in_iff)
  qed
  then have "filter_mset (\<lambda>x. x \<noteq> k) (keys_of key M) = keys_of key M"
    by (intro multiset_eqI) (auto simp: not_in_iff)
  moreover have "[] \<notin> snd ` set (snd (entry_remove k t))"
    using assms(1) entry_remove_subset [of k t] by (auto simp: table_ok_def image_iff)
  moreover have "distinct (map fst (snd (entry_remove k t)))"
    using d by (simp add: entry_remove_keys)
  ultimately show ?thesis
    using d by (simp add: table_ok_def entry_remove_keys)
qed

lemma table_other: "key r = None \<Longrightarrow> table_ok key t (add_mset r M) \<longleftrightarrow> table_ok key t M"
  by (simp add: table_ok_def)

lemma table_same: "key r = key r' \<Longrightarrow> table_ok key t (add_mset r M) \<longleftrightarrow> table_ok key t (add_mset r' M)"
  by (simp add: table_ok_def)

definition single_flight :: "('code, 'bid, 'p) Handler \<Rightarrow> bool" where
  "single_flight h \<longleftrightarrow> table_ok account_key (h_account_requests h) (mset (h_pending h)) \<and>
     table_ok storage_key (h_storage_requests h) (mset (h_pending h)) \<and>
     table_ok hash_key (h_block_requests h) (mset (h_pending h))"

lemma poll_at_induct:
  assumes n: "n < length (h_pending h)"
    and step: "\<And>r ps. mset (h_pending h) = add_mset r (mset ps) \<Longrightarrow> r = h_pending h ! n \<Longrightarrow>
      P (case poll_request ops (pv r) r (h\<lparr>h_pending := ps\<rparr>) of (None, h') \<Rightarrow> h' | (Some r', h') \<Rightarrow> push_pending r' h')"
  shows "P (poll_at ops pv n h)"
  using step [OF swap_remove_mset [OF n] refl] by (simp add: poll_at_def Let_def)

lemmas request_defs = request_account_def request_account_storage_def request_hash_def
  request_full_block_def request_transaction_def get_account_req_def

lemma single_flight_request: "single_flight h \<Longrightarrow> single_flight (on_request ops r h)"
  by (cases r) (auto simp: single_flight_def request_defs table_push table_other Let_def
      split: option.split)

lemma single_flight_poll:
  assumes "single_flight h" and "mset (h_pending h) = add_mset r (mset ps)"
  shows "single_flight (case poll_request ops ob r (h\<lparr>h_pending := ps\<rparr>) of
     (None, h') \<Rightarrow> h' | (Some r', h') \<Rightarrow> push_pending r' h')"
proof (cases r)
  case (PAccount a b f)
  note rem = table_remove [where key = account_key and r = "PAccount a b f" and k = a, simplified]
    and same = table_same [where key = account_key and r = "PAccount a b f", THEN iffD1]
  from PAccount assms show ?thesis
    by (auto simp: single_flight_def finish_defs table_other Let_def dest: rem intro: same
        split: sum.split prod.split)
next
  case (PStorage a i b)
  note rem = table_remove [where key = storage_key and r = "PStorage a i b" and k = "(a, i)", simplified]
  from PStorage assms show ?thesis
    by (auto simp: single_flight_def finish_defs table_other Let_def dest: rem
        split: option.split sum.split prod.split)
next
  case (PBlockHash n)
  note rem = table_remove [where key = hash_key and r = "PBlockHash n" and k = n, simplified]
  from PBlockHash assms show ?thesis
    by (auto simp: single_flight_def finish_defs table_other Let_def dest: rem
        split: option.split sum.split prod.split)
qed (use assms in \<open>auto simp: single_flight_def table_other split: option.split\<close>)

interpretation flight: handler_inv ops "\<lambda>_. single_flight" "\<lambda>_. True" "\<lambda>_. True" for ops
proof unfold_locales
  fix h :: "('a, 'b, 'c) Handler" and r q c batch pv n
  show "single_flight (h\<lparr>h_queued := r # q\<rparr>) \<Longrightarrow> single_flight (on_request ops r (h\<lparr>h_queued := q\<rparr>))"
    by (rule single_flight_request) (simp add: single_flight_def)
  show "single_flight h \<Longrightarrow> single_flight (h\<lparr>h_queued := batch\<rparr>)" by (simp add: single_flight_def)
  show "single_flight h \<Longrightarrow> n < length (h_pending h) \<Longrightarrow> single_flight (poll_at ops pv n h)"
    by (rule poll_at_induct) (auto intro: single_flight_poll)
qed

section \<open>One reply per request\<close>

definition pending_sender :: "'bid ProviderRequest \<Rightarrow> sender multiset" where
  "pending_sender r = (case r of PFullBlock _ s \<Rightarrow> {#s#} | PTransaction _ s \<Rightarrow> {#s#}
     | PAny _ s \<Rightarrow> {#s#} | _ \<Rightarrow> {#})"

definition table_senders :: "'k listeners \<Rightarrow> sender multiset" where
  "table_senders t = mset (concat (map snd t))"

definition waiting :: "('code, 'bid, 'p) Handler \<Rightarrow> sender multiset" where
  "waiting h = table_senders (h_account_requests h) + table_senders (h_storage_requests h) +
     table_senders (h_block_requests h) + sum_mset (image_mset pending_sender (mset (h_pending h)))"

definition replied :: "('code, 'bid, 'p) Handler \<Rightarrow> sender multiset" where
  "replied h = mset (map fst (h_sent h))"

definition all_senders :: "('code, 'bid, 'p) Handler \<Rightarrow> sender multiset" where
  "all_senders h = replied h + waiting h + senders (h_queued h)"

lemma senders_simps [simp]: "senders [] = {#}" "senders (r # rs) = request_senders r + senders rs"
  by (simp_all add: senders_def)

lemma table_senders_push [simp]: "table_senders (entry_push k s t) = add_mset s (table_senders t)"
  by (induction k s t rule: entry_push.induct) (simp_all add: table_senders_def)

lemma table_senders_remove:
  "entry_remove k t = (ls, t') \<Longrightarrow> table_senders t = mset ls + table_senders t'"
  by (induction k t arbitrary: ls t' rule: entry_remove.induct)
    (auto simp: table_senders_def split: if_splits prod.splits)

lemma image_fst_const [simp]: "image_mset fst {#(l, r). l \<in># M#} = M"
  by (induction M) simp_all

lemma all_senders_request:
  "all_senders (on_request ops r (h\<lparr>h_queued := q\<rparr>)) = all_senders (h\<lparr>h_queued := r # q\<rparr>)"
  by (cases r) (simp_all add: all_senders_def waiting_def replied_def request_defs
      request_senders_def pending_sender_def Let_def split: option.split)

lemma all_senders_poll:
  assumes "mset (h_pending h) = add_mset r (mset ps)"
  shows "all_senders (case poll_request ops ob r (h\<lparr>h_pending := ps\<rparr>) of
     (None, h') \<Rightarrow> h' | (Some r', h') \<Rightarrow> push_pending r' h') = all_senders h"
  using assms
  by (cases r)
    (auto simp: all_senders_def waiting_def replied_def finish_defs pending_sender_def
      comp_def Let_def dest: table_senders_remove
      split: option.split sum.split prod.split)

interpretation replies: handler_inv ops "\<lambda>c h. all_senders h = c" "\<lambda>_. True" "\<lambda>_. True" for ops
proof unfold_locales
  fix h :: "('a, 'b, 'c) Handler" and r q c batch pv n
  show "all_senders (h\<lparr>h_queued := r # q\<rparr>) = c \<Longrightarrow> all_senders (on_request ops r (h\<lparr>h_queued := q\<rparr>)) = c"
    by (simp add: all_senders_request)
  show "all_senders h = c \<Longrightarrow> h_queued h = [] \<Longrightarrow> all_senders (h\<lparr>h_queued := batch\<rparr>) = c + senders batch"
    by (auto simp: all_senders_def waiting_def replied_def)
  show "all_senders h = c \<Longrightarrow> n < length (h_pending h) \<Longrightarrow> all_senders (poll_at ops pv n h) = c"
    by (rule poll_at_induct) (auto simp: all_senders_poll)
qed

end
