(* ===== verification/Fork_Runs.thy ===== *)
theory Fork_Runs
  imports Fork_Backend
begin

text \<open>
  Whole runs of the fork database's handler: a run is a sequence of wakeups, each with what
  arrives and what the provider yields.  The properties here hold for every run from a fresh
  handler.  \<open>chain\<close> is the state of the chain at the pinned block, against which answers are
  judged.
\<close>

section \<open>Runs\<close>

type_synonym ('code, 'bid, 'p) wakeup = "('code, 'bid, 'p) arrival list \<times> (nat \<Rightarrow> ('bid, 'p) provider)"

fun run_handler :: "('code, 'bid) chain_ops \<Rightarrow> ('code, 'bid, 'p) wakeup list
    \<Rightarrow> ('code, 'bid, 'p) Handler \<Rightarrow> ('code, 'bid, 'p) Handler" where
  "run_handler ops [] h = h"
| "run_handler ops ((arrivals, obs) # ws) h =
     (case poll_handler ops obs arrivals h of
        (True, _, h') \<Rightarrow> h'
      | (False, _, h') \<Rightarrow> run_handler ops ws h')"

definition wakeup_ok :: "(('code, 'bid) BackendRequest \<Rightarrow> bool) \<Rightarrow> (('bid, 'p) provider \<Rightarrow> bool)
    \<Rightarrow> ('code, 'bid, 'p) wakeup \<Rightarrow> bool" where
  "wakeup_ok ok_request ok_provider w \<longleftrightarrow> (\<forall>k. ok_provider (snd w k)) \<and>
     (\<forall>(batch, closed, ob) \<in> set (fst w). (\<forall>r \<in> set batch. ok_request r) \<and> (\<forall>k. ok_provider (ob k)))"

context handler_inv begin

lemma run:
  "inv c h \<Longrightarrow> (\<And>w. w \<in> set ws \<Longrightarrow> wakeup_ok ok_request ok_provider w) \<Longrightarrow>
   \<exists>d. inv (c + d) (run_handler ops ws h)"
proof (induction ws arbitrary: c h)
  case Nil
  then show ?case by (auto intro: exI [of _ "{#}"])
next
  case (Cons w ws)
  obtain arrivals obs where w: "w = (arrivals, obs)" by (cases w)
  obtain fin rest h' where p: "poll_handler ops obs arrivals h = (fin, rest, h')"
    by (cases "poll_handler ops obs arrivals h")
  have ok: "\<And>k. ok_provider (obs k)" "\<And>batch closed ob. (batch, closed, ob) \<in> set arrivals \<Longrightarrow>
      (\<forall>r \<in> set batch. ok_request r) \<and> (\<forall>k. ok_provider (ob k))"
    using Cons.prems(2) [of w] by (auto simp: w wakeup_ok_def)
  have "case poll_handler ops obs arrivals h of (done, rest, h') \<Rightarrow>
      \<exists>d. arrival_senders arrivals = d + arrival_senders rest \<and> inv (c + d) h'"
    using ok by (intro poll Cons.prems(1))
  then obtain d where d: "inv (c + d) h'" unfolding p by auto
  show ?case
  proof (cases fin)
    case True
    with d show ?thesis by (auto simp: w p)
  next
    case False
    from Cons.IH [OF d] Cons.prems(2) obtain e where "inv (c + d + e) (run_handler ops ws h')" by auto
    with False show ?thesis by (auto simp: w p add.assoc)
  qed
qed

end

section \<open>The answers\<close>

record 'p chain =
  ch_account :: "address \<Rightarrow> account_data"
  ch_slot :: "address \<Rightarrow> u256 \<Rightarrow> u256"
  ch_hash :: "64 word \<Rightarrow> b256 option"
  ch_transaction :: "b256 \<Rightarrow> 'p option"

datatype question = QAccount address | QSlot address u256 | QHash "64 word" | QTransaction b256 | QOther

definition chain_hash :: "('code, 'bid) chain_ops \<Rightarrow> 'p chain \<Rightarrow> 64 word \<Rightarrow> b256" where
  "chain_hash ops ch n = (case ch_hash ch n of Some hash \<Rightarrow> hash | None \<Rightarrow> co_keccak_empty ops)"

text \<open>What a provider at block \<open>pin\<close> may yield: errors at any time, and else the truth.\<close>

definition truthful :: "'p chain \<Rightarrow> 'bid \<Rightarrow> ('bid, 'p) provider \<Rightarrow> bool" where
  "truthful ch pin pv \<longleftrightarrow>
     (\<forall>a f v. ob_info (pv (PAccount a pin f)) = Some (Inr v) \<longrightarrow> v = ch_account ch a) \<and>
     (\<forall>a f v. ob_triple (pv (PAccount a pin f)) = Some (Inr v) \<longrightarrow> v = ch_account ch a) \<and>
     (\<forall>a i v. ob_storage (pv (PStorage a i pin)) = Some (Inr v) \<longrightarrow> v = ch_slot ch a i) \<and>
     (\<forall>n v. ob_block_hash (pv (PBlockHash n)) = Some (Inr v) \<longrightarrow> v = ch_hash ch n) \<and>
     (\<forall>t s v. ob_transaction (pv (PTransaction t s)) = Some (Inr v) \<longrightarrow> v = ch_transaction ch t)"

text \<open>Every sender asks what \<open>asked\<close> says, and updates only write what the chain holds.\<close>

fun faithful :: "('code, 'bid) chain_ops \<Rightarrow> 'p chain \<Rightarrow> 'bid \<Rightarrow> (sender \<Rightarrow> question)
    \<Rightarrow> ('code, 'bid) BackendRequest \<Rightarrow> bool" where
  "faithful ops ch pin asked (Basic a s) \<longleftrightarrow> asked s = QAccount a"
| "faithful ops ch pin asked (Storage a i s) \<longleftrightarrow> asked s = QSlot a i"
| "faithful ops ch pin asked (BlockHash n s) \<longleftrightarrow> asked s = QHash n"
| "faithful ops ch pin asked (Transaction t s) \<longleftrightarrow> asked s = QTransaction t"
| "faithful ops ch pin asked (FullBlock b s) \<longleftrightarrow> asked s = QOther"
| "faithful ops ch pin asked (AnyRequest f s) \<longleftrightarrow> asked s = QOther"
| "faithful ops ch pin asked (SetPinnedBlock b) \<longleftrightarrow> b = pin"
| "faithful ops ch pin asked (UpdateAddress ds) \<longleftrightarrow>
     (\<forall>(a, d) \<in> set ds. d = account_info ops (ch_account ch a))"
| "faithful ops ch pin asked (UpdateStorage ds) \<longleftrightarrow>
     (\<forall>(a, st) \<in> set ds. \<forall>i v. bt_get st i = Some v \<longrightarrow> v = ch_slot ch a i)"
| "faithful ops ch pin asked (UpdateBlockHash ds) \<longleftrightarrow>
     (\<forall>(k, v) \<in> set ds. \<forall>n. k = ucast n \<longrightarrow> v = chain_hash ops ch n)"

definition db_coherent :: "('code, 'bid) chain_ops \<Rightarrow> 'p chain \<Rightarrow> 'code MemDb \<Rightarrow> bool" where
  "db_coherent ops ch db \<longleftrightarrow>
     (\<forall>a acc. bt_get (db_accounts db) a = Some acc \<longrightarrow> acc = account_info ops (ch_account ch a)) \<and>
     (\<forall>a i v. cached_slot db a i = Some v \<longrightarrow> v = ch_slot ch a i) \<and>
     (\<forall>n v. bt_get (db_block_hashes db) (ucast (n :: 64 word)) = Some v \<longrightarrow> v = chain_hash ops ch n)"

fun answer_ok :: "('code, 'bid) chain_ops \<Rightarrow> 'p chain \<Rightarrow> question \<Rightarrow> ('code, 'bid, 'p) reply \<Rightarrow> bool" where
  "answer_ok ops ch q (RAccount (Inr acc)) \<longleftrightarrow>
     (case q of QAccount a \<Rightarrow> acc = account_info ops (ch_account ch a) | _ \<Rightarrow> False)"
| "answer_ok ops ch q (RStorage (Inr v)) \<longleftrightarrow> (case q of QSlot a i \<Rightarrow> v = ch_slot ch a i | _ \<Rightarrow> False)"
| "answer_ok ops ch q (RBlockHash (Inr v)) \<longleftrightarrow> (case q of QHash n \<Rightarrow> v = chain_hash ops ch n | _ \<Rightarrow> False)"
| "answer_ok ops ch q (RTransaction (Inr v)) \<longleftrightarrow>
     (case q of QTransaction t \<Rightarrow> ch_transaction ch t = Some v | _ \<Rightarrow> False)"
| "answer_ok ops ch q _ \<longleftrightarrow> True"

definition table_asked :: "(sender \<Rightarrow> question) \<Rightarrow> ('k \<Rightarrow> question) \<Rightarrow> 'k listeners \<Rightarrow> bool" where
  "table_asked asked qu t \<longleftrightarrow> (\<forall>(k, ls) \<in> set t. \<forall>s \<in> set ls. asked s = qu k)"

fun pending_ok :: "'bid \<Rightarrow> (sender \<Rightarrow> question) \<Rightarrow> 'bid ProviderRequest \<Rightarrow> bool" where
  "pending_ok pin asked (PAccount a b f) \<longleftrightarrow> b = pin"
| "pending_ok pin asked (PStorage a i b) \<longleftrightarrow> b = pin"
| "pending_ok pin asked (PTransaction t s) \<longleftrightarrow> asked s = QTransaction t"
| "pending_ok pin asked _ \<longleftrightarrow> True"

definition coherent :: "('code, 'bid) chain_ops \<Rightarrow> 'p chain \<Rightarrow> 'bid \<Rightarrow> (sender \<Rightarrow> question)
    \<Rightarrow> ('code, 'bid, 'p) Handler \<Rightarrow> bool" where
  "coherent ops ch pin asked h \<longleftrightarrow> db_coherent ops ch (h_db h) \<and>
     block_or_default ops h = pin \<and>
     table_asked asked QAccount (h_account_requests h) \<and>
     table_asked asked (\<lambda>(a, i). QSlot a i) (h_storage_requests h) \<and>
     table_asked asked QHash (h_block_requests h) \<and>
     (\<forall>r \<in> set_mset (mset (h_pending h)). pending_ok pin asked r) \<and>
     (\<forall>r \<in> set (h_queued h). faithful ops ch pin asked r) \<and>
     (\<forall>(s, r) \<in> set (h_sent h). answer_ok ops ch (asked s) r)"

lemma table_asked_push [simp]:
  "table_asked asked qu (entry_push k s t) \<longleftrightarrow> table_asked asked qu t \<and> asked s = qu k"
  by (induction k s t rule: entry_push.induct) (auto simp: table_asked_def)

lemma table_asked_remove:
  "entry_remove k t = (ls, t') \<Longrightarrow> table_asked asked qu t \<Longrightarrow>
   table_asked asked qu t' \<and> (\<forall>s \<in> set ls. asked s = qu k)"
  by (induction k t arbitrary: ls t' rule: entry_remove.induct)
    (auto simp: table_asked_def split: if_splits prod.splits)

lemma insert_slot_cached:
  "cached_slot (insert_slot a i v db) a' i' = (if a' = a \<and> i' = i then Some v else cached_slot db a' i')"
  by (auto simp: insert_slot_def cached_slot_def Let_def split: option.split)

lemma block_key_inj: "ucast (n :: 64 word) = (ucast m :: 256 word) \<longleftrightarrow> n = m"
proof
  assume "ucast n = (ucast m :: 256 word)"
  then have "unat (ucast n :: 256 word) = unat (ucast m :: 256 word)" by simp
  moreover have "unat k < 2 ^ 256" for k :: "64 word"
    by (rule less_le_trans [OF unsigned_less]) simp
  ultimately show "n = m" by (simp add: unsigned_ucast_eq take_bit_nat_eq_self word_unat_eq_iff)
qed simp

lemma db_coherent_insert:
  assumes "db_coherent ops ch db"
  shows "db_coherent ops ch (do_insert_account a (account_info ops (ch_account ch a)) db)"
    and "db_coherent ops ch (insert_slot a i (ch_slot ch a i) db)"
    and "db_coherent ops ch (db\<lparr>db_block_hashes := bt_insert (ucast n) (chain_hash ops ch n) (db_block_hashes db)\<rparr>)"
  using assms
  by (auto simp: db_coherent_def do_insert_account_def cached_slot_def block_key_inj
      insert_slot_def Let_def split: if_splits option.splits)

lemma db_coherent_update:
  assumes "db_coherent ops ch db"
  shows "faithful ops ch pin asked (UpdateAddress as) \<Longrightarrow>
      db_coherent ops ch (db\<lparr>db_accounts := fold (\<lambda>(a, d). bt_insert a d) as (db_accounts db)\<rparr>)"
    and "faithful ops ch pin asked (UpdateStorage ss) \<Longrightarrow>
      db_coherent ops ch (db\<lparr>db_storage := fold (\<lambda>(a, d). bt_insert a d) ss (db_storage db)\<rparr>)"
    and "faithful ops ch pin asked (UpdateBlockHash hs) \<Longrightarrow>
      db_coherent ops ch (db\<lparr>db_block_hashes := fold (\<lambda>(b, d). bt_insert b d) hs (db_block_hashes db)\<rparr>)"
proof -
  assume f: "faithful ops ch pin asked (UpdateAddress as)"
  have "acc = account_info ops (ch_account ch a)"
    if "bt_get (fold (\<lambda>(a, d). bt_insert a d) as (db_accounts db)) a = Some acc" for a acc
    using bt_get_fold_insert [OF that] f assms by (auto simp: db_coherent_def)
  with assms show "db_coherent ops ch (db\<lparr>db_accounts := fold (\<lambda>(a, d). bt_insert a d) as (db_accounts db)\<rparr>)"
    by (simp add: db_coherent_def cached_slot_def)
next
  assume f: "faithful ops ch pin asked (UpdateStorage ss)"
  have "v = ch_slot ch a i"
    if "bt_get (fold (\<lambda>(a, d). bt_insert a d) ss (db_storage db)) a = Some st" and "bt_get st i = Some v"
    for a st i v
  proof (cases "(a, st) \<in> set ss")
    case True
    with f that(2) show ?thesis by fastforce
  next
    case False
    with bt_get_fold_insert [OF that(1)] that(2) have "cached_slot db a i = Some v"
      by (simp add: cached_slot_def)
    with assms show ?thesis by (simp add: db_coherent_def)
  qed
  with assms show "db_coherent ops ch (db\<lparr>db_storage := fold (\<lambda>(a, d). bt_insert a d) ss (db_storage db)\<rparr>)"
    by (auto simp: db_coherent_def cached_slot_def split: option.splits)
next
  assume f: "faithful ops ch pin asked (UpdateBlockHash hs)"
  have "v = chain_hash ops ch n"
    if "bt_get (fold (\<lambda>(b, d). bt_insert b d) hs (db_block_hashes db)) (ucast (n :: 64 word)) = Some v" for n v
    using bt_get_fold_insert [OF that] f assms by (auto simp: db_coherent_def)
  with assms show "db_coherent ops ch (db\<lparr>db_block_hashes := fold (\<lambda>(b, d). bt_insert b d) hs (db_block_hashes db)\<rparr>)"
    by (simp add: db_coherent_def cached_slot_def)
qed

lemma coherent_request:
  assumes "coherent ops ch pin asked (h\<lparr>h_queued := r # q\<rparr>)"
  shows "coherent ops ch pin asked (on_request ops r (h\<lparr>h_queued := q\<rparr>))"
proof -
  have f: "faithful ops ch pin asked r" and h: "coherent ops ch pin asked (h\<lparr>h_queued := q\<rparr>)"
    and db: "db_coherent ops ch (h_db h)"
    using assms by (auto simp: coherent_def block_or_default_def)
  show ?thesis
  proof (cases r)
    case (UpdateAddress ds)
    with f h db_coherent_update(1) [OF db] show ?thesis by (simp add: coherent_def block_or_default_def)
  next
    case (UpdateStorage ds)
    with f h db_coherent_update(2) [OF db] show ?thesis by (simp add: coherent_def block_or_default_def)
  next
    case (UpdateBlockHash ds)
    with f h db_coherent_update(3) [OF db] show ?thesis by (simp add: coherent_def block_or_default_def)
  qed (use f h in \<open>auto simp: coherent_def request_defs block_or_default_def Let_def db_coherent_def
        split: option.splits\<close>)
qed

lemma poll_account_value:
  assumes "poll_account mode fut ob = (mode', Inr (Inr v))"
  shows "ob_info ob = Some (Inr v) \<or> ob_triple ob = Some (Inr v)"
  using assms
  by (cases fut) (auto simp: poll_race_def poll_info_def poll_triple_def Let_def
      split: FetchMode.splits option.splits sum.splits if_splits prod.splits)

lemma truthful_account:
  "truthful ch pin pv \<Longrightarrow>
   ob_info (pv (PAccount a pin f)) = Some (Inr v) \<or> ob_triple (pv (PAccount a pin f)) = Some (Inr v) \<Longrightarrow>
   v = ch_account ch a"
  unfolding truthful_def by blast

lemma coherent_poll:
  assumes h: "coherent ops ch pin asked h" and pv: "truthful ch pin pv"
    and m: "mset (h_pending h) = add_mset r (mset ps)"
  shows "coherent ops ch pin asked (case poll_request ops (pv r) r (h\<lparr>h_pending := ps\<rparr>) of
     (None, h') \<Rightarrow> h' | (Some r', h') \<Rightarrow> push_pending r' h')"
proof -
  have db: "db_coherent ops ch (h_db h)" and r: "pending_ok pin asked r"
    using h m by (simp_all add: coherent_def)
  have ps: "coherent ops ch pin asked (h\<lparr>h_pending := ps\<rparr>)"
    using h m by (auto simp: coherent_def block_or_default_def)
  show ?thesis
  proof (cases r)
    case (PAccount a b f)
    have val: "v = ch_account ch a" if "poll_account (h_mode h) f (pv (PAccount a b f)) = (mo, Inr (Inr v))" for mo v
      using truthful_account [OF pv] poll_account_value [OF that] r PAccount by simp
    from PAccount r ps db_coherent_insert(1) [OF db] val show ?thesis
      by (auto simp: coherent_def finish_account_def block_or_default_def Let_def
          dest: table_asked_remove split: sum.split prod.split)
  next
    case (PStorage a i b)
    have val: "v = ch_slot ch a i" if "ob_storage (pv (PStorage a i b)) = Some (Inr v)" for v
      using that pv r PStorage by (simp add: truthful_def)
    from PStorage r ps db_coherent_insert(2) [OF db] val show ?thesis
      by (auto simp: coherent_def finish_storage_def block_or_default_def Let_def
          dest: table_asked_remove split: option.split sum.split prod.split)
  next
    case (PBlockHash n)
    have val: "v = chain_hash ops ch n"
      if "ob_block_hash (pv (PBlockHash n)) = Some x" "hash_result ops x = Inr v" for x v
      using that pv by (auto simp: truthful_def hash_result_def chain_hash_def split: sum.splits option.splits)
    from PBlockHash r ps db_coherent_insert(3) [OF db] val show ?thesis
      by (auto simp: coherent_def finish_hash_def block_or_default_def Let_def
          dest: table_asked_remove split: option.split sum.split prod.split)
  next
    case (PTransaction t s)
    have val: "ch_transaction ch t = Some v"
      if "ob_transaction (pv (PTransaction t s)) = Some x" "transaction_result x = Inr v" for x v
      using that pv by (fastforce simp: truthful_def transaction_result_def split: sum.splits option.splits)
    from PTransaction r ps val show ?thesis
      by (auto simp: coherent_def block_or_default_def split: option.split sum.split)
  qed (use r ps in \<open>auto simp: coherent_def block_or_default_def split: option.split\<close>)
qed

interpretation answers: handler_inv ops "\<lambda>_. coherent ops ch pin asked" "faithful ops ch pin asked"
  "truthful ch pin" for ops ch pin asked
proof unfold_locales
  fix h :: "('a, 'b, 'c) Handler" and r q c batch pv n
  show "coherent ops ch pin asked (h\<lparr>h_queued := r # q\<rparr>) \<Longrightarrow>
      coherent ops ch pin asked (on_request ops r (h\<lparr>h_queued := q\<rparr>))"
    by (rule coherent_request)
  show "coherent ops ch pin asked h \<Longrightarrow> (\<And>r. r \<in> set batch \<Longrightarrow> faithful ops ch pin asked r) \<Longrightarrow>
      coherent ops ch pin asked (h\<lparr>h_queued := batch\<rparr>)"
    by (simp add: coherent_def block_or_default_def)
  show "coherent ops ch pin asked h \<Longrightarrow> n < length (h_pending h) \<Longrightarrow> truthful ch pin pv \<Longrightarrow>
      coherent ops ch pin asked (poll_at ops pv n h)"
    by (rule poll_at_induct) (auto intro: coherent_poll)
qed

section \<open>A provider that answers\<close>

definition responsive :: "('bid, 'p) provider \<Rightarrow> bool" where
  "responsive pv \<longleftrightarrow> (\<forall>r. ob_info (pv r) \<noteq> None \<and> ob_triple (pv r) \<noteq> None \<and> ob_storage (pv r) \<noteq> None \<and>
     ob_block_hash (pv r) \<noteq> None \<and> ob_full_block (pv r) \<noteq> None \<and> ob_transaction (pv r) \<noteq> None \<and>
     ob_any (pv r) \<noteq> None)"

lemma responsive_account:
  assumes "responsive pv" shows "\<exists>mo x. poll_account mode fut (pv r) = (mo, Inr x)"
proof -
  from assms obtain x y where xy: "ob_info (pv r) = Some x" "ob_triple (pv r) = Some y"
    unfolding responsive_def by blast
  have t: "\<exists>mo x. poll_triple m (pv r) = (mo, Inr x)" for m by (simp add: poll_triple_def xy)
  have i: "\<exists>mo x. poll_info m (pv r) = (mo, Inr x)" for m
    using t by (cases x) (auto simp: poll_info_def xy)
  have ra: "\<exists>mo x. poll_race m (pv r) = (mo, Inr x)" for m
    using t [of SeparateRequests]
    by (cases x; cases y; cases "ob_info_first (pv r)") (auto simp: poll_race_def xy Let_def)
  show ?thesis using t i ra by (cases fut; cases mode) simp_all
qed

lemma responsive_done:
  assumes "responsive pv" shows "fst (poll_request ops (pv r) r h) = None"
proof (cases r)
  case (PAccount a b f)
  with responsive_account [OF assms, of "h_mode h" f r] show ?thesis by (auto split: prod.split)
qed (use assms in \<open>auto simp: responsive_def split: option.split\<close>)

lemma responsive_pass:
  assumes "\<And>k. responsive (obs k)"
  shows "n = length (h_pending h) \<Longrightarrow> h_pending (poll_pass ops obs n h) = []"
proof (induction n arbitrary: h)
  case (Suc n)
  let ?r = "h_pending h ! n" and ?h = "h\<lparr>h_pending := swap_remove n (h_pending h)\<rparr>"
  have "poll_at ops (obs n) n h = snd (poll_request ops (obs n ?r) ?r ?h)"
    using responsive_done [OF assms, of ops n ?r ?h]
    by (auto simp: poll_at_def Let_def split: prod.split)
  then have "length (h_pending (poll_at ops (obs n) n h)) = n"
    using Suc.prems by (simp add: poll_request_pending swap_remove_length)
  from Suc.IH [OF this [symmetric]] show ?case by simp
qed simp

lemma drain_queue_empty [simp]: "h_queued (drain_queue ops h) = []"
proof -
  have one: "h_queued (on_request ops r g) = h_queued g" for r and g :: "('a, 'b, 'c) Handler"
    by (cases r) (simp_all add: request_defs Let_def split: option.split)
  have "h_queued (fold (on_request ops) q g) = h_queued g" for q and g :: "('a, 'b, 'c) Handler"
    by (induction q arbitrary: g) (simp_all add: one)
  then show ?thesis by (simp add: drain_queue_def)
qed

lemma responsive_poll:
  assumes "\<And>k. responsive (obs k)"
    and "\<And>batch closed ob. (batch, closed, ob) \<in> set arrivals \<Longrightarrow> (\<forall>k. responsive (ob k))"
  shows "case poll_handler ops obs arrivals h of (done, rest, h') \<Rightarrow>
     done \<or> h_pending h' = [] \<and> h_queued h' = []"
  using assms(2)
proof (induction arrivals arbitrary: h)
  case Nil
  then show ?case using assms(1) by (simp add: poll_all_def responsive_pass poll_pass_queued)
next
  case (Cons a rest)
  obtain batch closed ob where a: "a = (batch, closed, ob)" by (cases a)
  have ob: "\<And>k. responsive (ob k)" using Cons.prems [of batch closed ob] by (simp add: a)
  have rest: "\<And>batch closed ob. (batch, closed, ob) \<in> set rest \<Longrightarrow> (\<forall>k. responsive (ob k))"
    using Cons.prems by (meson list.set_intros(2))
  have nil: "h_pending (poll_all ops ob g) = []" for g
    by (simp add: poll_all_def responsive_pass ob)
  have "case poll_handler ops obs rest (poll_all ops ob ((drain_queue ops h)\<lparr>h_queued := batch\<rparr>)) of
      (done, rest, h') \<Rightarrow> done \<or> h_pending h' = [] \<and> h_queued h' = []"
    using rest by (intro Cons.IH)
  then show ?case by (simp add: a nil Let_def)
qed

lemma single_flight_run: "single_flight (run_handler ops ws (handler_new db block))"
proof -
  have "single_flight (handler_new db block)"
    by (simp add: single_flight_def handler_new_def table_ok_def keys_of_def)
  from flight.run [OF this, of ws ops] show ?thesis by (simp add: wakeup_ok_def case_prod_beta)
qed

section \<open>The pass as a bag of requests\<close>

text \<open>
  What the loop with \<open>swap_remove\<close> means: every request that is in progress when the pass starts
  is polled once, the last one first, and those that are not ready stay.
\<close>

fun poll_each :: "('code, 'bid) chain_ops \<Rightarrow> (nat \<Rightarrow> ('bid, 'p) provider) \<Rightarrow> nat \<Rightarrow> 'bid ProviderRequest list
    \<Rightarrow> ('code, 'bid, 'p) Handler \<Rightarrow> 'bid ProviderRequest multiset \<times> ('code, 'bid, 'p) Handler" where
  "poll_each ops obs 0 rs h = ({#}, h)"
| "poll_each ops obs (Suc n) rs h =
     (case poll_request ops (obs n (rs ! n)) (rs ! n) h of (res, h') \<Rightarrow>
      case poll_each ops obs n rs h' of (M, h'') \<Rightarrow>
        (case res of None \<Rightarrow> M | Some r \<Rightarrow> add_mset r M, h''))"

lemma poll_request_blind:
  "poll_request ops ob r (h\<lparr>h_pending := ps\<rparr>) = apsnd (\<lambda>g. g\<lparr>h_pending := ps\<rparr>) (poll_request ops ob r h)"
  by (cases r) (auto simp: finish_defs send_def Let_def split: option.split sum.split prod.split)

lemma swap_remove_drop:
  assumes "n < length xs" shows "mset (drop n (swap_remove n xs)) = mset (drop (Suc n) xs)"
proof -
  have "mset (take n xs) + mset (drop n (swap_remove n xs)) = mset (swap_remove n xs)"
    using swap_remove_take [OF assms] by (metis append_take_drop_id mset_append)
  moreover have "mset xs = mset (take n xs) + add_mset (xs ! n) (mset (drop (Suc n) xs))"
    using id_take_nth_drop [OF assms] by (metis mset.simps(2) mset_append)
  ultimately show ?thesis using swap_remove_mset [OF assms] by simp
qed

lemma poll_pass_each:
  assumes "n \<le> length (h_pending h)" and "take n (h_pending h) = take n rs" and "n \<le> length rs"
    and "poll_each ops obs n rs (h\<lparr>h_pending := []\<rparr>) = (M, g)"
  shows "mset (h_pending (poll_pass ops obs n h)) = mset (drop n (h_pending h)) + M \<and>
     (poll_pass ops obs n h)\<lparr>h_pending := []\<rparr> = g"
  using assms
proof (induction n arbitrary: h M)
  case (Suc n)
  let ?ps = "swap_remove n (h_pending h)" and ?r = "rs ! n"
  have n: "n < length (h_pending h)" and r: "h_pending h ! n = ?r"
    using Suc.prems(1-3) by (simp, metis lessI nth_take)
  have tk: "take n ?ps = take n rs"
  proof -
    have "take n (h_pending h) = take n (take (Suc n) (h_pending h))" by simp
    also have "\<dots> = take n rs" unfolding Suc.prems(2) by simp
    finally show ?thesis using swap_remove_take [OF n] by simp
  qed
  obtain res h' where q: "poll_request ops (obs n ?r) ?r (h\<lparr>h_pending := []\<rparr>) = (res, h')"
    by (cases "poll_request ops (obs n ?r) ?r (h\<lparr>h_pending := []\<rparr>)")
  obtain M' where M': "poll_each ops obs n rs h' = (M', g)"
    and M: "M = (case res of None \<Rightarrow> M' | Some r \<Rightarrow> add_mset r M')"
    using Suc.prems(4) q by (auto split: prod.splits)
  have h': "h'\<lparr>h_pending := []\<rparr> = h'"
    using poll_request_blind [where ops = ops and ob = "obs n ?r" and r = ?r and h = "h\<lparr>h_pending := []\<rparr>" and ps = "[]"] q
    by simp
  let ?ex = "case res of None \<Rightarrow> [] | Some r \<Rightarrow> [r]"
  have at: "poll_at ops (obs n) n h = h'\<lparr>h_pending := ?ps @ ?ex\<rparr>"
    using poll_request_blind [where ops = ops and ob = "obs n ?r" and r = ?r and h = "h\<lparr>h_pending := []\<rparr>" and ps = ?ps] q
    by (auto simp: poll_at_def r Let_def push_pending_def split: option.split)
  have len: "n \<le> length ?ps" using n by (simp add: swap_remove_length)
  have "mset (h_pending (poll_pass ops obs n (h'\<lparr>h_pending := ?ps @ ?ex\<rparr>))) =
      mset (drop n (?ps @ ?ex)) + M' \<and> (poll_pass ops obs n (h'\<lparr>h_pending := ?ps @ ?ex\<rparr>))\<lparr>h_pending := []\<rparr> = g"
    using Suc.IH [of "h'\<lparr>h_pending := ?ps @ ?ex\<rparr>" M'] len tk Suc.prems(3) M' h' by simp
  with len swap_remove_drop [OF n] show ?case by (simp add: at M split: option.split)
qed simp

section \<open>Properties\<close>

text \<open>
  C13: in every run, whatever arrives and whatever the provider does, a value is fetched at most
  once at a time: the accounts with waiting listeners are exactly those with a provider request
  in progress, each has exactly one, and its list of listeners is not empty; and the same for
  storage slots and block hashes.
\<close>

theorem backend_single_flight:
  "let h = run_handler ops ws (handler_new db block)
   in distinct (map fst (h_account_requests h)) \<and>
      keys_of account_key (mset (h_pending h)) = mset (map fst (h_account_requests h)) \<and>
      distinct (map fst (h_storage_requests h)) \<and>
      keys_of storage_key (mset (h_pending h)) = mset (map fst (h_storage_requests h)) \<and>
      distinct (map fst (h_block_requests h)) \<and>
      keys_of hash_key (mset (h_pending h)) = mset (map fst (h_block_requests h)) \<and>
      [] \<notin> snd ` set (h_account_requests h) \<and> [] \<notin> snd ` set (h_storage_requests h) \<and>
      [] \<notin> snd ` set (h_block_requests h)"
  using single_flight_run [of ops ws db block]
  by (simp add: single_flight_def table_ok_def Let_def)

text \<open>
  C18: no request is lost and none is answered twice: over a wakeup, the senders that were
  replied to, that wait in the handler and that wait in its queue grow by exactly the senders of
  the requests taken from the channel.
\<close>

theorem backend_conserves_senders:
  "case poll_handler ops obs arrivals h of (finished, rest, h') \<Rightarrow>
     \<exists>taken. arrival_senders arrivals = taken + arrival_senders rest \<and>
       replied h' + waiting h' + senders (h_queued h') =
       replied h + waiting h + senders (h_queued h) + taken"
  using replies.poll [where c = "all_senders h" and h = h and ops = ops and obs = obs
      and arrivals = arrivals, OF refl]
  unfolding all_senders_def by simp

text \<open>
  C9: once the provider answers, nobody is left waiting: at the end of a wakeup in which every
  future is ready and the channel stays open, every sender whose request was received has its
  reply.
\<close>

theorem backend_answers_everyone:
  fixes ws :: "('code, 'bid, 'p) wakeup list" and db :: "'code MemDb"
  assumes "\<And>k. responsive (obs k)"
    and "\<And>a. a \<in> set arrivals \<Longrightarrow> \<not> fst (snd a) \<and> (\<forall>k. responsive (snd (snd a) k))"
  shows "case poll_handler ops obs arrivals (run_handler ops ws (handler_new db block)) of
     (finished, rest, h') \<Rightarrow> \<not> finished \<and> waiting h' = {#} \<and> h_queued h' = []"
proof -
  define h where "h = (run_handler ops ws (handler_new db block) :: ('code, 'bid, 'p) Handler)"
  have h: "single_flight h" unfolding h_def by (rule single_flight_run)
  obtain fin rest h' where p: "poll_handler ops obs arrivals h = (fin, rest, h')"
    by (cases "poll_handler ops obs arrivals h")
  have h': "single_flight h'"
    using flight.poll [where h = h and ops = ops and obs = obs and arrivals = arrivals, OF h] p by simp
  have open_: "(\<And>a. a \<in> set arrivals \<Longrightarrow> \<not> fst (snd a)) \<Longrightarrow> \<not> fst (poll_handler ops obs arrivals g)"
    for g :: "('code, 'bid, 'p) Handler"
  proof (induction arrivals arbitrary: g)
    case (Cons a rest)
    then have "\<not> fst (snd a)" and "\<And>g. \<not> fst (poll_handler ops obs rest g)" by simp_all
    then show ?case by (cases a) (simp add: Let_def)
  qed simp
  have "\<not> fin" using open_ [of h] assms(2) p by simp
  moreover from this have "h_pending h' = [] \<and> h_queued h' = []"
    using responsive_poll [of obs arrivals ops h, OF assms(1)] assms(2) p by force
  moreover from this h' have "waiting h' = {#}"
    by (simp add: single_flight_def table_ok_def keys_of_def waiting_def table_senders_def)
  ultimately show ?thesis using p by (simp add: h_def)
qed

text \<open>A provider that yields the sample chain, and handlers to run on it.\<close>

definition sample_ops :: "(bytes, nat) chain_ops" where
  "sample_ops = \<lparr>co_keccak = (\<lambda>_. 1), co_keccak_empty = 2, co_new_raw = (\<lambda>c. c), co_default_block = 0\<rparr>"

definition sample_chain :: "nat chain" where
  "sample_chain = \<lparr>ch_account = (\<lambda>_. (3, 1, [])), ch_slot = (\<lambda>_ _. 9), ch_hash = (\<lambda>_. None),
     ch_transaction = (\<lambda>_. Some 0)\<rparr>"

definition sample_provider :: "(nat, nat) provider" where
  "sample_provider r = \<lparr>ob_info = Some (Inl ''unsupported''), ob_triple = Some (Inr (3, 1, [])),
     ob_info_first = True, ob_storage = Some (Inr 9), ob_block_hash = Some (Inr None),
     ob_full_block = Some (Inr None), ob_transaction = Some (Inr (Some 0)), ob_any = Some (Inr 0)\<rparr>"

definition sample_arrivals :: "(bytes, nat, nat) arrival list" where
  "sample_arrivals = [([Storage 1 2 7, Basic 5 8], False, \<lambda>_. sample_provider)]"

definition sample_asked :: "sender \<Rightarrow> question" where
  "sample_asked s = (if s = 7 then QSlot 1 2 else QAccount 5)"

theorem backend_answers_everyone_witness:
  "waiting (snd (snd (poll_handler sample_ops (\<lambda>_. sample_provider) sample_arrivals
     (run_handler sample_ops [] (handler_new memdb_default None))))) = {#}"
proof -
  have r: "\<And>k. responsive ((\<lambda>_. sample_provider) (k :: nat))"
    by (simp add: responsive_def sample_provider_def)
  have a: "\<not> fst (snd a) \<and> (\<forall>k. responsive (snd (snd a) k))" if "a \<in> set sample_arrivals" for a
    using that r by (auto simp: sample_arrivals_def)
  from backend_answers_everyone [of "\<lambda>_. sample_provider" sample_arrivals sample_ops "[]" memdb_default None, OF r a]
  show ?thesis by (auto split: prod.splits)
qed



text \<open>
  C17: one pass of the handler over its requests in progress polls each of them exactly once,
  last one first, although requests are removed by swapping and pushed back meanwhile: its
  effect is that of polling the requests of the initial list in turn, and the pool it leaves is
  the bag of those that were not ready.
\<close>

theorem poll_pass_polls_each_once:
  "let (not_ready, g) = poll_each ops obs (length (h_pending h)) (h_pending h) (h\<lparr>h_pending := []\<rparr>);
       h' = poll_all ops obs h
   in mset (h_pending h') = not_ready \<and> h'\<lparr>h_pending := []\<rparr> = g"
  using poll_pass_each [of "length (h_pending h)" h "h_pending h" ops obs]
  by (auto simp: poll_all_def Let_def split: prod.split)

section \<open>What updates do not keep\<close>

text \<open>
  \<open>insert_or_update_storage\<close> replaces all cached slots of an address; a fetch that was in flight
  overwrites an account that was updated meanwhile; requests that arrive together with the end of
  the channel are never served; and a slot that a commit set to zero is fetched again.
\<close>

lemma update_storage_replaces:
  "cached_slot (h_db (on_request ops (UpdateStorage [(a, st)]) h)) a i = bt_get st i"
  by (simp add: cached_slot_def)

lemma fetch_overwrites_update:
  "bt_get (db_accounts (h_db (finish_account ops a (Inr data) (on_request ops (UpdateAddress [(a, acc)]) h)))) a =
     Some (account_info ops data)"
  by (simp add: finish_account_def do_insert_account_def Let_def split: prod.split)

lemma closing_drops_requests:
  "h_queued h = [] \<Longrightarrow>
   poll_handler ops obs ((batch, True, ob) # rest) h = (True, rest, h\<lparr>h_queued := batch\<rparr>)"
  by (simp add: drain_queue_def)

lemma zero_commit_is_fetched_again:
  assumes "\<not> rv_is_empty rv acc" and "\<not> ac_selfdestructed acc" and "ac_storage acc = [(i, 0)]"
    and "h_db h = do_commit rv [(a, acc)] db"
  shows "on_request ops (Storage a i s) h = request_account_storage ops a i s h"
proof -
  have "cached_slot (h_db h) a i = None"
    using assms by (simp add: do_commit_def commit_account_def cached_slot_def commit_slot_def Let_def
        split: option.split)
  then show ?thesis by simp
qed

end
