(* ===== verification/Rust_Path.thy ===== *)
theory Rust_Path
  imports Prelude
begin

text \<open>
  The part of \<open>std::path\<close> (Unix) the program uses.  A \<open>Path\<close> is equal to another, ordered
  and hashed by its \<open>components()\<close>, so where only that matters a path is the list of its
  components; \<open>components\<close> reads it off the text.  \<open>raw_push\<close> is \<open>PathBuf::push\<close> on the text
  itself, for the code that prints what it joined.
\<close>

datatype component = RootDir | CurDir | ParentDir | Normal string

type_synonym path = "component list"

text \<open>The derived order of \<open>Component\<close>: by constructor, then by name.\<close>

fun component_rank :: "component \<Rightarrow> nat" where
  "component_rank RootDir = 0"
| "component_rank CurDir = 1"
| "component_rank ParentDir = 2"
| "component_rank (Normal _) = 3"

fun component_name :: "component \<Rightarrow> string" where
  "component_name (Normal s) = s"
| "component_name _ = []"

lemma component_rank_name_inj:
  "component_rank a = component_rank b \<Longrightarrow> component_name a = component_name b \<Longrightarrow> a = b"
  by (cases a; cases b) simp_all

instantiation component :: linorder
begin

definition less_eq_component :: "component \<Rightarrow> component \<Rightarrow> bool" where
  "less_eq_component a b \<longleftrightarrow> component_rank a < component_rank b \<or>
     (component_rank a = component_rank b \<and> component_name a \<le> component_name b)"

definition less_component :: "component \<Rightarrow> component \<Rightarrow> bool" where
  "less_component a b \<longleftrightarrow> component_rank a < component_rank b \<or>
     (component_rank a = component_rank b \<and> component_name a < component_name b)"

instance
proof
  fix a b c :: component
  show "a < b \<longleftrightarrow> a \<le> b \<and> \<not> b \<le> a"
    by (auto simp: less_eq_component_def less_component_def)
  show "a \<le> a"
    by (simp add: less_eq_component_def)
  show "a \<le> b \<Longrightarrow> b \<le> c \<Longrightarrow> a \<le> c"
    by (auto simp: less_eq_component_def)
  show "a \<le> b \<Longrightarrow> b \<le> a \<Longrightarrow> a = b"
    by (auto simp: less_eq_component_def intro: component_rank_name_inj)
  show "a \<le> b \<or> b \<le> a"
    by (auto simp: less_eq_component_def)
qed

end

section \<open>Operations on components\<close>

definition has_root :: "path \<Rightarrow> bool" where
  "has_root p \<longleftrightarrow> (case p of RootDir # _ \<Rightarrow> True | _ \<Rightarrow> False)"

definition path_join :: "path \<Rightarrow> path \<Rightarrow> path" where
  "path_join a b =
     (if has_root b then b else if a = [] then b else a @ dropWhile (\<lambda>c. c = CurDir) b)"

fun path_strip_prefix :: "path \<Rightarrow> path \<Rightarrow> path option" where
  "path_strip_prefix p [] = Some p"
| "path_strip_prefix [] (b # base) = None"
| "path_strip_prefix (c # p) (b # base) = (if c = b then path_strip_prefix p base else None)"

definition path_ends_with :: "path \<Rightarrow> path \<Rightarrow> bool" where
  "path_ends_with p q \<longleftrightarrow> suffix q p"

definition path_parent :: "path \<Rightarrow> path option" where
  "path_parent p = (if p = [] \<or> last p = RootDir then None else Some (butlast p))"

definition path_file_name :: "path \<Rightarrow> string option" where
  "path_file_name p =
     (if p = [] then None else case last p of Normal s \<Rightarrow> Some s | _ \<Rightarrow> None)"

text \<open>
  \<open>rsplit_file_at_dot\<close>: the name before and after the last dot; \<open>..\<close> and a name whose only
  dot leads it have no extension.
\<close>

definition split_extension :: "string \<Rightarrow> string \<times> string option" where
  "split_extension s =
     (if s = ''..'' then (s, None)
      else let tl_rev = takeWhile (\<lambda>c. c \<noteq> CHR ''.'') (rev s);
               rest = dropWhile (\<lambda>c. c \<noteq> CHR ''.'') (rev s)
           in case rest of
                [] \<Rightarrow> (s, None)
              | _ # stem_rev \<Rightarrow> if stem_rev = [] then (s, None)
                               else (rev stem_rev, Some (rev tl_rev)))"

definition path_extension :: "path \<Rightarrow> string option" where
  "path_extension p =
     (case path_file_name p of None \<Rightarrow> None | Some n \<Rightarrow> snd (split_extension n))"

definition path_with_extension :: "path \<Rightarrow> string \<Rightarrow> path" where
  "path_with_extension p ext =
     (case path_file_name p of
        None \<Rightarrow> p
      | Some n \<Rightarrow> butlast p @ [Normal (fst (split_extension n) @ (if ext = [] then [] else CHR ''.'' # ext))])"

text \<open>
  What \<open>components()\<close> yields: the root only in front, a leading \<open>.\<close> only in front of a
  relative path, and names that are no separator form.
\<close>

definition name_ok :: "string \<Rightarrow> bool" where
  "name_ok s \<longleftrightarrow> s \<noteq> [] \<and> s \<noteq> ''.'' \<and> s \<noteq> ''..'' \<and> CHR ''/'' \<notin> set s"

fun body_component :: "component \<Rightarrow> bool" where
  "body_component ParentDir = True"
| "body_component (Normal s) = name_ok s"
| "body_component _ = False"

definition path_wf :: "path \<Rightarrow> bool" where
  "path_wf p \<longleftrightarrow> (case p of
      [] \<Rightarrow> True
    | c # cs \<Rightarrow> (c = RootDir \<or> c = CurDir \<or> body_component c) \<and> list_all body_component cs)"

subsection \<open>The text of a path\<close>

fun split_on :: "char \<Rightarrow> string \<Rightarrow> string list" where
  "split_on sep [] = [[]]"
| "split_on sep (c # s) =
     (if c = sep then [] # split_on sep s
      else case split_on sep s of
             [] \<Rightarrow> [[c]]
           | w # ws \<Rightarrow> (c # w) # ws)"

definition segment_component :: "string \<Rightarrow> component option" where
  "segment_component s =
     (if s = [] \<or> s = ''.'' then None else if s = ''..'' then Some ParentDir else Some (Normal s))"

definition components :: "string \<Rightarrow> path" where
  "components s =
     (case split_on CHR ''/'' s of
        [] \<Rightarrow> []
      | w # ws \<Rightarrow>
          (if s \<noteq> [] \<and> hd s = CHR ''/'' then [RootDir] else if w = ''.'' then [CurDir] else [])
          @ List.map_filter segment_component (w # ws))"

fun component_text :: "component \<Rightarrow> string" where
  "component_text RootDir = ''/''"
| "component_text CurDir = ''.''"
| "component_text ParentDir = ''..''"
| "component_text (Normal s) = s"

text \<open>\<open>PathBuf::push\<close> on the text: an absolute argument replaces, else one separator is put.\<close>

definition raw_has_root :: "string \<Rightarrow> bool" where
  "raw_has_root s \<longleftrightarrow> s \<noteq> [] \<and> hd s = CHR ''/''"

definition raw_push :: "string \<Rightarrow> string \<Rightarrow> string" where
  "raw_push base p =
     (if raw_has_root p then p
      else if base = [] \<or> last base = CHR ''/'' then base @ p
      else base @ CHR ''/'' # p)"

text \<open>The text of a path collected from components (\<open>iter().collect::<PathBuf>()\<close>).\<close>

definition path_text :: "path \<Rightarrow> string" where
  "path_text p = foldl (\<lambda>acc c. raw_push acc (component_text c)) [] p"

section \<open>Facts\<close>

lemma strip_prefix_iff: "path_strip_prefix p base = Some r \<longleftrightarrow> p = base @ r"
  by (induction p base rule: path_strip_prefix.induct) auto

lemma strip_prefix_append [simp]: "path_strip_prefix (base @ r) base = Some r"
  by (simp add: strip_prefix_iff)

lemma body_not_CurDir: "list_all body_component p \<Longrightarrow> dropWhile (\<lambda>c. c = CurDir) p = p"
  by (cases p) (auto split: if_splits)

lemma path_wf_join [wf_intros]: "path_wf a \<Longrightarrow> path_wf b \<Longrightarrow> path_wf (path_join a b)"
  by (auto simp: path_wf_def path_join_def has_root_def body_not_CurDir
      split: list.splits component.splits)

lemma join_relative:
  "base \<noteq> [] \<Longrightarrow> list_all body_component p \<Longrightarrow> path_join base p = base @ p"
  by (cases p) (auto simp: path_join_def has_root_def split: component.splits)

lemma strip_prefix_join:
  "base \<noteq> [] \<Longrightarrow> list_all body_component p \<Longrightarrow> path_strip_prefix (path_join base p) base = Some p"
  by (simp add: join_relative)

lemma parent_length: "path_parent p = Some q \<Longrightarrow> length q < length p"
  by (auto simp: path_parent_def split: if_splits)

lemma parent_append: "path_parent p = Some q \<Longrightarrow> p = q @ [last p]"
  by (auto simp: path_parent_def split: if_splits)

lemma path_wf_parent [wf_intros]: "path_wf p \<Longrightarrow> path_parent p = Some q \<Longrightarrow> path_wf q"
proof -
  assume "path_wf p" and "path_parent p = Some q"
  then have "path_wf (q @ [last p])" by (metis parent_append)
  then show "path_wf q"
    by (cases q) (simp_all add: path_wf_def)
qed

lemma split_on_no_sep: "w \<in> set (split_on sep s) \<Longrightarrow> sep \<notin> set w"
  by (induction s arbitrary: w) (auto split: if_splits list.splits)

lemma segment_component_body:
  "CHR ''/'' \<notin> set w \<Longrightarrow> segment_component w = Some c \<Longrightarrow> body_component c"
  by (auto simp: segment_component_def name_ok_def split: if_splits)

lemma map_filter_mem: "c \<in> set (List.map_filter f xs) \<longleftrightarrow> (\<exists>x \<in> set xs. f x = Some c)"
  by (induction xs) (auto simp: List.map_filter_simps split: option.splits)

lemma components_wf [wf_intros]: "path_wf (components s)"
proof -
  have body: "list_all body_component (List.map_filter segment_component ws)"
    if "set ws \<subseteq> set (split_on CHR ''/'' s)" for ws
    unfolding list_all_iff Ball_def map_filter_mem
    using that split_on_no_sep segment_component_body by (meson subsetD)
  show ?thesis
  proof (cases "split_on CHR ''/'' s")
    case Nil
    then show ?thesis by (simp add: components_def path_wf_def)
  next
    case (Cons w ws)
    define body where "body = List.map_filter segment_component (w # ws)"
    have b: "list_all body_component body"
      unfolding body_def using body [of "w # ws"] Cons by simp
    then have "path_wf ((if s \<noteq> [] \<and> hd s = CHR ''/'' then [RootDir]
                    else if w = ''.'' then [CurDir] else []) @ body)"
      by (auto simp: path_wf_def split: list.splits)
    then show ?thesis by (simp add: components_def Cons body_def)
  qed
qed

end
