(* ===== verification/Graph_Edges.thy ===== *)
theory Graph_Edges
  imports Rust_Path
begin

text \<open>
  The import graph of \<open>crates/compilers/\<dots>/resolver/mod.rs\<close>: \<open>GraphEdges\<close> and its queries, the
  iterator \<open>NodesIter\<close> over a node and its transitive imports, and \<open>insert_imports\<close>, which
  collects a node's imports into a compiler input.  An index out of range is a panic, the value
  \<open>None\<close>; \<open>edges_wf\<close> excludes it.  The locale \<open>import_graph\<close> states what a traversal has to do to
  visit exactly what is reachable.
\<close>

section \<open>Reachability\<close>

locale import_graph =
  fixes succ :: "'n \<Rightarrow> 'n list"
begin

definition edge :: "('n \<times> 'n) set" where
  "edge = {(a, b). b \<in> set (succ a)}"

definition reach :: "'n set \<Rightarrow> 'n set" where
  "reach A = edge\<^sup>* `` A"

definition closed :: "'n set \<Rightarrow> bool" where
  "closed V \<longleftrightarrow> (\<forall>a \<in> V. set (succ a) \<subseteq> V)"

lemma reach_superset: "A \<subseteq> reach A"
  by (auto simp: reach_def)

lemma reach_step: "a \<in> reach A \<Longrightarrow> b \<in> set (succ a) \<Longrightarrow> b \<in> reach A"
  by (auto simp: reach_def edge_def intro: rtrancl_into_rtrancl)

lemma reach_mono: "A \<subseteq> B \<Longrightarrow> reach A \<subseteq> reach B"
  by (auto simp: reach_def)

lemma reach_closed: "closed (reach A)"
  by (auto simp: closed_def intro: reach_step)

lemma closed_superset:
  assumes "A \<subseteq> V" and "closed V" shows "reach A \<subseteq> V"
proof
  fix b assume "b \<in> reach A"
  then obtain a where "a \<in> A" and "(a, b) \<in> edge\<^sup>*" by (auto simp: reach_def)
  from this(2,1) assms show "b \<in> V"
    by (induction rule: rtrancl_induct) (auto simp: edge_def closed_def)
qed

lemma reach_trans: "A \<subseteq> reach B \<Longrightarrow> reach A \<subseteq> reach B"
  by (rule closed_superset) (auto simp: reach_closed)

text \<open>A visited set that contains the start, is closed, and was only grown along edges.\<close>

lemma traversal_exact:
  assumes "A \<subseteq> V" and "closed V" and "V \<subseteq> reach A" shows "V = reach A"
  using assms closed_superset [of A V] by blast

end

section \<open>\<open>GraphEdges\<close>\<close>

record ('c, 'd) GraphEdges =
  ge_edges :: "nat list list"
  ge_rev_edges :: "nat list list"
  ge_indices :: "(path \<times> nat) list"
  ge_rev_indices :: "(nat \<times> path) list"
  ge_versions :: "(nat \<times> 'c list option) list"
  ge_data :: "'d list"
  ge_num_input_files :: nat
  ge_unresolved_imports :: "(path \<times> path) set"
  ge_include_paths :: "path set"

definition at :: "'a list \<Rightarrow> nat \<Rightarrow> 'a option" where
  "at xs n = (if n < length xs then Some (xs ! n) else None)"

definition files :: "('c, 'd) GraphEdges \<Rightarrow> nat list" where
  "files g = [0..<length (ge_edges g)]"

definition source_files :: "('c, 'd) GraphEdges \<Rightarrow> nat list" where
  "source_files g = [0..<ge_num_input_files g]"

definition library_files :: "('c, 'd) GraphEdges \<Rightarrow> nat list" where
  "library_files g = drop (ge_num_input_files g) (files g)"

definition imported_nodes :: "nat list list \<Rightarrow> nat \<Rightarrow> nat list option" where
  "imported_nodes es from = at es from"

text \<open>
  \<open>NodesIter\<close>: the queue of nodes and the set of those that were expanded.  A node is yielded
  each time it is taken from the queue, and expanded the first time.
\<close>

definition nodes_next :: "nat list list \<Rightarrow> nat list \<times> nat list
    \<Rightarrow> (nat \<times> (nat list \<times> nat list)) option option" where
  "nodes_next es = (\<lambda>(stack, visited).
     case stack of
       [] \<Rightarrow> Some None
     | node # rest \<Rightarrow>
         if node \<in> set visited then Some (Some (node, (rest, visited)))
         else (case imported_nodes es node of
                 None \<Rightarrow> None
               | Some deps \<Rightarrow> Some (Some (node, (rest @ deps, node # visited)))))"

definition edge_budget :: "nat list list \<Rightarrow> nat list \<Rightarrow> nat" where
  "edge_budget es visited =
     (\<Sum>n \<leftarrow> filter (\<lambda>n. n \<notin> set visited) [0..<length es]. length (es ! n))"

lemma budget_split:
  "n < length es \<Longrightarrow> n \<notin> set visited \<Longrightarrow>
   edge_budget es visited = length (es ! n) + edge_budget es (n # visited)"
proof -
  assume n: "n < length es" and v: "n \<notin> set visited"
  have "[0..<length es] = [0..<n] @ n # [Suc n..<length es]"
    using n by (metis upt_add_eq_append upt_conv_Cons le_add_same_cancel1 less_imp_add_positive less_imp_le_nat zero_le)
  moreover have "filter (\<lambda>m. m \<notin> insert n (set visited)) xs = filter (\<lambda>m. m \<notin> set visited) xs"
    if "n \<notin> set xs" for xs
    using that by (induction xs) auto
  ultimately show ?thesis using v by (simp add: edge_budget_def)
qed

function nodes_collect :: "nat list list \<Rightarrow> nat list \<times> nat list \<Rightarrow> nat list option" where
  "nodes_collect es st =
     (case nodes_next es st of
        None \<Rightarrow> None
      | Some None \<Rightarrow> Some []
      | Some (Some (node, st')) \<Rightarrow> map_option (Cons node) (nodes_collect es st'))"
  by pat_completeness auto

termination
proof (relation "measure (\<lambda>(es, stack, visited). length stack + edge_budget es visited)")
  show "wf (measure (\<lambda>(es, stack, visited). length stack + edge_budget es visited))" by simp
next
  fix es st x2 x2a node st'
  assume "nodes_next es st = Some x2" and "x2 = Some x2a" and "(node, st') = x2a"
  then have nx: "nodes_next es st = Some (Some (node, st'))" by simp
  obtain stack visited where st: "st = (stack, visited)" by (cases st)
  from nx st obtain rest where stack: "stack = node # rest"
    by (auto simp: nodes_next_def split: list.splits if_splits option.splits)
  show "((es, st'), es, st) \<in> measure (\<lambda>(es, stack, visited). length stack + edge_budget es visited)"
  proof (cases "node \<in> set visited")
    case True
    with nx st stack show ?thesis by (auto simp: nodes_next_def)
  next
    case False
    with nx st stack have "node < length es" and "st' = (rest @ es ! node, node # visited)"
      by (auto simp: nodes_next_def imported_nodes_def at_def split: option.splits if_splits)
    with False st stack budget_split [of node es visited] show ?thesis by simp
  qed
qed

declare nodes_collect.simps [simp del]

definition node_ids :: "nat list list \<Rightarrow> nat \<Rightarrow> nat list option" where
  "node_ids es start = nodes_collect es ([start], [])"

definition all_imported_nodes :: "nat list list \<Rightarrow> nat \<Rightarrow> nat list option" where
  "all_imported_nodes es start = map_option (drop 1) (node_ids es start)"

definition node_path :: "('c, 'd) GraphEdges \<Rightarrow> nat \<Rightarrow> path option" where
  "node_path g i = map_of (ge_rev_indices g) i"

definition node_id :: "('c, 'd) GraphEdges \<Rightarrow> path \<Rightarrow> nat option" where
  "node_id g f = map_of (ge_indices g) f"

text \<open>All the paths of a list of nodes; a node without a path is a panic.\<close>

fun node_paths :: "('c, 'd) GraphEdges \<Rightarrow> nat list \<Rightarrow> path list option" where
  "node_paths g [] = Some []"
| "node_paths g (i # is) =
     (case (node_path g i, node_paths g is) of (Some p, Some ps) \<Rightarrow> Some (p # ps) | _ \<Rightarrow> None)"

definition imports_of :: "('c, 'd) GraphEdges \<Rightarrow> path \<Rightarrow> path set option" where
  "imports_of g f =
     (case map_of (ge_indices g) f of
        Some start \<Rightarrow>
          (case all_imported_nodes (ge_edges g) start of
             None \<Rightarrow> None
           | Some is \<Rightarrow> map_option set (node_paths g is))
      | None \<Rightarrow> Some {})"

definition importers :: "('c, 'd) GraphEdges \<Rightarrow> path \<Rightarrow> path set option" where
  "importers g f =
     (case map_of (ge_indices g) f of
        Some start \<Rightarrow>
          (case at (ge_rev_edges g) start of
             None \<Rightarrow> None
           | Some is \<Rightarrow> map_option set (node_paths g is))
      | None \<Rightarrow> Some {})"

definition is_input_file :: "('c, 'd) GraphEdges \<Rightarrow> path \<Rightarrow> bool" where
  "is_input_file g f =
     (case map_of (ge_indices g) f of Some idx \<Rightarrow> idx < ge_num_input_files g | None \<Rightarrow> False)"

definition file_version_requirement :: "('c, 'd) GraphEdges \<Rightarrow> path \<Rightarrow> 'c list option" where
  "file_version_requirement g f =
     (case map_of (ge_indices g) f of
        None \<Rightarrow> None
      | Some idx \<Rightarrow> (case map_of (ge_versions g) idx of None \<Rightarrow> None | Some r \<Rightarrow> r))"

definition get_parsed_source :: "('c, 'd) GraphEdges \<Rightarrow> path \<Rightarrow> 'd option" where
  "get_parsed_source g f =
     (case map_of (ge_indices g) f of None \<Rightarrow> None | Some idx \<Rightarrow> at (ge_data g) idx)"

section \<open>The iterator visits what is reachable\<close>

definition edges_wf :: "nat list list \<Rightarrow> bool" where
  "edges_wf es \<longleftrightarrow> (\<forall>ns \<in> set es. \<forall>n \<in> set ns. n < length es)"

definition succs :: "nat list list \<Rightarrow> nat \<Rightarrow> nat list" where
  "succs es n = (case at es n of None \<Rightarrow> [] | Some ns \<Rightarrow> ns)"

interpretation nodes: import_graph "succs es" for es .

lemma succs_range: "edges_wf es \<Longrightarrow> m \<in> set (succs es n) \<Longrightarrow> m < length es"
  by (auto simp: succs_def at_def edges_wf_def split: if_splits)

lemma reach_range: "edges_wf es \<Longrightarrow> A \<subseteq> {..<length es} \<Longrightarrow> nodes.reach es A \<subseteq> {..<length es}"
  by (rule nodes.closed_superset) (auto simp: nodes.closed_def succs_range)

lemma nodes_collect_spec:
  assumes "edges_wf es" and "set stack \<subseteq> {..<length es}"
    and "\<forall>v \<in> set visited. set (succs es v) \<subseteq> set visited \<union> set stack"
  shows "\<exists>ns. nodes_collect es (stack, visited) = Some ns \<and>
     set stack \<subseteq> set ns \<and> set ns \<subseteq> nodes.reach es (set stack) \<and>
     nodes.closed es (set visited \<union> set ns) \<and>
     length ns \<le> length stack + edge_budget es visited"
  using assms(2,3)
proof (induction "length stack + edge_budget es visited" arbitrary: stack visited rule: less_induct)
  case less
  show ?case
  proof (cases stack)
    case Nil
    with less.prems show ?thesis
      by (simp add: nodes_collect.simps [of es "([], visited)"] nodes_next_def nodes.closed_def)
  next
    case (Cons n rest)
    show ?thesis
    proof (cases "n \<in> set visited")
      case True
      have "\<exists>ns. nodes_collect es (rest, visited) = Some ns \<and> set rest \<subseteq> set ns \<and>
          set ns \<subseteq> nodes.reach es (set rest) \<and> nodes.closed es (set visited \<union> set ns) \<and>
          length ns \<le> length rest + edge_budget es visited"
        using less.prems True Cons by (intro less.hyps) auto
      then obtain ns where ns: "nodes_collect es (rest, visited) = Some ns" "set rest \<subseteq> set ns"
        "set ns \<subseteq> nodes.reach es (set rest)" "nodes.closed es (set visited \<union> set ns)"
        "length ns \<le> length rest + edge_budget es visited" by blast
      have "nodes_collect es (stack, visited) = Some (n # ns)"
        using ns(1) True Cons by (subst nodes_collect.simps) (simp add: nodes_next_def)
      moreover have "set (n # ns) \<subseteq> nodes.reach es (set stack)"
        using ns(3) nodes.reach_mono [of "set rest" "set stack"] nodes.reach_superset [of "set stack"] Cons
        by (auto intro: subsetD)
      moreover have "nodes.closed es (set visited \<union> set (n # ns))"
        using ns(4) True by (simp add: insert_absorb)
      ultimately show ?thesis using ns(2,5) Cons by auto
    next
      case False
      have n: "n < length es" using less.prems(1) Cons by simp
      then have sn: "succs es n = es ! n" by (simp add: succs_def at_def)
      have budget: "edge_budget es visited = length (es ! n) + edge_budget es (n # visited)"
        by (rule budget_split [OF n False])
      have "\<exists>ns. nodes_collect es (rest @ es ! n, n # visited) = Some ns \<and> set (rest @ es ! n) \<subseteq> set ns \<and>
          set ns \<subseteq> nodes.reach es (set (rest @ es ! n)) \<and> nodes.closed es (set (n # visited) \<union> set ns) \<and>
          length ns \<le> length (rest @ es ! n) + edge_budget es (n # visited)"
        using less.prems Cons budget sn succs_range [OF assms(1), of _ n]
        by (intro less.hyps) auto
      then obtain ns where ns: "nodes_collect es (rest @ es ! n, n # visited) = Some ns"
        "set (rest @ es ! n) \<subseteq> set ns" "set ns \<subseteq> nodes.reach es (set (rest @ es ! n))"
        "nodes.closed es (set (n # visited) \<union> set ns)"
        "length ns \<le> length (rest @ es ! n) + edge_budget es (n # visited)" by blast
      have "nodes_collect es (stack, visited) = Some (n # ns)"
        using ns(1) n False Cons
        by (subst nodes_collect.simps) (simp add: nodes_next_def imported_nodes_def at_def)
      moreover have "nodes.reach es (set (rest @ es ! n)) \<subseteq> nodes.reach es (set stack)"
      proof (rule nodes.reach_trans)
        show "set (rest @ es ! n) \<subseteq> nodes.reach es (set stack)"
          using nodes.reach_superset [of "set stack" es] nodes.reach_step [of n es "set stack"] Cons sn
          by auto
      qed
      with ns(3) have "set (n # ns) \<subseteq> nodes.reach es (set stack)"
        using nodes.reach_superset [of "set stack" es] Cons by auto
      moreover have "nodes.closed es (set visited \<union> set (n # ns))" using ns(4) by simp
      ultimately show ?thesis using ns(2,5) Cons budget by auto
    qed
  qed
qed

lemma node_ids_spec:
  assumes "edges_wf es" and "start < length es"
  obtains ns where "node_ids es start = Some ns" and "set ns = nodes.reach es {start}"
    and "ns = start # drop 1 ns" and "length ns \<le> 1 + length (concat es)"
proof -
  from nodes_collect_spec [OF assms(1), of "[start]" "[]"] assms(2)
  obtain ns where ns: "nodes_collect es ([start], []) = Some ns" "{start} \<subseteq> set ns"
    "set ns \<subseteq> nodes.reach es {start}" "nodes.closed es (set ns)" "length ns \<le> 1 + edge_budget es []"
    by auto
  have eq: "nodes_collect es ([start], []) =
      map_option (Cons start) (nodes_collect es (es ! start, [start]))"
    using assms(2)
    by (subst nodes_collect.simps) (simp add: nodes_next_def imported_nodes_def at_def)
  obtain zs where zs: "ns = start # zs"
    using eq ns(1) by (metis map_option_eq_Some)
  have first: "ns = start # drop 1 ns" unfolding zs by simp
  have "map (\<lambda>n. length (es ! n)) [0..<length es] = map length es"
    by (rule nth_equalityI) simp_all
  then have "edge_budget es [] = length (concat es)"
    by (simp add: edge_budget_def length_concat)
  with ns first show thesis
    using nodes.traversal_exact [OF ns(2,4,3)] by (intro that [of ns]) (simp_all add: node_ids_def)
qed

section \<open>Reverse edges\<close>

definition push_at :: "nat \<Rightarrow> nat \<Rightarrow> nat list list \<Rightarrow> nat list list option" where
  "push_at i x xss = (if i < length xss then Some (xss[i := xss ! i @ [x]]) else None)"

fun push_all :: "nat \<Rightarrow> nat list \<Rightarrow> nat list list \<Rightarrow> nat list list option" where
  "push_all idx [] rv = Some rv"
| "push_all idx (e # es) rv =
     (case push_at e idx rv of None \<Rightarrow> None | Some rv' \<Rightarrow> push_all idx es rv')"

fun build_rev :: "nat \<Rightarrow> nat list list \<Rightarrow> nat list list \<Rightarrow> nat list list option" where
  "build_rev idx [] rv = Some rv"
| "build_rev idx (es # rest) rv =
     (case push_all idx es rv of None \<Rightarrow> None | Some rv' \<Rightarrow> build_rev (Suc idx) rest rv')"

definition rev_edges_of :: "nat list list \<Rightarrow> nat list list option" where
  "rev_edges_of es = build_rev 0 es (map (\<lambda>_. []) es)"

lemma push_all_spec:
  assumes "\<forall>e \<in> set es. e < length rv"
  shows "\<exists>rv'. push_all idx es rv = Some rv' \<and> length rv' = length rv \<and>
     (\<forall>e < length rv. rv' ! e = rv ! e @ replicate (count_list es e) idx)"
  using assms
proof (induction es arbitrary: rv)
  case (Cons e es)
  let ?r = "rv[e := rv ! e @ [idx]]"
  have e: "e < length rv" using Cons.prems by simp
  from Cons.IH [of ?r] Cons.prems obtain rv' where r: "push_all idx es ?r = Some rv'"
    "length rv' = length rv" "\<forall>k < length rv. rv' ! k = ?r ! k @ replicate (count_list es k) idx"
    by auto
  have "rv' ! k = rv ! k @ replicate (count_list (e # es) k) idx" if "k < length rv" for k
    using r(3) that e by (cases "k = e") (auto simp: replicate_append_same [symmetric])
  with r e show ?case by (auto simp: push_at_def)
qed simp

lemma build_rev_spec:
  assumes "\<forall>es \<in> set ess. \<forall>e \<in> set es. e < length rv"
  shows "\<exists>rv'. build_rev idx ess rv = Some rv' \<and> length rv' = length rv \<and>
     (\<forall>e < length rv. rv' ! e =
        rv ! e @ concat (map (\<lambda>k. replicate (count_list (ess ! k) e) (idx + k)) [0..<length ess]))"
  using assms
proof (induction ess arbitrary: idx rv)
  case (Cons es ess)
  from push_all_spec [of es rv idx] Cons.prems obtain r1 where r1: "push_all idx es rv = Some r1"
    "length r1 = length rv" "\<forall>e < length rv. r1 ! e = rv ! e @ replicate (count_list es e) idx" by auto
  from Cons.IH [of r1 "Suc idx"] Cons.prems r1(2) obtain r2 where r2: "build_rev (Suc idx) ess r1 = Some r2"
    "length r2 = length rv" "\<forall>e < length rv. r2 ! e =
        r1 ! e @ concat (map (\<lambda>k. replicate (count_list (ess ! k) e) (Suc idx + k)) [0..<length ess])"
    by auto
  have "concat (map (\<lambda>k. replicate (count_list ((es # ess) ! k) e) (idx + k)) [0..<Suc (length ess)]) =
      replicate (count_list es e) idx @
      concat (map (\<lambda>k. replicate (count_list (ess ! k) e) (Suc idx + k)) [0..<length ess])" for e
    by (simp add: upt_conv_Cons map_Suc_upt [symmetric] comp_def del: upt_Suc)
  with r1 r2 show ?case by (auto simp del: upt_Suc)
qed simp

section \<open>Collecting imports\<close>

text \<open>
  \<open>insert_imports\<close>, its recursion as a stack: the dependencies of a node that is inserted are
  looped over before the rest.  The state is the sources collected and the nodes processed.
\<close>

type_synonym 's sources = "(path, 's) btree"

definition unprocessed :: "nat list list \<Rightarrow> nat set \<Rightarrow> nat" where
  "unprocessed es processed = card ({..<length es} - processed)"

function insert_imports :: "nat list list \<Rightarrow> (nat \<Rightarrow> (path \<times> 's) option) \<Rightarrow> nat list
    \<Rightarrow> 's sources \<times> nat set \<Rightarrow> ('s sources \<times> nat set) option" where
  "insert_imports es all_nodes [] st = Some st"
| "insert_imports es all_nodes (dep # deps) (sources, processed) =
     (if dep \<in> processed then insert_imports es all_nodes deps (sources, processed)
      else case all_nodes dep of
             None \<Rightarrow> insert_imports es all_nodes deps (sources, insert dep processed)
           | Some (p, source) \<Rightarrow>
               (case imported_nodes es dep of
                  None \<Rightarrow> None
                | Some deps' \<Rightarrow>
                    insert_imports es all_nodes (deps' @ deps)
                      (bt_insert p source sources, insert dep processed)))"
  by pat_completeness auto

termination
proof (relation "measures [\<lambda>(es, all_nodes, deps, sources, processed). unprocessed es processed,
    \<lambda>(es, all_nodes, deps, sources, processed). length deps]", goal_cases)
  case (3 es all_nodes dep deps sources processed)
  have "unprocessed es (insert dep processed) \<le> unprocessed es processed"
    unfolding unprocessed_def by (rule card_mono) auto
  then show ?case by auto
next
  case (4 es all_nodes dep deps sources processed a p source deps')
  then have "dep \<in> {..<length es} - processed"
    by (auto simp: imported_nodes_def at_def split: if_splits)
  then have "unprocessed es (insert dep processed) < unprocessed es processed"
    unfolding unprocessed_def by (intro psubset_card_mono) auto
  then show ?case by simp
qed simp_all

text \<open>The loop over the input nodes of one version and profile.\<close>

fun collect_inputs :: "nat list list \<Rightarrow> (nat \<Rightarrow> (path \<times> 's) option) \<Rightarrow> nat list
    \<Rightarrow> 's sources \<times> nat set \<Rightarrow> ('s sources \<times> nat set) option" where
  "collect_inputs es all_nodes [] st = Some st"
| "collect_inputs es all_nodes (idx # rest) (sources, processed) =
     (case all_nodes idx of
        None \<Rightarrow> None
      | Some (p, source) \<Rightarrow>
          (case imported_nodes es idx of
             None \<Rightarrow> None
           | Some deps \<Rightarrow>
               (case insert_imports es all_nodes deps (bt_insert p source sources, processed) of
                  None \<Rightarrow> None
                | Some st \<Rightarrow> collect_inputs es all_nodes rest st)))"

definition version_sources :: "nat list list \<Rightarrow> (nat \<Rightarrow> (path \<times> 's) option) \<Rightarrow> nat list \<Rightarrow> 's sources option" where
  "version_sources es all_nodes inputs =
     map_option fst (collect_inputs es all_nodes inputs ([], set inputs))"

text \<open>What the sources hold, by the nodes that were inserted.\<close>

definition sources_extend :: "(nat \<Rightarrow> (path \<times> 's) option) \<Rightarrow> 's sources \<Rightarrow> nat set \<Rightarrow> 's sources \<Rightarrow> bool" where
  "sources_extend all_nodes before N after \<longleftrightarrow>
     (\<forall>p s. bt_get after p = Some s \<longleftrightarrow>
        (\<exists>n \<in> N. all_nodes n = Some (p, s)) \<or>
        (\<forall>n \<in> N. \<forall>s. all_nodes n \<noteq> Some (p, s)) \<and> bt_get before p = Some s)"

definition nodes_ok :: "nat list list \<Rightarrow> (nat \<Rightarrow> (path \<times> 's) option) \<Rightarrow> bool" where
  "nodes_ok es all_nodes \<longleftrightarrow> edges_wf es \<and> (\<forall>n. all_nodes n \<noteq> None \<longleftrightarrow> n < length es) \<and>
     (\<forall>n m p s s'. all_nodes n = Some (p, s) \<longrightarrow> all_nodes m = Some (p, s') \<longrightarrow> n = m)"

lemma nodes_ok_Some: "nodes_ok es all_nodes \<Longrightarrow> n < length es \<Longrightarrow> \<exists>p s. all_nodes n = Some (p, s)"
  unfolding nodes_ok_def by (metis option.exhaust prod.exhaust)

lemma sources_extend_empty: "sources_extend all_nodes src {} src"
  by (simp add: sources_extend_def)

lemma sources_extend_insert:
  assumes ok: "nodes_ok es all_nodes" and n: "all_nodes n = Some (p, s)"
    and ext: "sources_extend all_nodes (bt_insert p s before) N after"
  shows "sources_extend all_nodes before (insert n N) after"
proof -
  have uniq: "m = n \<and> s' = s" if "all_nodes m = Some (p, s')" for m s'
    using ok n that unfolding nodes_ok_def by (metis option.inject prod.inject)
  have "bt_get after q = Some t \<longleftrightarrow>
      (\<exists>m \<in> insert n N. all_nodes m = Some (q, t)) \<or>
      (\<forall>m \<in> insert n N. \<forall>s. all_nodes m \<noteq> Some (q, s)) \<and> bt_get before q = Some t" for q t
  proof (cases "q = p")
    case True
    have "bt_get after p = Some t \<longleftrightarrow> (\<exists>m \<in> N. all_nodes m = Some (p, t)) \<or>
        (\<forall>m \<in> N. \<forall>s. all_nodes m \<noteq> Some (p, s)) \<and> bt_get (bt_insert p s before) p = Some t"
      using ext unfolding sources_extend_def by blast
    then have "bt_get after p = Some t \<longleftrightarrow> (\<exists>m \<in> N. all_nodes m = Some (p, t)) \<or>
        (\<forall>m \<in> N. \<forall>s. all_nodes m \<noteq> Some (p, s)) \<and> s = t" by simp
    then have "bt_get after p = Some t \<longleftrightarrow> t = s"
      using n uniq by (cases "n \<in> N") blast+
    moreover have "(\<exists>m \<in> insert n N. all_nodes m = Some (p, t)) \<longleftrightarrow> t = s" using n uniq by blast
    ultimately show ?thesis using n unfolding True by blast
  next
    case False
    with ext n show ?thesis unfolding sources_extend_def by auto
  qed
  then show ?thesis by (simp add: sources_extend_def)
qed

text \<open>The nodes that were processed: the state \<open>(sources, processed)\<close> before and after.\<close>

definition traversed :: "nat list list \<Rightarrow> (nat \<Rightarrow> (path \<times> 's) option) \<Rightarrow> nat set
    \<Rightarrow> 's sources \<times> nat set \<Rightarrow> 's sources \<times> nat set \<Rightarrow> bool" where
  "traversed es all_nodes from st st' \<longleftrightarrow>
     snd st \<union> from \<subseteq> snd st' \<and> snd st' \<subseteq> snd st \<union> nodes.reach es from \<and>
     (\<forall>n \<in> snd st' - snd st. set (succs es n) \<subseteq> snd st') \<and>
     sources_extend all_nodes (fst st) (snd st' - snd st) (fst st')"

lemma insert_imports_spec:
  assumes "nodes_ok es all_nodes" and "set deps \<subseteq> {..<length es}"
  shows "\<exists>st'. insert_imports es all_nodes deps st = Some st' \<and> traversed es all_nodes (set deps) st st'"
  using assms
proof (induction es all_nodes deps st rule: insert_imports.induct)
  case (1 es all_nodes st)
  then show ?case by (simp add: traversed_def sources_extend_empty)
next
  case (2 es all_nodes dep deps sources processed)
  have dep: "dep < length es" using 2(5) by simp
  then obtain p s where ps: "all_nodes dep = Some (p, s)" using nodes_ok_Some [OF 2(4)] by blast
  have sub: "nodes.reach es (set deps) \<subseteq> nodes.reach es (insert dep (set deps))"
    and depr: "dep \<in> nodes.reach es (insert dep (set deps))"
    using nodes.reach_mono [of "set deps" "insert dep (set deps)"]
      nodes.reach_superset [of "insert dep (set deps)"] by auto
  show ?case
  proof (cases "dep \<in> processed")
    case True
    from 2(5) have "set deps \<subseteq> {..<length es}" by simp
    from 2(1) [OF True 2(4) this] obtain st' where
      st': "insert_imports es all_nodes deps (sources, processed) = Some st'"
      and t: "traversed es all_nodes (set deps) (sources, processed) st'" by blast
    have "traversed es all_nodes (set (dep # deps)) (sources, processed) st'"
      using t sub True unfolding traversed_def by (simp, blast)
    with True st' show ?thesis by simp
  next
    case False
    have im: "imported_nodes es dep = Some (succs es dep)" using dep by (simp add: imported_nodes_def succs_def at_def)
    have rng: "set (succs es dep @ deps) \<subseteq> {..<length es}"
      using 2(5) 2(4) by (auto simp: nodes_ok_def dest: succs_range)
    from 2(3) [OF False ps refl im 2(4) rng]
    obtain st' where st': "insert_imports es all_nodes (succs es dep @ deps) (bt_insert p s sources, insert dep processed) = Some st'"
      and t: "traversed es all_nodes (set (succs es dep @ deps)) (bt_insert p s sources, insert dep processed) st'"
      by blast
    have reach: "nodes.reach es (set (succs es dep @ deps)) \<subseteq> nodes.reach es (insert dep (set deps))"
      using sub depr nodes.reach_superset [of "set deps" es] nodes.reach_step [OF depr]
      by (intro nodes.reach_trans) auto
    have new: "snd st' - processed = insert dep (snd st' - insert dep processed)"
      using t False by (auto simp: traversed_def)
    have "sources_extend all_nodes sources (snd st' - processed) (fst st')"
      unfolding new using t ps 2(4) by (auto simp: traversed_def intro: sources_extend_insert)
    moreover have "set (succs es dep) \<subseteq> snd st'" using t by (auto simp: traversed_def)
    ultimately have "traversed es all_nodes (set (dep # deps)) (sources, processed) st'"
      using t reach depr by (auto simp: traversed_def)
    with st' False ps im show ?thesis by auto
  qed
qed

lemma sources_extend_trans:
  assumes ok: "nodes_ok es all_nodes" and a: "sources_extend all_nodes before N mid"
    and b: "sources_extend all_nodes mid M after"
  shows "sources_extend all_nodes before (N \<union> M) after"
proof -
  have uniq: "s = s'" if "all_nodes n = Some (p, s)" "all_nodes m = Some (p, s')" for n m p s s'
    using ok that unfolding nodes_ok_def by (metis option.inject prod.inject)
  show ?thesis
    unfolding sources_extend_def
  proof (intro allI)
    fix p s
    have "bt_get after p = Some s \<longleftrightarrow> (\<exists>n \<in> M. all_nodes n = Some (p, s)) \<or>
        (\<forall>n \<in> M. \<forall>s. all_nodes n \<noteq> Some (p, s)) \<and>
        ((\<exists>n \<in> N. all_nodes n = Some (p, s)) \<or>
         (\<forall>n \<in> N. \<forall>s. all_nodes n \<noteq> Some (p, s)) \<and> bt_get before p = Some s)"
      using a b unfolding sources_extend_def by presburger
    then show "bt_get after p = Some s \<longleftrightarrow> (\<exists>n \<in> N \<union> M. all_nodes n = Some (p, s)) \<or>
        (\<forall>n \<in> N \<union> M. \<forall>s. all_nodes n \<noteq> Some (p, s)) \<and> bt_get before p = Some s"
      using uniq by blast
  qed
qed

lemma sources_extend_one:
  "nodes_ok es all_nodes \<Longrightarrow> all_nodes n = Some (p, s) \<Longrightarrow> sources_extend all_nodes before {n} (bt_insert p s before)"
  by (rule sources_extend_insert) (auto simp: sources_extend_def)

text \<open>
  After the loop over the inputs: what was processed is reachable, and every node is expanded
  except the inputs still to come.
\<close>

lemma collect_inputs_spec:
  assumes "nodes_ok es all_nodes" and "set inputs \<subseteq> {..<length es} \<and> distinct inputs"
    and "set inputs \<subseteq> snd st" and "snd st \<subseteq> R" and "nodes.closed es R"
    and "\<forall>n \<in> snd st - set inputs. set (succs es n) \<subseteq> snd st"
    and "sources_extend all_nodes [] (snd st - set inputs) (fst st)"
  shows "\<exists>st'. collect_inputs es all_nodes inputs st = Some st' \<and> snd st \<subseteq> snd st' \<and> snd st' \<subseteq> R \<and>
     nodes.closed es (snd st') \<and> sources_extend all_nodes [] (snd st') (fst st')"
  using assms
proof (induction es all_nodes inputs st rule: collect_inputs.induct)
  case (1 es all_nodes st)
  then show ?case by (simp add: nodes.closed_def)
next
  case (2 es all_nodes idx rest sources processed)
  have idx: "idx < length es" using 2(3) by simp
  obtain p s where ps: "all_nodes idx = Some (p, s)" using nodes_ok_Some [OF 2(2) idx] by blast
  have im: "imported_nodes es idx = Some (succs es idx)"
    using idx by (simp add: imported_nodes_def succs_def at_def)
  have rng: "set (succs es idx) \<subseteq> {..<length es}" using 2(2) by (auto simp: nodes_ok_def dest: succs_range)
  from insert_imports_spec [OF 2(2) rng, of "(bt_insert p s sources, processed)"]
  obtain st1 where st1: "insert_imports es all_nodes (succs es idx) (bt_insert p s sources, processed) = Some st1"
    and t: "traversed es all_nodes (set (succs es idx)) (bt_insert p s sources, processed) st1" by blast
  have reach: "nodes.reach es (set (succs es idx)) \<subseteq> R"
  proof (rule nodes.closed_superset [OF _ 2(6)])
    show "set (succs es idx) \<subseteq> R" using 2(4-6) by (auto simp: nodes.closed_def)
  qed
  have ext: "sources_extend all_nodes [] (snd st1 - set rest) (fst st1)"
  proof -
    have "snd st1 - set rest = (processed - set (idx # rest) \<union> {idx}) \<union> (snd st1 - processed)"
      using 2(3,4) t by (auto simp: traversed_def)
    moreover have "sources_extend all_nodes (bt_insert p s sources) (snd st1 - processed) (fst st1)"
      using t by (simp add: traversed_def)
    moreover have "sources_extend all_nodes [] (processed - set (idx # rest)) sources" using 2(8) by simp
    ultimately show ?thesis
      using sources_extend_trans [OF 2(2)] sources_extend_one [OF 2(2) ps] by metis
  qed
  have "\<exists>st'. collect_inputs es all_nodes rest st1 = Some st' \<and> snd st1 \<subseteq> snd st' \<and> snd st' \<subseteq> R \<and>
     nodes.closed es (snd st') \<and> sources_extend all_nodes [] (snd st') (fst st')"
  proof (rule 2(1) [OF ps refl im st1 2(2)])
    show "set rest \<subseteq> {..<length es} \<and> distinct rest" using 2(3) by simp
    show "set rest \<subseteq> snd st1" using 2(4) t by (auto simp: traversed_def)
    show "snd st1 \<subseteq> R" using t reach 2(5) by (auto simp: traversed_def)
    show "nodes.closed es R" by (rule 2(6))
    show "\<forall>n \<in> snd st1 - set rest. set (succs es n) \<subseteq> snd st1"
    proof
      fix n assume n: "n \<in> snd st1 - set rest"
      have t': "processed \<subseteq> snd st1" "set (succs es idx) \<subseteq> snd st1"
        "\<forall>n \<in> snd st1 - processed. set (succs es n) \<subseteq> snd st1"
        using t by (auto simp: traversed_def)
      show "set (succs es n) \<subseteq> snd st1"
      proof (cases "n \<in> processed \<and> n \<noteq> idx")
        case True
        with n 2(7) have "set (succs es n) \<subseteq> processed" by simp
        then show ?thesis using t'(1) by blast
      qed (use n t'(2,3) in auto)
    qed
  qed (rule ext)
  with ps im st1 t show ?case by (auto simp: traversed_def)
qed

section \<open>Properties\<close>

definition imports_rel :: "nat list list \<Rightarrow> (nat \<times> nat) set" where
  "imports_rel es = {(a, b). a < length es \<and> b \<in> set (es ! a)}"

lemma nodes_edge: "nodes.edge es = imports_rel es"
  by (auto simp: nodes.edge_def succs_def at_def imports_rel_def split: if_splits)

lemma version_sources_spec:
  assumes ok: "nodes_ok es all_nodes" and "set inputs \<subseteq> {..<length es}" and "distinct inputs"
  shows "case version_sources es all_nodes inputs of
     None \<Rightarrow> False
   | Some sources \<Rightarrow> (\<forall>p s. bt_get sources p = Some s \<longleftrightarrow>
       (\<exists>i \<in> set inputs. \<exists>n. (i, n) \<in> (imports_rel es)\<^sup>* \<and> all_nodes n = Some (p, s)))"
proof -
  note spec = collect_inputs_spec [OF ok, where inputs = inputs and st = "([], set inputs)"
      and R = "nodes.reach es (set inputs)"]
  obtain st' where st': "collect_inputs es all_nodes inputs ([], set inputs) = Some st'"
    "set inputs \<subseteq> snd st'" "snd st' \<subseteq> nodes.reach es (set inputs)" "nodes.closed es (snd st')"
    "sources_extend all_nodes [] (snd st') (fst st')"
    using spec assms(2,3) nodes.reach_superset [of "set inputs" es] nodes.reach_closed [of es "set inputs"]
    by (auto simp: sources_extend_empty)
  have "snd st' = nodes.reach es (set inputs)" by (rule nodes.traversal_exact [OF st'(2,4,3)])
  then have "bt_get (fst st') p = Some s \<longleftrightarrow> (\<exists>i \<in> set inputs. \<exists>n.
      (i, n) \<in> (imports_rel es)\<^sup>* \<and> all_nodes n = Some (p, s))" for p s
    using st'(5) by (auto simp: sources_extend_def nodes.reach_def nodes_edge)
  with st'(1) show ?thesis by (simp add: version_sources_def)
qed

text \<open>
  C20: the iterator over a node and its imports returns on every graph, cycles included; it
  starts with the node, yields exactly the nodes reachable from it, and takes no more steps than
  there are edges, plus one.
\<close>

theorem nodes_iter_exact:
  assumes "edges_wf es" and "start < length es"
  shows "case node_ids es start of
     None \<Rightarrow> False
   | Some ns \<Rightarrow> ns \<noteq> [] \<and> hd ns = start \<and> (\<forall>n. n \<in> set ns \<longleftrightarrow> (start, n) \<in> (imports_rel es)\<^sup>*) \<and>
       length ns \<le> 1 + length (concat es)"
proof -
  obtain ns where ns: "node_ids es start = Some ns" "set ns = nodes.reach es {start}"
    "ns = start # drop 1 ns" "length ns \<le> 1 + length (concat es)"
    by (rule node_ids_spec [OF assms])
  have "n \<in> set ns \<longleftrightarrow> (start, n) \<in> (imports_rel es)\<^sup>*" for n
    using ns(2) by (simp add: nodes.reach_def nodes_edge)
  moreover have "ns \<noteq> [] \<and> hd ns = start" using ns(3) by (metis list.sel(1) list.distinct(1))
  ultimately show ?thesis using ns(1,4) by simp
qed

theorem nodes_iter_exact_witness:
  "node_ids [[1], [0, 1]] 0 = Some [0, 1, 0, 1] \<and>
   (0, 1) \<in> (imports_rel [[1], [0, 1]])\<^sup>*"
proof -
  have n: "node_ids [[1], [0, 1]] 0 = Some [0, 1, 0, 1]" by code_simp
  have "edges_wf [[1], [0, 1]]" by (simp add: edges_wf_def)
  from nodes_iter_exact [OF this, of 0] n
  have "\<forall>m. m \<in> set [0, 1, 0, 1] \<longleftrightarrow> (0, m) \<in> (imports_rel [[1], [0, 1]])\<^sup>*" by simp
  from spec [OF this, of 1] n show ?thesis by simp
qed

text \<open>
  C21: the sources handed to the compiler for a set of input files are closed under imports and
  nothing more: exactly the input files and everything they import, directly or not, each with
  its own content.
\<close>

theorem version_sources_exact:
  assumes ok: "nodes_ok es all_nodes" and "set inputs \<subseteq> {..<length es}" and "distinct inputs"
  shows "case version_sources es all_nodes inputs of
     None \<Rightarrow> False
   | Some sources \<Rightarrow> (\<forall>p s. bt_get sources p = Some s \<longleftrightarrow>
       (\<exists>i \<in> set inputs. \<exists>n. (i, n) \<in> (imports_rel es)\<^sup>* \<and> all_nodes n = Some (p, s)))"
  by (rule version_sources_spec [OF assms])

definition sample_nodes :: "nat \<Rightarrow> (path \<times> nat) option" where
  "sample_nodes n = (if n = 0 then Some ([Normal ''A.sol''], 10)
     else if n = 1 then Some ([Normal ''B.sol''], 11) else None)"

theorem version_sources_exact_witness:
  "case version_sources [[1], []] sample_nodes [0] of
     None \<Rightarrow> False | Some sources \<Rightarrow> bt_get sources [Normal ''B.sol''] = Some 11"
proof -
  have ok: "nodes_ok [[1], []] sample_nodes"
    by (auto simp: nodes_ok_def edges_wf_def sample_nodes_def split: if_splits)
  have "(0, 1) \<in> imports_rel [[1], []]" by (simp add: imports_rel_def)
  then have r: "(0, 1) \<in> (imports_rel [[1], []])\<^sup>*" ..
  have d: "set [0] \<subseteq> {..<length [[1 :: nat], []]}" and e: "distinct [0 :: nat]" by simp_all
  have n: "sample_nodes 1 = Some ([Normal ''B.sol''], 11)" by (simp add: sample_nodes_def)
  have "\<exists>i \<in> set [0]. \<exists>m. (i, m) \<in> (imports_rel [[1], []])\<^sup>* \<and> sample_nodes m = Some ([Normal ''B.sol''], 11)"
    using r n by auto
  with version_sources_exact [of "[[1], []]" sample_nodes "[0]", OF ok d e]
  show ?thesis by (cases "version_sources [[1], []] sample_nodes [0]") (simp_all del: One_nat_def)
qed

text \<open>
  C38: the reverse edges are the edges reversed, with multiplicity: their construction never
  indexes out of range, and a file's importers are listed once for every import statement.
\<close>

theorem rev_edges_exact:
  assumes "edges_wf es"
  shows "case rev_edges_of es of
     None \<Rightarrow> False
   | Some rv \<Rightarrow> length rv = length es \<and> (\<forall>e < length es. \<forall>n < length es. count_list (rv ! e) n = count_list (es ! n) e)"
proof -
  from build_rev_spec [of es "map (\<lambda>_. []) es" 0] assms
  obtain rv where rv: "rev_edges_of es = Some rv" "length rv = length es"
    "\<forall>e < length es. rv ! e = concat (map (\<lambda>k. replicate (count_list (es ! k) e) k) [0..<length es])"
    by (auto simp: edges_wf_def rev_edges_of_def)
  have cnt: "count_list (concat (map (\<lambda>k. replicate (f k) k) ks)) n = (if n \<in> set ks then f n else 0)"
    if "distinct ks" for f :: "nat \<Rightarrow> nat" and ks n
  proof -
    have r: "count_list (replicate m k) n = (if k = n then m else 0)" for m and k :: nat
      by (induction m) auto
    from that show ?thesis by (induction ks) (auto simp: r count_list_append)
  qed
  from rv show ?thesis by (auto simp: cnt)
qed

theorem rev_edges_exact_witness: "rev_edges_of [[1, 1], [0]] = Some [[1], [0, 0]] \<and>
   (case rev_edges_of [[1, 1], [0]] of None \<Rightarrow> False | Some rv \<Rightarrow> length rv = 2)"
proof -
  have "edges_wf [[1, 1], [0]]" by (simp add: edges_wf_def)
  from rev_edges_exact [OF this] have "case rev_edges_of [[1, 1], [0]] of None \<Rightarrow> False | Some rv \<Rightarrow> length rv = 2"
    by (auto split: option.splits)
  moreover have "rev_edges_of [[1, 1], [0]] = Some [[1], [0, 0]]" by (simp add: rev_edges_of_def push_at_def)
  ultimately show ?thesis by blast
qed

end
