(* ===== verification/Version_Resolution.thy ===== *)
theory Version_Resolution
  imports Graph_Edges "HOL-Library.Multiset"
begin

text \<open>
  The choice of compiler versions and settings profiles in \<open>resolver/mod.rs\<close>: which versions suit
  a file and all its imports, one version for everything if there is one, and else few versions;
  then the first profile that suits the restrictions; and the compiler inputs that result.
  Version requirements, settings and restrictions are \<open>semver\<close>'s and the compilers': they are
  types of the model, with the matching relations as parameters in \<open>Project\<close>.  The languages of a
  project are resolved one by one, so the model has one language.
\<close>

section \<open>\<open>CompilerVersion\<close>\<close>

datatype 'v CompilerVersion = Installed 'v | Remote 'v

fun is_installed :: "'v CompilerVersion \<Rightarrow> bool" where
  "is_installed (Installed _) = True"
| "is_installed (Remote _) = False"

fun the_version :: "'v CompilerVersion \<Rightarrow> 'v" where
  "the_version (Installed v) = v"
| "the_version (Remote v) = v"

text \<open>The derived \<open>Ord\<close>: installed before remote, then by version.\<close>

instantiation CompilerVersion :: (linorder) linorder
begin

fun less_eq_CompilerVersion :: "'a CompilerVersion \<Rightarrow> 'a CompilerVersion \<Rightarrow> bool" where
  "less_eq_CompilerVersion (Installed a) (Installed b) = (a \<le> b)"
| "less_eq_CompilerVersion (Remote a) (Remote b) = (a \<le> b)"
| "less_eq_CompilerVersion (Installed _) (Remote _) = True"
| "less_eq_CompilerVersion (Remote _) (Installed _) = False"

definition less_CompilerVersion :: "'a CompilerVersion \<Rightarrow> 'a CompilerVersion \<Rightarrow> bool" where
  "less_CompilerVersion x y \<longleftrightarrow> x \<le> y \<and> \<not> y \<le> x"

instance
proof
  fix x y z :: "'a CompilerVersion"
  show "x < y \<longleftrightarrow> x \<le> y \<and> \<not> y \<le> x" by (rule less_CompilerVersion_def)
  show "x \<le> x" by (cases x) simp_all
  show "x \<le> y \<Longrightarrow> y \<le> z \<Longrightarrow> x \<le> z" by (cases x; cases y; cases z) auto
  show "x \<le> y \<Longrightarrow> y \<le> x \<Longrightarrow> x = y" by (cases x; cases y) auto
  show "x \<le> y \<or> y \<le> x" by (cases x; cases y) auto
qed

end

text \<open>\<open>SolcCompiler::AutoDetect::available_versions\<close>; \<open>vkey\<close> is the triple of version numbers.\<close>

fun insert_uniques :: "('v \<Rightarrow> 'k) \<Rightarrow> 'k list \<Rightarrow> 'v list \<Rightarrow> 'v list" where
  "insert_uniques vkey uniques [] = []"
| "insert_uniques vkey uniques (v # vs) =
     (if vkey v \<in> set uniques then insert_uniques vkey uniques vs
      else v # insert_uniques vkey (vkey v # uniques) vs)"

definition solc_available_versions :: "('v::linorder \<Rightarrow> 'k) \<Rightarrow> 'v list \<Rightarrow> 'v list \<Rightarrow> 'v CompilerVersion list" where
  "solc_available_versions vkey installed released =
     sort (map Installed installed @ map Remote (insert_uniques vkey (map vkey installed) released))"

section \<open>The project\<close>

record ('c, 'v, 's, 'r) Project =
  pj_available :: "'v CompilerVersion list"
  pj_offline :: bool
  pj_req_matches :: "'c list \<Rightarrow> 'v \<Rightarrow> bool"
  pj_restrictions :: "path \<Rightarrow> 'r option"
  pj_restriction_version :: "'r \<Rightarrow> 'c list option"
  pj_satisfies :: "'s \<Rightarrow> 'r \<Rightarrow> bool"
  pj_profiles :: "(string \<times> 's) list"

record 'c Node =
  nd_path :: path
  nd_source :: string
  nd_version_req :: "'c list option"

record 'c Graph =
  gr_nodes :: "'c Node list"
  gr_edges :: "nat list list"

definition graph_wf :: "'c Graph \<Rightarrow> bool" where
  "graph_wf g \<longleftrightarrow> edges_wf (gr_edges g) \<and> length (gr_nodes g) = length (gr_edges g) \<and>
     distinct (map nd_path (gr_nodes g))"

text \<open>Every index used below is a node of the graph (\<open>graph_wf\<close>), so \<open>node\<close> does not panic.\<close>

definition node :: "'c Graph \<Rightarrow> nat \<Rightarrow> 'c Node" where
  "node g idx = gr_nodes g ! idx"

definition version_requirement :: "('c, 'v, 's, 'r) Project \<Rightarrow> 'c Graph \<Rightarrow> nat \<Rightarrow> 'c list option" where
  "version_requirement pj g idx =
     (let parsed_req = nd_version_req (node g idx);
          other_req = (case pj_restrictions pj (nd_path (node g idx)) of
                         None \<Rightarrow> None | Some r \<Rightarrow> pj_restriction_version pj r)
      in case (parsed_req, other_req) of
           (Some req, Some other) \<Rightarrow> Some (req @ other)
         | (Some req, None) \<Rightarrow> Some req
         | (None, Some other) \<Rightarrow> Some other
         | (None, None) \<Rightarrow> None)"

datatype 'c SourceVersionError = NoMatchingVersion "'c list" | NoMatchingVersionOffline "'c list"

definition suits :: "('c, 'v, 's, 'r) Project \<Rightarrow> 'c list \<Rightarrow> 'v CompilerVersion \<Rightarrow> bool" where
  "suits pj req v \<longleftrightarrow> pj_req_matches pj req (the_version v)"

definition check_available_version :: "('c, 'v, 's, 'r) Project \<Rightarrow> 'c Graph \<Rightarrow> nat
    \<Rightarrow> 'v CompilerVersion list \<Rightarrow> ('c SourceVersionError, unit) result" where
  "check_available_version pj g idx all_versions =
     (case version_requirement pj g idx of
        None \<Rightarrow> Inr ()
      | Some req \<Rightarrow>
          if \<not> list_ex (suits pj req) all_versions then
            (if pj_offline pj then Inl (NoMatchingVersionOffline req) else Inl (NoMatchingVersion req))
          else Inr ())"

text \<open>
  The message of a failure, without its text: the file with an unavailable version, or the root
  of the import list that is printed and the nodes that are marked in it.
\<close>

datatype 'c ResolveError =
  NoCompilerVersions
| InvalidVersion nat "'c SourceVersionError"
| IncompatibleVersions nat "nat list"
| MissingProfile nat
| IncompatibleSettings nat "nat list"

section \<open>Filtering candidates over the imports\<close>

text \<open>
  The loop that both filters share: narrow the candidates node by node, and stop at the node
  whose requirement leaves none.
\<close>

fun retain_loop :: "(nat \<Rightarrow> 'r option) \<Rightarrow> ('r \<Rightarrow> 'a \<Rightarrow> bool) \<Rightarrow> nat list \<Rightarrow> 'a list \<Rightarrow> 'a list \<times> nat option" where
  "retain_loop req sat [] candidates = (candidates, None)"
| "retain_loop req sat (n # ns) candidates =
     (case req n of
        None \<Rightarrow> retain_loop req sat ns candidates
      | Some r \<Rightarrow>
          let candidates' = filter (sat r) candidates
          in if candidates' = [] then (candidates', Some n) else retain_loop req sat ns candidates')"

definition retain_compatible_versions :: "('c, 'v, 's, 'r) Project \<Rightarrow> 'c Graph \<Rightarrow> nat
    \<Rightarrow> 'v CompilerVersion list \<Rightarrow> ('c ResolveError, 'v CompilerVersion list) result option" where
  "retain_compatible_versions pj g idx candidates =
     (case node_ids (gr_edges g) idx of
        None \<Rightarrow> None
      | Some nodes \<Rightarrow>
          (case retain_loop (version_requirement pj g) (suits pj) nodes candidates of
             (retained, None) \<Rightarrow> Some (Inr retained)
           | (_, Some failed) \<Rightarrow>
               (case check_available_version pj g failed candidates of
                  Inl err \<Rightarrow> Some (Inl (InvalidVersion failed err))
                | Inr _ \<Rightarrow>
                    let all_versions = (case version_requirement pj g failed of
                          Some req \<Rightarrow> filter (suits pj req) candidates | None \<Rightarrow> candidates)
                    in (case find (\<lambda>n. check_available_version pj g n all_versions \<noteq> Inr ()) nodes of
                          Some n \<Rightarrow> Some (Inl (IncompatibleVersions idx [n, failed]))
                        | None \<Rightarrow> Some (Inl (IncompatibleVersions idx nodes))))))"

text \<open>The profiles are numbered as \<open>enumerate()\<close> does.\<close>

definition retain_compatible_profiles :: "('c, 'v, 's, 'r) Project \<Rightarrow> 'c Graph \<Rightarrow> nat
    \<Rightarrow> (nat \<times> string \<times> 's) list \<Rightarrow> ('c ResolveError, (nat \<times> string \<times> 's) list) result option" where
  "retain_compatible_profiles pj g idx candidates =
     (let restriction = (\<lambda>n. pj_restrictions pj (nd_path (node g n)));
          sat = (\<lambda>r (_, _, settings). pj_satisfies pj settings r)
      in case node_ids (gr_edges g) idx of
           None \<Rightarrow> None
         | Some nodes \<Rightarrow>
             (case retain_loop restriction sat nodes candidates of
                (retained, None) \<Rightarrow> Some (Inr retained)
              | (_, Some failed) \<Rightarrow>
                  let all_profiles = (case restriction failed of
                        Some r \<Rightarrow> filter (sat r) candidates | None \<Rightarrow> candidates)
                  in if all_profiles = [] then Some (Inl (MissingProfile failed))
                     else (case find (\<lambda>n. case restriction n of None \<Rightarrow> False
                                          | Some r \<Rightarrow> \<not> list_ex (sat r) all_profiles) nodes of
                             Some n \<Rightarrow> Some (Inl (IncompatibleSettings idx [n, failed]))
                           | None \<Rightarrow> Some (Inl (IncompatibleSettings idx nodes)))))"

section \<open>One version or several\<close>

text \<open>The highest installed candidate, else the highest: \<open>remove_candidate\<close> on a sorted list.\<close>

definition pick_candidate :: "'v CompilerVersion list \<Rightarrow> 'v CompilerVersion option" where
  "pick_candidate candidates =
     (case find is_installed (rev candidates) of
        Some v \<Rightarrow> Some v
      | None \<Rightarrow> if candidates = [] then None else Some (last candidates))"

definition intersection :: "'v::linorder CompilerVersion list list \<Rightarrow> 'v CompilerVersion list" where
  "intersection sets =
     (if sets = [] then []
      else sort (filter (\<lambda>item. list_all (\<lambda>set. List.member set item) (butlast sets)) (last sets)))"

type_synonym 'v versioned = "('v CompilerVersion \<times> nat list) list"

fun assign_versions :: "(nat \<times> 'v::linorder CompilerVersion list) list \<Rightarrow> 'v versioned \<Rightarrow> 'v versioned option" where
  "assign_versions [] table = Some table"
| "assign_versions ((n, versions) # rest) table =
     (let versions = sort versions
      in case (case find (\<lambda>v. \<not> vacant v table) (rev versions) of
                 Some v \<Rightarrow> Some v | None \<Rightarrow> pick_candidate versions) of
           None \<Rightarrow> None
         | Some candidate \<Rightarrow> assign_versions rest (entry_push candidate n table))"

definition resolve_multiple_versions :: "(nat \<times> 'v::linorder CompilerVersion list) list \<Rightarrow> 'v versioned option" where
  "resolve_multiple_versions all_candidates =
     (let inter = intersection (map snd all_candidates)
      in if inter \<noteq> [] then
           (case pick_candidate inter of None \<Rightarrow> None | Some v \<Rightarrow> Some [(v, map fst all_candidates)])
         else assign_versions all_candidates [])"

text \<open>The loop over the input nodes: the errors, the candidates of each node, and the first choice.\<close>

record ('c, 'v) choice =
  cs_errors :: "'c ResolveError list"
  cs_candidates :: "(nat \<times> 'v CompilerVersion list) list"
  cs_versioned :: "'v versioned"

fun choose_versions :: "('c, 'v, 's, 'r) Project \<Rightarrow> 'c Graph \<Rightarrow> 'v CompilerVersion list \<Rightarrow> nat list
    \<Rightarrow> ('c, 'v) choice \<Rightarrow> ('c, 'v) choice option" where
  "choose_versions pj g all_versions [] st = Some st"
| "choose_versions pj g all_versions (idx # rest) st =
     (case retain_compatible_versions pj g idx all_versions of
        None \<Rightarrow> None
      | Some (Inl err) \<Rightarrow> choose_versions pj g all_versions rest (st\<lparr>cs_errors := cs_errors st @ [err]\<rparr>)
      | Some (Inr candidates) \<Rightarrow>
          (case pick_candidate candidates of
             None \<Rightarrow> None
           | Some candidate \<Rightarrow> choose_versions pj g all_versions rest
               (st\<lparr>cs_candidates := cs_candidates st @ [(idx, remdups candidates)],
                   cs_versioned := entry_push candidate idx (cs_versioned st)\<rparr>)))"

text \<open>\<open>collect()\<close> into a \<open>HashMap\<close>: a later entry replaces an earlier one with its key.\<close>

definition collect_map :: "('k \<times> 'b) list \<Rightarrow> ('k \<times> 'b) list" where
  "collect_map es = fold (\<lambda>(k, v) m. if map_of m k = None then m @ [(k, v)]
     else map (\<lambda>(k', v'). (k', if k' = k then v else v')) m) es []"

definition get_input_node_versions :: "('c, 'v::linorder, 's, 'r) Project \<Rightarrow> 'c Graph \<Rightarrow> nat list
    \<Rightarrow> ('c ResolveError list, ('v \<times> nat list) list) result option" where
  "get_input_node_versions pj g nodes =
     (let all_versions = (if pj_offline pj then filter is_installed (pj_available pj) else pj_available pj)
      in if all_versions = [] \<and> nodes \<noteq> [] then Some (Inl [NoCompilerVersions])
         else case choose_versions pj g all_versions nodes
                     \<lparr>cs_errors = [], cs_candidates = [], cs_versioned = []\<rparr> of
                None \<Rightarrow> None
              | Some st \<Rightarrow>
                  (case (if 1 < length (cs_versioned st) then resolve_multiple_versions (cs_candidates st)
                         else Some (cs_versioned st)) of
                     None \<Rightarrow> None
                   | Some versioned \<Rightarrow>
                       if cs_errors st = []
                       then Some (Inr (collect_map (map (\<lambda>(v, ns). (the_version v, ns)) versioned)))
                       else Some (Inl (cs_errors st))))"

section \<open>Facts\<close>

lemma retain_loop_spec:
  "case retain_loop req sat ns cs of
     (out, None) \<Rightarrow> out = filter (\<lambda>v. \<forall>n \<in> set ns. \<forall>r. req n = Some r \<longrightarrow> sat r v) cs \<and> (cs \<noteq> [] \<longrightarrow> out \<noteq> [])
   | (out, Some f) \<Rightarrow> filter (\<lambda>v. \<forall>n \<in> set ns. \<forall>r. req n = Some r \<longrightarrow> sat r v) cs = []"
proof (induction req sat ns cs rule: retain_loop.induct)
  case (2 req sat n ns cs)
  show ?case
  proof (cases "req n")
    case None
    with 2(1) show ?thesis by (auto split: prod.splits option.splits)
  next
    case (Some r)
    have f: "filter (\<lambda>v. \<forall>m \<in> set (n # ns). \<forall>r. req m = Some r \<longrightarrow> sat r v) cs =
        filter (\<lambda>v. \<forall>m \<in> set ns. \<forall>r. req m = Some r \<longrightarrow> sat r v) (filter (sat r) cs)"
      using Some by (auto intro!: filter_cong)
    show ?thesis
    proof (cases "filter (sat r) cs = []")
      case True
      with Some f show ?thesis by simp
    next
      case False
      with 2(2) [OF Some refl] Some f show ?thesis by (auto simp: Let_def split: prod.splits option.splits)
    qed
  qed
qed simp

definition compatible :: "('c, 'v, 's, 'r) Project \<Rightarrow> 'c Graph \<Rightarrow> nat \<Rightarrow> 'v \<Rightarrow> bool" where
  "compatible pj g i v \<longleftrightarrow> (\<forall>n. (i, n) \<in> (imports_rel (gr_edges g))\<^sup>* \<longrightarrow>
     (case version_requirement pj g n of None \<Rightarrow> True | Some req \<Rightarrow> pj_req_matches pj req v))"

definition usable :: "('c, 'v, 's, 'r) Project \<Rightarrow> 'v CompilerVersion list" where
  "usable pj = (if pj_offline pj then filter is_installed (pj_available pj) else pj_available pj)"

definition candidates_of :: "('c, 'v, 's, 'r) Project \<Rightarrow> 'c Graph \<Rightarrow> nat \<Rightarrow> 'v CompilerVersion list" where
  "candidates_of pj g i = filter (\<lambda>v. compatible pj g i (the_version v)) (usable pj)"

lemma node_ids_imports:
  assumes "edges_wf es" and "i < length es"
  shows "\<exists>ns. node_ids es i = Some ns \<and> (\<forall>n. n \<in> set ns \<longleftrightarrow> (i, n) \<in> (imports_rel es)\<^sup>*)"
proof -
  obtain ns where "node_ids es i = Some ns" and "set ns = nodes.reach es {i}"
    by (rule node_ids_spec [OF assms])
  then show ?thesis by (auto simp: nodes.reach_def nodes_edge)
qed

lemma retain_versions:
  assumes wf: "graph_wf g" and i: "i < length (gr_edges g)" and ne: "usable pj \<noteq> []"
  shows "\<exists>r. retain_compatible_versions pj g i (usable pj) = Some r \<and>
     (case r of Inr vs \<Rightarrow> vs = candidates_of pj g i \<and> vs \<noteq> [] | Inl e \<Rightarrow> candidates_of pj g i = [])"
proof -
  have es: "edges_wf (gr_edges g)" using wf by (simp add: graph_wf_def)
  from node_ids_imports [OF es i] obtain ns where ns: "node_ids (gr_edges g) i = Some ns"
    "\<And>n. n \<in> set ns \<longleftrightarrow> (i, n) \<in> (imports_rel (gr_edges g))\<^sup>*"
    by blast
  have c: "filter (\<lambda>v. \<forall>n \<in> set ns. \<forall>r. version_requirement pj g n = Some r \<longrightarrow> suits pj r v) (usable pj) =
      candidates_of pj g i"
    unfolding candidates_of_def compatible_def suits_def
    by (intro filter_cong refl) (auto simp: ns(2) split: option.splits)
  obtain out f where l: "retain_loop (version_requirement pj g) (suits pj) ns (usable pj) = (out, f)"
    by (cases "retain_loop (version_requirement pj g) (suits pj) ns (usable pj)")
  note spec = retain_loop_spec [where req = "version_requirement pj g" and sat = "suits pj" and ns = ns
      and cs = "usable pj", unfolded l c]
  show ?thesis
  proof (cases f)
    case None
    with spec ne have o: "out = candidates_of pj g i \<and> out \<noteq> []" by auto
    from None show ?thesis
      unfolding o [THEN conjunct1, symmetric] using o [THEN conjunct2] by (simp add: retain_compatible_versions_def ns(1) l)
  next
    case (Some n)
    with spec have "candidates_of pj g i = []" by simp
    moreover have "\<exists>e. retain_compatible_versions pj g i (usable pj) = Some (Inl e)"
      using Some by (simp add: retain_compatible_versions_def ns(1) l Let_def split: option.split sum.split)
    ultimately show ?thesis by auto
  qed
qed

lemma pick_candidate_spec:
  "pick_candidate cs = None \<longleftrightarrow> cs = []"
  "pick_candidate cs = Some v \<Longrightarrow> v \<in> set cs \<and> ((\<exists>w \<in> set cs. is_installed w) \<longrightarrow> is_installed v)"
proof -
  have nf: "find is_installed (rev cs) = None \<longleftrightarrow> (\<forall>w \<in> set cs. \<not> is_installed w)"
    by (auto simp: find_None_iff)
  have sf: "find is_installed (rev cs) = Some w \<Longrightarrow> w \<in> set cs \<and> is_installed w" for w
    using find_SomeD by fastforce
  show "pick_candidate cs = None \<longleftrightarrow> cs = []"
    by (auto simp: pick_candidate_def split: option.splits)
  show "pick_candidate cs = Some v \<Longrightarrow> v \<in> set cs \<and> ((\<exists>w \<in> set cs. is_installed w) \<longrightarrow> is_installed v)"
    using nf sf by (auto simp: pick_candidate_def split: option.splits if_splits)
qed

section \<open>Assignments\<close>

text \<open>A table that puts every node of a list under exactly one key, and under one it may have.\<close>

definition assignment :: "('k \<times> nat list) list \<Rightarrow> nat list \<Rightarrow> (nat \<Rightarrow> 'k \<Rightarrow> bool) \<Rightarrow> bool" where
  "assignment t ns ok \<longleftrightarrow> distinct (map fst t) \<and> mset (concat (map snd t)) = mset ns \<and>
     (\<forall>(k, is) \<in> set t. \<forall>i \<in> set is. ok i k) \<and> [] \<notin> snd ` set t"

lemma assignment_empty [simp]: "assignment [] [] ok"
  by (simp add: assignment_def)

lemma entry_push_members:
  "(\<forall>(k', is) \<in> set (entry_push k i t). \<forall>j \<in> set is. ok j k') \<longleftrightarrow>
   ok i k \<and> (\<forall>(k', is) \<in> set t. \<forall>j \<in> set is. ok j k')"
  by (induction k i t rule: entry_push.induct) auto

lemma entry_push_concat:
  "mset (concat (map snd (entry_push k i t))) = add_mset i (mset (concat (map snd t)))"
  by (induction k i t rule: entry_push.induct) auto

lemma assignment_push:
  "assignment t ns ok \<Longrightarrow> ok i k \<Longrightarrow> assignment (entry_push k i t) (ns @ [i]) ok"
  unfolding assignment_def entry_push_members
  by (simp add: entry_push_distinct entry_push_concat entry_push_filled)

lemma assignment_mono:
  "assignment t ns ok \<Longrightarrow> (\<And>i k. i \<in> set ns \<Longrightarrow> ok i k \<Longrightarrow> ok' i k) \<Longrightarrow> assignment t ns ok'"
proof -
  assume a: "assignment t ns ok" and m: "\<And>i k. i \<in> set ns \<Longrightarrow> ok i k \<Longrightarrow> ok' i k"
  have "i \<in> set ns" if "(k, is) \<in> set t" "i \<in> set is" for k "is" i
  proof -
    have "i \<in># mset (concat (map snd t))" using that by force
    with a show ?thesis by (simp add: assignment_def)
  qed
  with a m show ?thesis unfolding assignment_def by blast
qed

lemma assign_versions_spec:
  assumes "assignment t ns ok" and "\<forall>(n, vs) \<in> set cands. vs \<noteq> [] \<and> (\<forall>v \<in> set vs. ok n v)"
  shows "\<exists>t'. assign_versions cands t = Some t' \<and> assignment t' (ns @ map fst cands) ok"
  using assms
proof (induction cands t arbitrary: ns rule: assign_versions.induct)
  case (2 n vs rest t)
  let ?c = "case find (\<lambda>v. \<not> vacant v t) (rev (sort vs)) of Some v \<Rightarrow> Some v | None \<Rightarrow> pick_candidate (sort vs)"
  have "\<exists>v. ?c = Some v \<and> v \<in> set vs"
  proof (cases "find (\<lambda>v. \<not> vacant v t) (rev (sort vs))")
    case None
    have "vs \<noteq> []" using 2(3) by simp
    then have "sort vs \<noteq> []" by (metis mset_sort mset_zero_iff)
    then obtain v where "pick_candidate (sort vs) = Some v" using pick_candidate_spec(1) by fastforce
    with None pick_candidate_spec(2) [OF this] show ?thesis by simp
  next
    case (Some v)
    then have "v \<in> set (rev (sort vs))" using find_SomeD by fastforce
    with Some show ?thesis by simp
  qed
  then obtain v where v: "?c = Some v" "v \<in> set vs" by blast
  with 2(3) have "ok n v" by auto
  from 2(1) [OF refl v(1) assignment_push [OF 2(2) this]] 2(3) v(1) show ?case by (simp add: Let_def)
qed simp

lemma resolve_multiple_spec:
  assumes "cands \<noteq> []" and "\<forall>(n, vs) \<in> set cands. vs \<noteq> [] \<and> (\<forall>v \<in> set vs. ok n v)"
  shows "\<exists>t. resolve_multiple_versions cands = Some t \<and> assignment t (map fst cands) ok"
    and "(\<forall>vs \<in> snd ` set cands. v \<in> set vs) \<Longrightarrow>
      \<exists>w. resolve_multiple_versions cands = Some [(w, map fst cands)] \<and>
        (\<forall>(n, vs) \<in> set cands. w \<in> set vs) \<and> (is_installed v \<longrightarrow> is_installed w)"
proof -
  let ?I = "intersection (map snd cands)"
  have mem: "v \<in> set ?I \<longleftrightarrow> (\<forall>(n, vs) \<in> set cands. v \<in> set vs)" for v
  proof -
    have "set (map snd cands) = insert (last (map snd cands)) (set (butlast (map snd cands)))"
      using assms(1) by (intro set_last_butlast) simp
    then have "(\<forall>vs \<in> set (map snd cands). v \<in> set vs) \<longleftrightarrow> v \<in> set ?I"
      using assms(1) by (auto simp: intersection_def list_all_iff)
    moreover have "(\<forall>vs \<in> set (map snd cands). v \<in> set vs) \<longleftrightarrow> (\<forall>(n, vs) \<in> set cands. v \<in> set vs)"
      by auto
    ultimately show ?thesis by blast
  qed
  have pick: "\<exists>w. resolve_multiple_versions cands = Some [(w, map fst cands)] \<and> w \<in> set ?I \<and>
      ((\<exists>u \<in> set ?I. is_installed u) \<longrightarrow> is_installed w)" if "?I \<noteq> []"
  proof -
    from that obtain w where w: "pick_candidate ?I = Some w" using pick_candidate_spec(1) by fastforce
    with pick_candidate_spec(2) [OF w] that show ?thesis by (simp add: resolve_multiple_versions_def)
  qed
  { assume "\<forall>vs \<in> snd ` set cands. v \<in> set vs"
    then have v: "v \<in> set ?I" unfolding mem by auto
    then have "?I \<noteq> []" by auto
    from pick [OF this] obtain w where "resolve_multiple_versions cands = Some [(w, map fst cands)]"
      and "w \<in> set ?I" and "(\<exists>u \<in> set ?I. is_installed u) \<longrightarrow> is_installed w" by (elim exE conjE)
    moreover from this(2) have "\<forall>(n, vs) \<in> set cands. w \<in> set vs" by (rule mem [THEN iffD1])
    ultimately show "\<exists>w. resolve_multiple_versions cands = Some [(w, map fst cands)] \<and>
        (\<forall>(n, vs) \<in> set cands. w \<in> set vs) \<and> (is_installed v \<longrightarrow> is_installed w)"
      using v by (intro exI [of _ w]) blast }
  show "\<exists>t. resolve_multiple_versions cands = Some t \<and> assignment t (map fst cands) ok"
  proof (cases "?I = []")
    case True
    then show ?thesis
      using assign_versions_spec [OF assignment_empty assms(2)] by (simp add: resolve_multiple_versions_def)
  next
    case False
    from pick [OF False] obtain w where w: "resolve_multiple_versions cands = Some [(w, map fst cands)]"
      "w \<in> set ?I" by blast
    with assms mem have "assignment [(w, map fst cands)] (map fst cands) ok"
      by (fastforce simp: assignment_def)
    with w(1) show ?thesis by blast
  qed
qed

section \<open>The loop over the input nodes\<close>

definition chosen :: "('c, 'v, 's, 'r) Project \<Rightarrow> 'c Graph \<Rightarrow> nat \<Rightarrow> 'v CompilerVersion \<Rightarrow> bool" where
  "chosen pj g i v \<longleftrightarrow> v \<in> set (candidates_of pj g i) \<and>
     ((\<exists>w \<in> set (candidates_of pj g i). is_installed w) \<longrightarrow> is_installed v)"

lemma choose_versions_spec:
  assumes wf: "graph_wf g" and ne: "usable pj \<noteq> []" and rng: "set nodes \<subseteq> {..<length (gr_edges g)}"
    and tab: "assignment (cs_versioned st) (map fst (cs_candidates st)) (chosen pj g)"
    and cnd: "\<forall>(i, vs) \<in> set (cs_candidates st). vs \<noteq> [] \<and> set vs = set (candidates_of pj g i)"
  shows "\<exists>st'. choose_versions pj g (usable pj) nodes st = Some st' \<and>
     (cs_errors st' = [] \<longleftrightarrow> cs_errors st = [] \<and> (\<forall>i \<in> set nodes. candidates_of pj g i \<noteq> [])) \<and>
     map fst (cs_candidates st') = map fst (cs_candidates st) @ filter (\<lambda>i. candidates_of pj g i \<noteq> []) nodes \<and>
     assignment (cs_versioned st') (map fst (cs_candidates st')) (chosen pj g) \<and>
     (\<forall>(i, vs) \<in> set (cs_candidates st'). vs \<noteq> [] \<and> set vs = set (candidates_of pj g i))"
  using rng tab cnd
proof (induction nodes arbitrary: st)
  case (Cons i rest)
  then have i: "i < length (gr_edges g)" and rest: "set rest \<subseteq> {..<length (gr_edges g)}" by simp_all
  obtain r where r: "retain_compatible_versions pj g i (usable pj) = Some r"
    "case r of Inr vs \<Rightarrow> vs = candidates_of pj g i \<and> vs \<noteq> [] | Inl e \<Rightarrow> candidates_of pj g i = []"
    using retain_versions [OF wf i ne] by blast
  show ?case
  proof (cases r)
    case (Inl e)
    with r Cons.IH [OF rest, of "st\<lparr>cs_errors := cs_errors st @ [e]\<rparr>"] Cons.prems(2,3) show ?thesis by auto
  next
    case (Inr vs)
    from r(2) have "vs = candidates_of pj g i \<and> vs \<noteq> []" unfolding Inr sum.case .
    then have vs: "vs = candidates_of pj g i" "vs \<noteq> []" by blast+
    then obtain v where v: "pick_candidate vs = Some v" using pick_candidate_spec(1) by fastforce
    let ?st = "st\<lparr>cs_candidates := cs_candidates st @ [(i, remdups vs)],
        cs_versioned := entry_push v i (cs_versioned st)\<rparr>"
    have "assignment (entry_push v i (cs_versioned st)) (map fst (cs_candidates st) @ [i])
        (chosen pj g)"
      using pick_candidate_spec(2) [OF v] vs(1) by (intro assignment_push Cons.prems(2)) (auto simp: chosen_def)
    with Cons.IH [OF rest, of ?st] Cons.prems(3) vs show ?thesis
      by (simp add: r(1) Inr v [unfolded vs(1)])
  qed
qed simp

lemma collect_map_distinct: "distinct (map fst es) \<Longrightarrow> collect_map es = es"
proof -
  let ?f = "\<lambda>(k, v) m. if map_of m k = None then m @ [(k, v)]
      else map (\<lambda>(k', v'). (k', if k' = k then v else v')) m"
  have "distinct (map fst (m @ es)) \<Longrightarrow> fold ?f es m = m @ es" for m
  proof (induction es arbitrary: m)
    case (Cons e es)
    then have "map_of m (fst e) = None" by (simp add: map_of_eq_None_iff)
    with Cons.IH [of "m @ [e]"] Cons.prems show ?case by (cases e) simp
  qed simp
  from this [of "[]"] show "distinct (map fst es) \<Longrightarrow> collect_map es = es" by (simp add: collect_map_def)
qed

lemma inj_versions:
  "distinct (map the_version (pj_available pj)) \<Longrightarrow> inj_on the_version (set (usable pj))"
  by (auto simp: distinct_map usable_def intro: inj_on_subset)

lemma versions_of_assignment:
  assumes "assignment t ns (\<lambda>i v. v \<in> set (candidates_of pj g i))"
    and "inj_on the_version (set (usable pj))"
  shows "assignment (map (\<lambda>(v, ns). (the_version v, ns)) t) ns
     (\<lambda>i v. v \<in> the_version ` set (usable pj) \<and> compatible pj g i v)"
proof -
  have keys: "v \<in> set (usable pj)" if "(v, is) \<in> set t" for v "is"
  proof -
    have "is \<noteq> []" using assms(1) that by (force simp: assignment_def)
    then obtain i where "i \<in> set is" by (cases "is") auto
    with assms(1) that have "v \<in> set (candidates_of pj g i)" by (force simp: assignment_def)
    then show ?thesis by (simp add: candidates_of_def)
  qed
  have "distinct (map the_version (map fst t))"
    using assms keys unfolding distinct_map assignment_def
    by (auto intro: inj_on_subset [OF assms(2)])
  moreover have "map fst (map (\<lambda>(v, ns). (the_version v, ns)) t) = map the_version (map fst t)"
    and "map snd (map (\<lambda>(v, ns). (the_version v, ns)) t) = map snd t" by (auto simp: case_prod_beta)
  ultimately show ?thesis
    using assms(1) keys unfolding assignment_def
    by (auto simp: candidates_of_def image_iff simp del: map_map; force)
qed

lemma assignment_nonempty: "assignment t ns ok \<Longrightarrow> t \<noteq> [] \<Longrightarrow> ns \<noteq> []"
  by (cases t) (auto simp: assignment_def)

lemma choice:
  assumes "graph_wf g" and "set nodes \<subseteq> {..<length (gr_edges g)}" and "usable pj \<noteq> []"
  shows "\<exists>st. choose_versions pj g (usable pj) nodes \<lparr>cs_errors = [], cs_candidates = [], cs_versioned = []\<rparr> = Some st \<and>
     (cs_errors st = [] \<longleftrightarrow> (\<forall>i \<in> set nodes. candidates_of pj g i \<noteq> [])) \<and>
     map fst (cs_candidates st) = filter (\<lambda>i. candidates_of pj g i \<noteq> []) nodes \<and>
     assignment (cs_versioned st) (map fst (cs_candidates st)) (chosen pj g) \<and>
     (\<forall>(i, vs) \<in> set (cs_candidates st). vs \<noteq> [] \<and> set vs = set (candidates_of pj g i))"
  using choose_versions_spec [OF assms(1,3,2), of "\<lparr>cs_errors = [], cs_candidates = [], cs_versioned = []\<rparr>"]
  by simp

lemma versions_spec:
  assumes wf: "graph_wf g" and rng: "set nodes \<subseteq> {..<length (gr_edges g)}"
    and dis: "distinct (map the_version (pj_available pj))"
  shows "\<exists>r. get_input_node_versions pj g nodes = Some r \<and>
     (case r of
        Inl errs \<Rightarrow> errs \<noteq> [] \<and> (\<exists>i \<in> set nodes. candidates_of pj g i = [])
      | Inr t \<Rightarrow> assignment t nodes (\<lambda>i v. v \<in> the_version ` set (usable pj) \<and> compatible pj g i v))"
proof (cases "usable pj = []")
  case True
  show ?thesis
  proof (cases nodes)
    case Nil
    then show ?thesis
      by (simp add: get_input_node_versions_def Let_def collect_map_def)
  next
    case (Cons i js)
    have u: "(if pj_offline pj then filter is_installed (pj_available pj) else pj_available pj) = []"
      using True by (simp add: usable_def)
    have "candidates_of pj g i = []" by (simp add: candidates_of_def True)
    with Cons u show ?thesis unfolding get_input_node_versions_def Let_def by auto
  qed
next
  case False
  note inj = inj_versions [OF dis]
  from choice [OF wf rng False] obtain st where
    st: "choose_versions pj g (usable pj) nodes \<lparr>cs_errors = [], cs_candidates = [], cs_versioned = []\<rparr> = Some st"
    and err: "cs_errors st = [] \<longleftrightarrow> (\<forall>i \<in> set nodes. candidates_of pj g i \<noteq> [])"
    and fst: "map fst (cs_candidates st) = filter (\<lambda>i. candidates_of pj g i \<noteq> []) nodes"
    and asg': "assignment (cs_versioned st) (map fst (cs_candidates st)) (chosen pj g)"
    and cnd: "\<forall>(i, vs) \<in> set (cs_candidates st). vs \<noteq> [] \<and> set vs = set (candidates_of pj g i)"
    by blast
  have asg: "assignment (cs_versioned st) (map fst (cs_candidates st)) (\<lambda>i v. v \<in> set (candidates_of pj g i))"
    by (rule assignment_mono [OF asg']) (simp add: chosen_def)
  have cnd': "\<forall>(n, vs) \<in> set (cs_candidates st). vs \<noteq> [] \<and> (\<forall>v \<in> set vs. v \<in> set (candidates_of pj g n))"
    using cnd by auto
  have "\<exists>t. (if 1 < length (cs_versioned st) then resolve_multiple_versions (cs_candidates st)
        else Some (cs_versioned st)) = Some t \<and>
      assignment t (map fst (cs_candidates st)) (\<lambda>i v. v \<in> set (candidates_of pj g i))"
  proof (cases "1 < length (cs_versioned st)")
    case True
    then have "cs_versioned st \<noteq> []" by auto
    from assignment_nonempty [OF asg this] have "cs_candidates st \<noteq> []" by auto
    from resolve_multiple_spec(1) [OF this cnd'] True show ?thesis by simp
  qed (use asg in simp)
  then obtain t where t: "(if 1 < length (cs_versioned st) then resolve_multiple_versions (cs_candidates st)
        else Some (cs_versioned st)) = Some t"
    and ta: "assignment t (map fst (cs_candidates st)) (\<lambda>i v. v \<in> set (candidates_of pj g i))" by blast
  note tv = versions_of_assignment [OF ta inj]
  have c: "collect_map (map (\<lambda>(v, ns). (the_version v, ns)) t) = map (\<lambda>(v, ns). (the_version v, ns)) t"
    using tv by (intro collect_map_distinct) (simp add: assignment_def)
  have r: "get_input_node_versions pj g nodes =
      (if cs_errors st = [] then Some (Inr (map (\<lambda>(v, ns). (the_version v, ns)) t)) else Some (Inl (cs_errors st)))"
    using False st t by (simp add: get_input_node_versions_def usable_def [symmetric] Let_def c)
  show ?thesis
  proof (cases "cs_errors st = []")
    case True
    with err have "filter (\<lambda>i. candidates_of pj g i \<noteq> []) nodes = nodes" by (simp add: filter_id_conv)
    with tv fst True r show ?thesis by simp
  next
    case False
    with err r show ?thesis by auto
  qed
qed

lemma single_version:
  assumes wf: "graph_wf g" and rng: "set nodes \<subseteq> {..<length (gr_edges g)}" and ne: "nodes \<noteq> []"
    and v: "v \<in> set (usable pj)" and all: "\<forall>i \<in> set nodes. compatible pj g i (the_version v)"
  shows "\<exists>w ns. get_input_node_versions pj g nodes = Some (Inr [(the_version w, ns)]) \<and> mset ns = mset nodes \<and>
     w \<in> set (usable pj) \<and> (\<forall>i \<in> set nodes. compatible pj g i (the_version w)) \<and>
     (is_installed v \<longrightarrow> is_installed w)"
proof -
  have u: "usable pj \<noteq> []" using v by auto
  have vi: "v \<in> set (candidates_of pj g i)" if "i \<in> set nodes" for i
    using v all that by (simp add: candidates_of_def)
  from choice [OF wf rng u] obtain st where
    st: "choose_versions pj g (usable pj) nodes \<lparr>cs_errors = [], cs_candidates = [], cs_versioned = []\<rparr> = Some st"
    and err: "cs_errors st = [] \<longleftrightarrow> (\<forall>i \<in> set nodes. candidates_of pj g i \<noteq> [])"
    and fst: "map fst (cs_candidates st) = filter (\<lambda>i. candidates_of pj g i \<noteq> []) nodes"
    and asg: "assignment (cs_versioned st) (map fst (cs_candidates st)) (chosen pj g)"
    and cnd: "\<forall>(i, vs) \<in> set (cs_candidates st). vs \<noteq> [] \<and> set vs = set (candidates_of pj g i)"
    by blast
  have ne': "candidates_of pj g i \<noteq> []" if "i \<in> set nodes" for i using vi [OF that] by auto
  with err have e: "cs_errors st = []" by simp
  have f: "map fst (cs_candidates st) = nodes" using fst ne' by (simp add: filter_id_conv)
  have "\<exists>w ns. (if 1 < length (cs_versioned st) then resolve_multiple_versions (cs_candidates st)
        else Some (cs_versioned st)) = Some [(w, ns)] \<and> mset ns = mset nodes \<and>
      (\<forall>i \<in> set nodes. w \<in> set (candidates_of pj g i)) \<and> (is_installed v \<longrightarrow> is_installed w)"
  proof (cases "1 < length (cs_versioned st)")
    case True
    have c: "cs_candidates st \<noteq> []" using f ne by auto
    have in_nodes: "n \<in> set nodes" if "(n, vs) \<in> set (cs_candidates st)" for n vs
      using that f by (metis fst_conv image_eqI set_map)
    have vs: "\<forall>vs \<in> snd ` set (cs_candidates st). v \<in> set vs"
      using cnd vi in_nodes by fastforce
    have cnd': "\<forall>(n, vs) \<in> set (cs_candidates st). vs \<noteq> [] \<and> (\<forall>v \<in> set vs. v \<in> set (candidates_of pj g n))"
      using cnd by auto
    from resolve_multiple_spec(2) [OF c cnd' vs] obtain w where
      w: "resolve_multiple_versions (cs_candidates st) = Some [(w, map fst (cs_candidates st))]"
      "\<forall>(n, vs) \<in> set (cs_candidates st). w \<in> set vs" "is_installed v \<longrightarrow> is_installed w" by blast
    have "w \<in> set (candidates_of pj g i)" if i: "i \<in> set nodes" for i
    proof -
      obtain vs where "(i, vs) \<in> set (cs_candidates st)" using i f by (metis (no_types, lifting) imageE prod.collapse set_map)
      with w(2) cnd show ?thesis by fastforce
    qed
    with True w f show ?thesis by simp
  next
    case False
    have "cs_versioned st \<noteq> []" using asg f ne by (auto simp: assignment_def)
    with False obtain w ns where t: "cs_versioned st = [(w, ns)]" by (cases "cs_versioned st") auto
    with asg f have ns: "mset ns = mset nodes" and c: "\<forall>i \<in> set ns. chosen pj g i w" by (auto simp: assignment_def)
    have "set ns = set nodes" using ns by (metis set_mset_mset)
    with c have c': "\<forall>i \<in> set nodes. chosen pj g i w" by simp
    have "is_installed v \<longrightarrow> is_installed w"
      using c' vi ne by (cases nodes) (auto simp: chosen_def)
    with False t ns c' show ?thesis by (simp add: chosen_def)
  qed
  then obtain w ns where t: "(if 1 < length (cs_versioned st) then resolve_multiple_versions (cs_candidates st)
        else Some (cs_versioned st)) = Some [(w, ns)]" and w: "mset ns = mset nodes"
    "\<forall>i \<in> set nodes. w \<in> set (candidates_of pj g i)" "is_installed v \<longrightarrow> is_installed w" by blast
  have "get_input_node_versions pj g nodes = Some (Inr [(the_version w, ns)])"
    using u st t e by (simp add: get_input_node_versions_def usable_def [symmetric] Let_def collect_map_def)
  moreover have "w \<in> set (usable pj) \<and> (\<forall>i \<in> set nodes. compatible pj g i (the_version w))"
    using w(2) ne by (cases nodes) (auto simp: candidates_of_def)
  ultimately show ?thesis using w by blast
qed

section \<open>Properties\<close>

text \<open>
  C6: version resolution returns for every well-formed graph.  A success puts every input file
  under exactly one version, an available one (installed, if offline), which satisfies the
  requirement of the file and of everything it imports; and it fails only if some input file has
  no such version.
\<close>

theorem version_resolution_sound:
  assumes "graph_wf g" and "set nodes \<subseteq> {..<length (gr_edges g)}"
    and "distinct (map the_version (pj_available pj))"
  shows "case get_input_node_versions pj g nodes of
     None \<Rightarrow> False
   | Some (Inl errs) \<Rightarrow> errs \<noteq> [] \<and> (\<exists>i \<in> set nodes. \<forall>v \<in> set (usable pj). \<not> compatible pj g i (the_version v))
   | Some (Inr table) \<Rightarrow> distinct (map fst table) \<and> mset (concat (map snd table)) = mset nodes \<and>
       (\<forall>(v, is) \<in> set table. \<forall>i \<in> set is. v \<in> the_version ` set (usable pj) \<and> compatible pj g i v)"
proof -
  obtain r where r: "get_input_node_versions pj g nodes = Some r"
    "case r of Inl errs \<Rightarrow> errs \<noteq> [] \<and> (\<exists>i \<in> set nodes. candidates_of pj g i = [])
     | Inr t \<Rightarrow> assignment t nodes (\<lambda>i v. v \<in> the_version ` set (usable pj) \<and> compatible pj g i v)"
    using versions_spec [OF assms] by blast
  show ?thesis
  proof (cases r)
    case (Inl errs)
    with r show ?thesis by (simp add: candidates_of_def filter_empty_conv)
  next
    case (Inr t)
    with r show ?thesis by (simp add: assignment_def)
  qed
qed

text \<open>
  C16: if one version suits every input file and all imports, resolution picks a single such
  version for all of them, and an installed one whenever an installed one suits.
\<close>

theorem single_version_preferred:
  assumes "graph_wf g" and "set nodes \<subseteq> {..<length (gr_edges g)}" and "nodes \<noteq> []"
    and "v \<in> set (usable pj)" and "\<forall>i \<in> set nodes. compatible pj g i (the_version v)"
  shows "\<exists>w ns. get_input_node_versions pj g nodes = Some (Inr [(the_version w, ns)]) \<and> mset ns = mset nodes \<and>
     w \<in> set (usable pj) \<and> (\<forall>i \<in> set nodes. compatible pj g i (the_version w)) \<and>
     (is_installed v \<longrightarrow> is_installed w)"
  by (rule single_version [OF assms])

text \<open>
  A project with two versions of which a requirement is the list of the versions it admits:
  file 0 imports file 1, and file 1 does not accept version 8.
\<close>

definition sample_project :: "(nat, nat, nat, nat) Project" where
  "sample_project = \<lparr>pj_available = [Installed 7, Remote 8], pj_offline = False,
     pj_req_matches = (\<lambda>req v. v \<in> set req), pj_restrictions = (\<lambda>_. None),
     pj_restriction_version = (\<lambda>_. None), pj_satisfies = (\<lambda>s r. r \<le> s), pj_profiles = [(''default'', 0)]\<rparr>"

definition sample_graph :: "nat Graph" where
  "sample_graph = \<lparr>gr_nodes = [\<lparr>nd_path = [Normal ''A.sol''], nd_source = ''A'', nd_version_req = Some [7, 8]\<rparr>,
     \<lparr>nd_path = [Normal ''B.sol''], nd_source = ''B'', nd_version_req = Some [7]\<rparr>], gr_edges = [[1], []]\<rparr>"

lemma sample_graph_wf: "graph_wf sample_graph"
  by (simp add: graph_wf_def sample_graph_def edges_wf_def)

lemma sample_reach: "(0, n) \<in> (imports_rel (gr_edges sample_graph))\<^sup>* \<Longrightarrow> n < 2"
proof (induction rule: rtrancl_induct)
  case (step m n)
  then have "m = 0 \<or> m = 1" by auto
  with step show ?case by (auto simp: imports_rel_def sample_graph_def)
qed simp

lemma sample_compatible: "compatible sample_project sample_graph 0 7"
proof -
  have "case version_requirement sample_project sample_graph n of None \<Rightarrow> True
      | Some req \<Rightarrow> pj_req_matches sample_project req 7" if "n < 2" for n
  proof -
    from that have "n = 0 \<or> n = 1" by auto
    then show ?thesis by (auto simp: version_requirement_def node_def sample_graph_def sample_project_def Let_def)
  qed
  then show ?thesis unfolding compatible_def using sample_reach by blast
qed

theorem version_resolution_sound_witness:
  "case get_input_node_versions sample_project sample_graph [0] of
     None \<Rightarrow> False | Some (Inl errs) \<Rightarrow> errs \<noteq> [] | Some (Inr table) \<Rightarrow> mset (concat (map snd table)) = {#0#}"
proof -
  have "set [0] \<subseteq> {..<length (gr_edges sample_graph)}" by (simp add: sample_graph_def)
  moreover have "distinct (map the_version (pj_available sample_project))" by (simp add: sample_project_def)
  ultimately show ?thesis
    using version_resolution_sound [OF sample_graph_wf, of "[0]" sample_project]
    by (auto split: option.splits sum.splits)
qed

theorem single_version_preferred_witness:
  "\<exists>w ns. get_input_node_versions sample_project sample_graph [0] = Some (Inr [(the_version w, ns)]) \<and> is_installed w"
proof -
  have "set [0] \<subseteq> {..<length (gr_edges sample_graph)}" by (simp add: sample_graph_def)
  moreover have "Installed 7 \<in> set (usable sample_project)" by (simp add: usable_def sample_project_def)
  moreover have "\<forall>i \<in> set [0]. compatible sample_project sample_graph i (the_version (Installed 7))"
    by (simp add: sample_compatible)
  ultimately show ?thesis
    using single_version_preferred [OF sample_graph_wf, of "[0]" "Installed 7" sample_project] by force
qed

end
