(* ===== verification/Source_Sets.thy ===== *)
theory Source_Sets
  imports Version_Resolution
begin

text \<open>
  \<open>resolve_settings\<close> and \<open>into_sources_by_version\<close> of \<open>resolver/mod.rs\<close>: each input file gets the
  first settings profile that satisfies the restrictions of the file and its imports, and each
  version and profile its compiler input, the input files with everything they import.
\<close>

section \<open>Profiles\<close>

type_synonym profile_nodes = "(nat \<times> nat list) list"

fun assign_profiles :: "('c, 'v, 's, 'r) Project \<Rightarrow> 'c Graph \<Rightarrow> nat list
    \<Rightarrow> 'c ResolveError list \<times> profile_nodes \<Rightarrow> ('c ResolveError list \<times> profile_nodes) option" where
  "assign_profiles pj g [] st = Some st"
| "assign_profiles pj g (idx # rest) (errors, table) =
     (case retain_compatible_profiles pj g idx (enumerate 0 (pj_profiles pj)) of
        None \<Rightarrow> None
      | Some (Inl err) \<Rightarrow> assign_profiles pj g rest (errors @ [err], table)
      | Some (Inr []) \<Rightarrow> None
      | Some (Inr ((profile_idx, _) # _)) \<Rightarrow> assign_profiles pj g rest (errors, entry_push profile_idx idx table))"

fun settings_loop :: "('c, 'v, 's, 'r) Project \<Rightarrow> 'c Graph \<Rightarrow> ('v \<times> nat list) list
    \<Rightarrow> ('c ResolveError list \<times> ('v \<times> profile_nodes) list) \<Rightarrow> ('c ResolveError list \<times> ('v \<times> profile_nodes) list) option" where
  "settings_loop pj g [] st = Some st"
| "settings_loop pj g ((version, nodes) # rest) (errors, out) =
     (case assign_profiles pj g nodes (errors, []) of
        None \<Rightarrow> None
      | Some (errors', table) \<Rightarrow> settings_loop pj g rest (errors', out @ [(version, table)]))"

definition resolve_settings :: "('c, 'v, 's, 'r) Project \<Rightarrow> 'c Graph \<Rightarrow> ('v \<times> nat list) list
    \<Rightarrow> ('c ResolveError list, ('v \<times> profile_nodes) list) result option" where
  "resolve_settings pj g versions =
     (case settings_loop pj g versions ([], []) of
        None \<Rightarrow> None
      | Some (errors, out) \<Rightarrow> if errors = [] then Some (Inr out) else Some (Inl errors))"

section \<open>Compiler inputs\<close>

definition all_nodes :: "'c Graph \<Rightarrow> nat \<Rightarrow> (path \<times> string) option" where
  "all_nodes g n = map_option (\<lambda>nd. (nd_path nd, nd_source nd)) (at (gr_nodes g) n)"

type_synonym 'v compiler_input = "'v \<times> string sources \<times> nat"

text \<open>The inner loop over the profiles of a version, and the outer one over the versions.\<close>

fun profile_inputs :: "'c Graph \<Rightarrow> 'v \<Rightarrow> profile_nodes \<Rightarrow> 'v compiler_input list option" where
  "profile_inputs g version [] = Some []"
| "profile_inputs g version ((profile_idx, inputs) # rest) =
     (case version_sources (gr_edges g) (all_nodes g) inputs of
        None \<Rightarrow> None
      | Some sources \<Rightarrow>
          (case profile_inputs g version rest of
             None \<Rightarrow> None
           | Some out \<Rightarrow> Some ((version, sources, profile_idx) # out)))"

fun version_inputs :: "'c Graph \<Rightarrow> ('v \<times> profile_nodes) list \<Rightarrow> 'v compiler_input list option" where
  "version_inputs g [] = Some []"
| "version_inputs g ((version, table) # rest) =
     (case (profile_inputs g version table, version_inputs g rest) of
        (Some a, Some b) \<Rightarrow> Some (a @ b)
      | _ \<Rightarrow> None)"

text \<open>\<open>default_profiles\<close>: the profile chosen for each input file, a later one replacing.\<close>

definition primary_profiles :: "('c, 'v, 's, 'r) Project \<Rightarrow> 'c Graph \<Rightarrow> ('v \<times> profile_nodes) list
    \<Rightarrow> path \<Rightarrow> string option" where
  "primary_profiles pj g versions =
     fold (\<lambda>(_, table). fold (\<lambda>(k, inputs). fold (\<lambda>i m. m(nd_path (node g i) \<mapsto> fst (pj_profiles pj ! k))) inputs) table)
       versions Map.empty"

definition into_sources_by_version :: "('c, 'v::linorder, 's, 'r) Project \<Rightarrow> 'c Graph \<Rightarrow> nat list
    \<Rightarrow> ('c ResolveError list, 'v compiler_input list \<times> (path \<Rightarrow> string option)) result option" where
  "into_sources_by_version pj g nodes =
     (case get_input_node_versions pj g nodes of
        None \<Rightarrow> None
      | Some (Inl errs) \<Rightarrow> Some (Inl errs)
      | Some (Inr versions) \<Rightarrow>
          (case resolve_settings pj g versions of
             None \<Rightarrow> None
           | Some (Inl errs) \<Rightarrow> Some (Inl errs)
           | Some (Inr profiles) \<Rightarrow>
               (case version_inputs g profiles of
                  None \<Rightarrow> None
                | Some inputs \<Rightarrow> Some (Inr (inputs, primary_profiles pj g profiles)))))"

section \<open>Facts\<close>

text \<open>A profile suits a file if its settings satisfy the restrictions of the file and its imports.\<close>

definition profile_ok :: "('c, 'v, 's, 'r) Project \<Rightarrow> 'c Graph \<Rightarrow> nat \<Rightarrow> nat \<Rightarrow> bool" where
  "profile_ok pj g i k \<longleftrightarrow> k < length (pj_profiles pj) \<and>
     (\<forall>n. (i, n) \<in> (imports_rel (gr_edges g))\<^sup>* \<longrightarrow>
       (case pj_restrictions pj (nd_path (node g n)) of
          None \<Rightarrow> True | Some r \<Rightarrow> pj_satisfies pj (snd (pj_profiles pj ! k)) r))"

definition first_profile :: "('c, 'v, 's, 'r) Project \<Rightarrow> 'c Graph \<Rightarrow> nat \<Rightarrow> nat \<Rightarrow> bool" where
  "first_profile pj g i k \<longleftrightarrow> profile_ok pj g i k \<and> (\<forall>j < k. \<not> profile_ok pj g i j)"

definition no_profile :: "('c, 'v, 's, 'r) Project \<Rightarrow> 'c Graph \<Rightarrow> nat \<Rightarrow> bool" where
  "no_profile pj g i \<longleftrightarrow> (\<forall>k. \<not> profile_ok pj g i k)"

lemma filter_enumerate_first:
  "filter P (enumerate m xs) = (k, x) # rest \<Longrightarrow>
   m \<le> k \<and> k < m + length xs \<and> x = xs ! (k - m) \<and> P (k, x) \<and> (\<forall>j. m \<le> j \<longrightarrow> j < k \<longrightarrow> \<not> P (j, xs ! (j - m)))"
proof (induction xs arbitrary: m)
  case (Cons y ys)
  show ?case
  proof (cases "P (m, y)")
    case True
    with Cons.prems show ?thesis by auto
  next
    case False
    with Cons.prems have "filter P (enumerate (Suc m) ys) = (k, x) # rest" by simp
    from Cons.IH [OF this] have ih: "Suc m \<le> k" "k < Suc m + length ys" "x = ys ! (k - Suc m)"
      "P (k, x)" "\<forall>j. Suc m \<le> j \<longrightarrow> j < k \<longrightarrow> \<not> P (j, ys ! (j - Suc m))" by blast+
    have "\<not> P (j, (y # ys) ! (j - m))" if "m \<le> j" "j < k" for j
      using False ih(5) that by (cases "j = m") (auto simp: nth_Cons')
    with ih show ?thesis by (auto simp: nth_Cons')
  qed
qed simp

lemma retain_profiles:
  assumes wf: "graph_wf g" and i: "i < length (gr_edges g)" and ne: "pj_profiles pj \<noteq> []"
  shows "\<exists>r. retain_compatible_profiles pj g i (enumerate 0 (pj_profiles pj)) = Some r \<and>
     (case r of
        Inr vs \<Rightarrow> (\<exists>k p rest. vs = (k, p) # rest \<and> first_profile pj g i k)
      | Inl e \<Rightarrow> no_profile pj g i)"
proof -
  let ?req = "\<lambda>n. pj_restrictions pj (nd_path (node g n))" and ?cs = "enumerate 0 (pj_profiles pj)"
  let ?sat = "\<lambda>r (_ :: nat, _ :: string, settings). pj_satisfies pj settings r"
  have es: "edges_wf (gr_edges g)" using wf by (simp add: graph_wf_def)
  from node_ids_imports [OF es i] obtain ns where ns: "node_ids (gr_edges g) i = Some ns"
    "\<And>n. n \<in> set ns \<longleftrightarrow> (i, n) \<in> (imports_rel (gr_edges g))\<^sup>*" by blast
  let ?P = "\<lambda>v. \<forall>n \<in> set ns. \<forall>r. ?req n = Some r \<longrightarrow> ?sat r v"
  have P: "?P (k, pj_profiles pj ! k) \<longleftrightarrow> profile_ok pj g i k" if "k < length (pj_profiles pj)" for k
    using that ns(2) unfolding profile_ok_def by (auto simp: case_prod_beta split: option.splits)
  have none: "no_profile pj g i" if "filter ?P ?cs = []"
    unfolding no_profile_def
  proof (intro allI notI)
    fix k assume k: "profile_ok pj g i k"
    then have l: "k < length (pj_profiles pj)" by (simp add: profile_ok_def)
    then have "(k, pj_profiles pj ! k) \<in> set ?cs" by (auto simp: in_set_enumerate_eq)
    with that P [OF l] k show False by (auto simp: filter_empty_conv)
  qed
  obtain out f where l: "retain_loop ?req ?sat ns ?cs = (out, f)" by (cases "retain_loop ?req ?sat ns ?cs")
  note spec = retain_loop_spec [where req = ?req and sat = ?sat and ns = ns and cs = ?cs, unfolded l]
  show ?thesis
  proof (cases f)
    case None
    have "?cs \<noteq> []" using ne by (metis length_enumerate length_0_conv)
    with spec None have o: "out = filter ?P ?cs \<and> out \<noteq> []" by auto
    then obtain k p rest where out: "out = (k, p) # rest" by (metis list.exhaust prod.exhaust)
    from o out have "filter ?P ?cs = (k, p) # rest" by metis
    from filter_enumerate_first [OF this]
    have k: "k < length (pj_profiles pj)" "?P (k, p)" "p = pj_profiles pj ! k"
        "\<forall>j. j < k \<longrightarrow> \<not> ?P (j, pj_profiles pj ! j)"
      unfolding diff_zero add_0 by (blast+)
    note k(2) [unfolded k(3)]
    with P [OF k(1)] have "profile_ok pj g i k" by (rule iffD1)
    moreover have "\<not> profile_ok pj g i j" if "j < k" for j
    proof -
      have "j < length (pj_profiles pj)" using that k(1) by simp
      from P [OF this] k(4) that show ?thesis by blast
    qed
    ultimately have "first_profile pj g i k" by (simp add: first_profile_def)
    with None out show ?thesis
      by (simp add: retain_compatible_profiles_def Let_def ns(1) l)
  next
    case (Some n)
    with spec none have "no_profile pj g i" by simp
    moreover have "\<exists>e. retain_compatible_profiles pj g i ?cs = Some (Inl e)"
      using Some by (simp add: retain_compatible_profiles_def Let_def ns(1) l split: option.split)
    ultimately show ?thesis by auto
  qed
qed


section \<open>The profiles of the input files\<close>

lemma assign_profiles_spec:
  assumes "graph_wf g" and "pj_profiles pj \<noteq> []" and "set nodes \<subseteq> {..<length (gr_edges g)}"
    and "fst st = [] \<longrightarrow> assignment (snd st) before (first_profile pj g)"
  shows "\<exists>st'. assign_profiles pj g nodes st = Some st' \<and>
     (fst st' = [] \<longrightarrow> fst st = [] \<and> assignment (snd st') (before @ nodes) (first_profile pj g)) \<and>
     (fst st' \<noteq> [] \<longrightarrow> fst st \<noteq> [] \<or> (\<exists>i \<in> set nodes. no_profile pj g i))"
  using assms(3,4)
proof (induction nodes arbitrary: st before)
  case (Cons i rest)
  obtain errors table where st: "st = (errors, table)" by (cases st)
  from Cons.prems have i: "i < length (gr_edges g)" and rest: "set rest \<subseteq> {..<length (gr_edges g)}" by simp_all
  from retain_profiles [OF assms(1) i assms(2)] obtain r where
    r: "retain_compatible_profiles pj g i (enumerate 0 (pj_profiles pj)) = Some r"
    and rc: "case r of Inr vs \<Rightarrow> (\<exists>k p rest. vs = (k, p) # rest \<and> first_profile pj g i k)
      | Inl e \<Rightarrow> no_profile pj g i" by blast
  show ?case
  proof (cases r)
    case (Inl e)
    from Cons.IH [OF rest, of "(errors @ [e], table)" before] rc show ?thesis
      by (auto simp: st r Inl)
  next
    case (Inr vs)
    with rc obtain k p vs' where vs: "vs = (k, p) # vs'" and k: "first_profile pj g i k" by auto
    have "errors = [] \<longrightarrow> assignment (entry_push k i table) (before @ [i]) (first_profile pj g)"
      using Cons.prems(2) st k by (auto intro: assignment_push)
    with Cons.IH [OF rest, of "(errors, entry_push k i table)" "before @ [i]"] show ?thesis
      by (cases p) (auto simp: st r Inr vs)
  qed
qed auto

definition profiles_of :: "('c, 'v, 's, 'r) Project \<Rightarrow> 'c Graph \<Rightarrow> ('v \<times> nat list) list
    \<Rightarrow> ('v \<times> profile_nodes) list \<Rightarrow> bool" where
  "profiles_of pj g = list_all2 (\<lambda>(version, nodes) (version', table).
     version' = version \<and> assignment table nodes (first_profile pj g))"

lemma settings_loop_spec:
  assumes "graph_wf g" and "pj_profiles pj \<noteq> []"
    and "\<forall>(v, nodes) \<in> set versions. set nodes \<subseteq> {..<length (gr_edges g)}"
    and "fst st = [] \<longrightarrow> profiles_of pj g before (snd st)"
  shows "\<exists>st'. settings_loop pj g versions st = Some st' \<and>
     (fst st' = [] \<longrightarrow> fst st = [] \<and> profiles_of pj g (before @ versions) (snd st')) \<and>
     (fst st' \<noteq> [] \<longrightarrow> fst st \<noteq> [] \<or> (\<exists>i \<in> set (concat (map snd versions)). no_profile pj g i))"
  using assms(3,4)
proof (induction versions arbitrary: st before)
  case (Cons e rest)
  obtain v nodes where e: "e = (v, nodes)" by (cases e)
  obtain errors out where st: "st = (errors, out)" by (cases st)
  from Cons.prems e have ns: "set nodes \<subseteq> {..<length (gr_edges g)}" by simp
  have init: "fst (errors, [] :: profile_nodes) = [] \<longrightarrow>
      assignment (snd (errors, [] :: profile_nodes)) [] (first_profile pj g)" by simp
  from assign_profiles_spec [OF assms(1,2) ns init, unfolded fst_conv append_Nil]
  obtain r where r: "assign_profiles pj g nodes (errors, []) = Some r"
    "fst r = [] \<longrightarrow> errors = [] \<and> assignment (snd r) nodes (first_profile pj g)"
    "fst r \<noteq> [] \<longrightarrow> errors \<noteq> [] \<or> (\<exists>i \<in> set nodes. no_profile pj g i)" by blast
  then obtain errors' table where a: "assign_profiles pj g nodes (errors, []) = Some (errors', table)"
    and ok: "errors' = [] \<longrightarrow> errors = [] \<and> assignment table nodes (first_profile pj g)"
    and bad: "errors' \<noteq> [] \<longrightarrow> errors \<noteq> [] \<or> (\<exists>i \<in> set nodes. no_profile pj g i)" by (cases r) simp
  have rest: "\<forall>(v, nodes) \<in> set rest. set nodes \<subseteq> {..<length (gr_edges g)}" using Cons.prems(1) by simp
  have p: "fst (errors', out @ [(v, table)]) = [] \<longrightarrow>
      profiles_of pj g (before @ [e]) (snd (errors', out @ [(v, table)]))"
    using Cons.prems(2) ok by (auto simp: st e profiles_of_def intro: list_all2_appendI)
  from Cons.IH [OF rest p, unfolded fst_conv append.assoc append_Cons append_Nil] obtain st' where
    s: "settings_loop pj g rest (errors', out @ [(v, table)]) = Some st'"
    and s1: "fst st' = [] \<longrightarrow> errors' = [] \<and> profiles_of pj g (before @ e # rest) (snd st')"
    and s2: "fst st' \<noteq> [] \<longrightarrow> errors' \<noteq> [] \<or> (\<exists>i \<in> set (concat (map snd rest)). no_profile pj g i)"
    by blast
  have "settings_loop pj g (e # rest) st = Some st'" by (simp add: e st a s)
  moreover have "fst st' \<noteq> [] \<longrightarrow> errors \<noteq> [] \<or>
      (\<exists>i \<in> set (concat (map snd (e # rest))). no_profile pj g i)"
    using s2 bad e by auto
  moreover have "fst st' = [] \<longrightarrow> errors = []" using s1 ok by blast
  ultimately show ?case using s1 by (intro exI [of _ st']) (simp add: st)
qed auto

lemma resolve_settings_spec:
  assumes "graph_wf g" and "pj_profiles pj \<noteq> []"
    and "\<forall>(v, nodes) \<in> set versions. set nodes \<subseteq> {..<length (gr_edges g)}"
  shows "case resolve_settings pj g versions of
     None \<Rightarrow> False
   | Some (Inl errs) \<Rightarrow> errs \<noteq> [] \<and> (\<exists>i \<in> set (concat (map snd versions)). no_profile pj g i)
   | Some (Inr out) \<Rightarrow> profiles_of pj g versions out"
proof -
  have init: "fst ([], []) = [] \<longrightarrow> profiles_of pj g [] (snd ([], []))" by (simp add: profiles_of_def)
  from settings_loop_spec [OF assms init, unfolded fst_conv append_Nil] obtain r where
    r: "settings_loop pj g versions ([], []) = Some r" "fst r = [] \<longrightarrow> profiles_of pj g versions (snd r)"
      "fst r \<noteq> [] \<longrightarrow> (\<exists>i \<in> set (concat (map snd versions)). no_profile pj g i)"
    by blast
  then show ?thesis by (cases r) (simp add: resolve_settings_def)
qed

section \<open>The inputs of the compilers\<close>

lemma all_nodes_ok:
  assumes "graph_wf g" shows "nodes_ok (gr_edges g) (all_nodes g)"
proof -
  have l: "length (gr_nodes g) = length (gr_edges g)" and d: "distinct (map nd_path (gr_nodes g))"
    and e: "edges_wf (gr_edges g)" using assms by (simp_all add: graph_wf_def)
  have at: "all_nodes g n = (if n < length (gr_edges g) then Some (nd_path (node g n), nd_source (node g n)) else None)" for n
    by (simp add: all_nodes_def at_def node_def l)
  have "n = m" if "n < length (gr_edges g)" "m < length (gr_edges g)" "nd_path (node g n) = nd_path (node g m)" for n m
    using that d l by (simp add: node_def distinct_conv_nth nth_map) (metis nth_map)
  then show ?thesis unfolding nodes_ok_def at using e by (auto split: if_splits)
qed

lemma all_nodes_path:
  "graph_wf g \<Longrightarrow> n < length (gr_edges g) \<Longrightarrow> all_nodes g n = Some (nd_path (node g n), nd_source (node g n))"
  by (simp add: all_nodes_def at_def node_def graph_wf_def)

lemma paths_unique:
  "graph_wf g \<Longrightarrow> n < length (gr_edges g) \<Longrightarrow> m < length (gr_edges g) \<Longrightarrow>
   nd_path (node g n) = nd_path (node g m) \<Longrightarrow> n = m"
  using all_nodes_ok [of g] all_nodes_path [of g n] all_nodes_path [of g m] unfolding nodes_ok_def by metis

definition sources_for :: "'c Graph \<Rightarrow> nat list \<Rightarrow> string sources \<Rightarrow> bool" where
  "sources_for g ns sources \<longleftrightarrow> (\<forall>p s. bt_get sources p = Some s \<longleftrightarrow>
     (\<exists>i \<in> set ns. \<exists>n. (i, n) \<in> (imports_rel (gr_edges g))\<^sup>* \<and> all_nodes g n = Some (p, s)))"

definition cells :: "('v \<times> profile_nodes) list \<Rightarrow> ('v \<times> nat \<times> nat list) list" where
  "cells profiles = concat (map (\<lambda>(v, table). map (Pair v) table) profiles)"

definition input_of :: "'c Graph \<Rightarrow> 'v \<times> nat \<times> nat list \<Rightarrow> 'v compiler_input \<Rightarrow> bool" where
  "input_of g = (\<lambda>(v, k, ns) (v', sources, k'). v' = v \<and> k' = k \<and> sources_for g ns sources)"

lemma cells_Cons: "cells ((v, table) # profiles) = map (Pair v) table @ cells profiles"
  by (simp add: cells_def)

lemma profile_inputs_spec:
  assumes "graph_wf g" and "\<forall>(k, ns) \<in> set table. set ns \<subseteq> {..<length (gr_edges g)} \<and> distinct ns"
  shows "\<exists>out. profile_inputs g v table = Some out \<and> list_all2 (input_of g) (map (Pair v) table) out"
  using assms(2)
proof (induction table)
  case (Cons e table)
  obtain k ns where e: "e = (k, ns)" by (cases e)
  with Cons.prems have ns: "set ns \<subseteq> {..<length (gr_edges g)}" "distinct ns" by simp_all
  from version_sources_spec [OF all_nodes_ok [OF assms(1)] ns] obtain sources where
    s: "version_sources (gr_edges g) (all_nodes g) ns = Some sources" "sources_for g ns sources"
    by (auto simp: sources_for_def split: option.splits)
  from Cons obtain out where "profile_inputs g v table = Some out"
    "list_all2 (input_of g) (map (Pair v) table) out" by auto
  with s show ?case by (simp add: e input_of_def)
qed simp

lemma version_inputs_spec:
  assumes "graph_wf g" and "\<forall>(v, k, ns) \<in> set (cells profiles). set ns \<subseteq> {..<length (gr_edges g)} \<and> distinct ns"
  shows "\<exists>out. version_inputs g profiles = Some out \<and> list_all2 (input_of g) (cells profiles) out"
  using assms(2)
proof (induction profiles)
  case (Cons e profiles)
  obtain v table where e: "e = (v, table)" by (cases e)
  have "\<forall>(k, ns) \<in> set table. set ns \<subseteq> {..<length (gr_edges g)} \<and> distinct ns"
    using Cons.prems by (fastforce simp: e cells_Cons)
  from profile_inputs_spec [OF assms(1) this, of v] obtain a where
    a: "profile_inputs g v table = Some a" "list_all2 (input_of g) (map (Pair v) table) a" by blast
  from Cons obtain b where "version_inputs g profiles = Some b" "list_all2 (input_of g) (cells profiles) b"
    by (auto simp: cells_def)
  with a show ?case by (simp add: e cells_def list_all2_appendI)
qed (simp add: cells_def)

lemma assignment_part:
  assumes "assignment t ns ok" and "(k, is) \<in> set t"
  shows "set is \<subseteq> set ns" and "distinct ns \<Longrightarrow> distinct is" and "i \<in> set is \<Longrightarrow> ok i k"
proof -
  have m: "mset (concat (map snd t)) = mset ns" using assms(1) by (simp add: assignment_def)
  have "is \<in> set (map snd t)" using assms(2) by force
  then show "set is \<subseteq> set ns" using mset_eq_setD [OF m] by auto
  show "distinct is" if "distinct ns"
    using mset_eq_imp_distinct_iff [OF m] that \<open>is \<in> set (map snd t)\<close> by (auto simp: distinct_concat_iff)
  show "ok i k" if "i \<in> set is" using assms that by (auto simp: assignment_def)
qed

lemma assignment_cover:
  assumes "assignment t ns ok" and "i \<in> set ns"
  obtains k "is" where "(k, is) \<in> set t" and "i \<in> set is"
proof -
  have "mset (concat (map snd t)) = mset ns" using assms(1) by (simp add: assignment_def)
  from mset_eq_setD [OF this] assms(2) have "i \<in> set (concat (map snd t))" by simp
  then show thesis using that by auto
qed

lemma cells_spec:
  assumes v: "assignment versions nodes ok" and p: "profiles_of pj g versions profiles" and d: "distinct nodes"
  shows "\<forall>(v, k, ns) \<in> set (cells profiles). set ns \<subseteq> set nodes \<and> distinct ns \<and>
           (\<forall>i \<in> set ns. ok i v \<and> first_profile pj g i k)"
    and "\<forall>i \<in> set nodes. \<exists>(v, k, ns) \<in> set (cells profiles). i \<in> set ns"
proof -
  show "\<forall>(v, k, ns) \<in> set (cells profiles). set ns \<subseteq> set nodes \<and> distinct ns \<and>
           (\<forall>i \<in> set ns. ok i v \<and> first_profile pj g i k)"
  proof (safe)
    fix v k ns assume "(v, k, ns) \<in> set (cells profiles)"
    then obtain table where t: "(v, table) \<in> set profiles" "(k, ns) \<in> set table" by (auto simp: cells_def)
    from t(1) p obtain vns where vn: "(v, vns) \<in> set versions" and a: "assignment table vns (first_profile pj g)"
      by (fastforce simp: profiles_of_def list_all2_conv_all_nth in_set_conv_nth)
    note va = assignment_part [OF v vn] and ta = assignment_part [OF a t(2)]
    show "distinct ns" using va(2) ta(2) d by simp
    fix i assume i: "i \<in> set ns"
    with va(1) ta(1) show "i \<in> set nodes" by blast
    show "ok i v" using va(3) ta(1) i by blast
    show "first_profile pj g i k" using ta(3) i by simp
  qed
  show "\<forall>i \<in> set nodes. \<exists>(v, k, ns) \<in> set (cells profiles). i \<in> set ns"
  proof
    fix i assume "i \<in> set nodes"
    then obtain v vns where vn: "(v, vns) \<in> set versions" "i \<in> set vns" by (rule assignment_cover [OF v])
    then obtain table where t: "(v, table) \<in> set profiles" and a: "assignment table vns (first_profile pj g)"
      using p by (fastforce simp: profiles_of_def list_all2_conv_all_nth in_set_conv_nth)
    from assignment_cover [OF a vn(2)] obtain k ns where "(k, ns) \<in> set table" "i \<in> set ns" .
    with t show "\<exists>(v, k, ns) \<in> set (cells profiles). i \<in> set ns" by (force simp: cells_def)
  qed
qed

definition profile_entries :: "('c, 'v, 's, 'r) Project \<Rightarrow> 'c Graph \<Rightarrow> ('v \<times> nat \<times> nat list) list \<Rightarrow> (path \<times> string) list" where
  "profile_entries pj g cs =
     concat (map (\<lambda>(_, k, ns). map (\<lambda>i. (nd_path (node g i), fst (pj_profiles pj ! k))) ns) cs)"

lemma fold_update: "fold (\<lambda>i m. m(f i \<mapsto> x)) ns m = m ++ map_of (List.rev (map (\<lambda>i. (f i, x)) ns))"
  by (induction ns arbitrary: m) (simp_all add: map_add_def fun_eq_iff split: option.split)

lemma primary_entries:
  fixes pj :: "('c, 'v, 's, 'r) Project"
  shows "primary_profiles pj g profiles = map_of (List.rev (profile_entries pj g (cells profiles)))"
proof -
  let ?upd = "\<lambda>k ns m. fold (\<lambda>i m. m(nd_path (node g i) \<mapsto> fst (pj_profiles pj ! k))) ns m"
  have t: "fold (\<lambda>(k, ns). ?upd k ns) table m =
      m ++ map_of (List.rev (profile_entries pj g (map (Pair v) table)))" for v :: 'v and table m
    by (induction table arbitrary: m) (auto simp: profile_entries_def fold_update map_add_assoc)
  have "fold (\<lambda>(_, table). fold (\<lambda>(k, ns). ?upd k ns) table) profiles m =
      m ++ map_of (List.rev (profile_entries pj g (cells profiles)))" for m
  proof (induction profiles arbitrary: m)
    case (Cons e profiles)
    obtain v table where e: "e = (v, table)" by (cases e)
    have step: "(case e of (_, table) \<Rightarrow> fold (\<lambda>(k, ns). ?upd k ns) table) m =
        m ++ map_of (List.rev (profile_entries pj g (map (Pair v) table)))"
      unfolding e prod.case by (rule t)
    show ?case
      unfolding fold_Cons comp_apply step Cons.IH unfolding e cells_Cons
      by (simp add: profile_entries_def map_add_assoc)
  qed (simp add: cells_def profile_entries_def)
  then show ?thesis by (simp add: primary_profiles_def)
qed

lemma first_profile_unique: "first_profile pj g i k \<Longrightarrow> first_profile pj g i k' \<Longrightarrow> k = k'"
  unfolding first_profile_def by (metis linorder_neqE_nat)

lemma primary_spec:
  assumes wf: "graph_wf g" and rng: "set nodes \<subseteq> {..<length (gr_edges g)}" and i: "i \<in> set nodes"
    and snd: "\<forall>(v, k, ns) \<in> set cs. set ns \<subseteq> set nodes \<and> (\<forall>i \<in> set ns. first_profile pj g i k)"
    and cov: "\<exists>(v, k, ns) \<in> set cs. i \<in> set ns"
  shows "\<exists>k. first_profile pj g i k \<and>
     map_of (List.rev (profile_entries pj g cs)) (nd_path (node g i)) = Some (fst (pj_profiles pj ! k))"
proof -
  from cov obtain v k ns where c: "(v, k, ns) \<in> set cs" "i \<in> set ns" by auto
  with snd have k: "first_profile pj g i k" by fastforce
  have only: "x = fst (pj_profiles pj ! k)" if "(nd_path (node g i), x) \<in> set (profile_entries pj g cs)" for x
  proof -
    from that obtain v' k' ns' j where j: "(v', k', ns') \<in> set cs" "j \<in> set ns'"
      "nd_path (node g j) = nd_path (node g i)" "x = fst (pj_profiles pj ! k')"
      by (auto simp: profile_entries_def)
    with snd have "j \<in> set nodes" "first_profile pj g j k'" by fastforce+
    moreover have "j = i" using paths_unique [OF wf _ _ j(3)] rng i \<open>j \<in> set nodes\<close> by auto
    ultimately show ?thesis using first_profile_unique [OF k] j(4) by simp
  qed
  have "(nd_path (node g i), fst (pj_profiles pj ! k)) \<in> set (profile_entries pj g cs)"
    using c by (force simp: profile_entries_def)
  then have "nd_path (node g i) \<in> fst ` set (profile_entries pj g cs)" by force
  then obtain x where "map_of (List.rev (profile_entries pj g cs)) (nd_path (node g i)) = Some x"
    by (metis map_of_eq_None_iff not_None_eq set_rev)
  moreover from map_of_SomeD [OF this] only have "x = fst (pj_profiles pj ! k)" by simp
  ultimately show ?thesis using k by blast
qed

section \<open>Properties\<close>

lemma list_all2_mem:
  assumes "list_all2 P xs ys"
  shows "x \<in> set xs \<Longrightarrow> \<exists>y \<in> set ys. P x y" and "y \<in> set ys \<Longrightarrow> \<exists>x \<in> set xs. P x y"
  using assms by (induction rule: list_all2_induct) auto

lemma inputs_of_cells:
  assumes io: "list_all2 (input_of g) (cells profiles) inputs"
  shows "(v, k, ns) \<in> set (cells profiles) \<Longrightarrow> \<exists>sources. (v, sources, k) \<in> set inputs \<and> sources_for g ns sources"
    and "(v, sources, k) \<in> set inputs \<Longrightarrow> \<exists>ns. (v, k, ns) \<in> set (cells profiles) \<and> sources_for g ns sources"
proof -
  assume "(v, k, ns) \<in> set (cells profiles)"
  then obtain y where "y \<in> set inputs" "input_of g (v, k, ns) y"
    using list_all2_mem(1) [OF io] by blast
  then show "\<exists>sources. (v, sources, k) \<in> set inputs \<and> sources_for g ns sources"
    by (cases y) (auto simp: input_of_def)
next
  assume "(v, sources, k) \<in> set inputs"
  then obtain x where "x \<in> set (cells profiles)" "input_of g x (v, sources, k)"
    using list_all2_mem(2) [OF io] by blast
  then show "\<exists>ns. (v, k, ns) \<in> set (cells profiles) \<and> sources_for g ns sources"
    by (cases x) (auto simp: input_of_def)
qed

lemma sources_for_reached:
  "graph_wf g \<Longrightarrow> sources_for g ns sources \<Longrightarrow> i \<in> set ns \<Longrightarrow> (i, n) \<in> (imports_rel (gr_edges g))\<^sup>* \<Longrightarrow>
   n < length (gr_edges g) \<Longrightarrow> bt_get sources (nd_path (node g n)) = Some (nd_source (node g n))"
  unfolding sources_for_def using all_nodes_path by blast

lemma sources_for_only:
  assumes "graph_wf g" and "sources_for g ns sources" and "bt_get sources p = Some s"
  obtains i n where "i \<in> set ns" and "(i, n) \<in> (imports_rel (gr_edges g))\<^sup>*"
    and "p = nd_path (node g n)" and "s = nd_source (node g n)"
  using assms that unfolding sources_for_def
  by (auto simp: all_nodes_def at_def node_def split: if_splits)

lemma inputs_spec:
  assumes wf: "graph_wf g" and rng: "set nodes \<subseteq> {..<length (gr_edges g)}" and d: "distinct nodes"
    and av: "distinct (map the_version (pj_available pj))" and pn: "pj_profiles pj \<noteq> []"
  shows "case into_sources_by_version pj g nodes of
     None \<Rightarrow> False
   | Some (Inl errs) \<Rightarrow> errs \<noteq> [] \<and> (\<exists>i \<in> set nodes. candidates_of pj g i = [] \<or> no_profile pj g i)
   | Some (Inr (inputs, primary)) \<Rightarrow> \<exists>cs. list_all2 (input_of g) cs inputs \<and>
       primary = map_of (List.rev (profile_entries pj g cs)) \<and>
       (\<exists>profiles. cs = cells (profiles :: ('v::linorder \<times> profile_nodes) list)) \<and>
       (\<forall>(v, k, ns) \<in> set cs. set ns \<subseteq> set nodes \<and>
          (\<forall>i \<in> set ns. (v \<in> the_version ` set (usable pj) \<and> compatible pj g i v) \<and> first_profile pj g i k)) \<and>
       (\<forall>i \<in> set nodes. \<exists>(v, k, ns) \<in> set cs. i \<in> set ns)"
proof -
  from versions_spec [OF wf rng av] obtain r where r: "get_input_node_versions pj g nodes = Some r"
    "case r of Inl errs \<Rightarrow> errs \<noteq> [] \<and> (\<exists>i \<in> set nodes. candidates_of pj g i = [])
     | Inr t \<Rightarrow> assignment t nodes (\<lambda>i v. v \<in> the_version ` set (usable pj) \<and> compatible pj g i v)" by blast
  show ?thesis
  proof (cases r)
    case (Inl errs)
    with r show ?thesis by (auto simp: into_sources_by_version_def)
  next
    case (Inr versions)
    from r(2) have v: "assignment versions nodes (\<lambda>i v. v \<in> the_version ` set (usable pj) \<and> compatible pj g i v)"
      unfolding Inr sum.case .
    have members: "set vns \<subseteq> set nodes" if "(u, vns) \<in> set versions" for u vns
      by (rule assignment_part(1) [OF v that])
    then have vr: "\<forall>(v, nodes) \<in> set versions. set nodes \<subseteq> {..<length (gr_edges g)}" using rng by fastforce
    note s = resolve_settings_spec [OF wf pn vr]
    show ?thesis
    proof (cases "resolve_settings pj g versions")
      case None
      with s show ?thesis by simp
    next
      case (Some q)
      show ?thesis
      proof (cases q)
        case (Inl errs)
        with s Some members have "errs \<noteq> [] \<and> (\<exists>i \<in> set nodes. no_profile pj g i)" by fastforce
        then show ?thesis using r(1) Inr Some Inl by (auto simp: into_sources_by_version_def)
      next
        case (Inr profiles)
        with s Some have p: "profiles_of pj g versions profiles" by simp
        note c = cells_spec [OF v p d]
        have cr: "\<forall>(v, k, ns) \<in> set (cells profiles). set ns \<subseteq> {..<length (gr_edges g)} \<and> distinct ns"
          using c(1) rng by fastforce
        from version_inputs_spec [OF wf cr] obtain inputs where
          i: "version_inputs g profiles = Some inputs" "list_all2 (input_of g) (cells profiles) inputs" by blast
        have "into_sources_by_version pj g nodes = Some (Inr (inputs, primary_profiles pj g profiles))"
          using r(1) \<open>r = Inr versions\<close> Some Inr i(1) by (simp add: into_sources_by_version_def)
        moreover have "\<forall>(v, k, ns) \<in> set (cells profiles). set ns \<subseteq> set nodes \<and>
          (\<forall>i \<in> set ns. (v \<in> the_version ` set (usable pj) \<and> compatible pj g i v) \<and> first_profile pj g i k)"
          using c(1) by fast
        ultimately show ?thesis
          using i(2) c(2) primary_entries by (simp del: split_paired_Ex) blast
      qed
    qed
  qed
qed

text \<open>
  C2: the inputs handed to the compilers.  The computation returns on every well-formed graph; if
  it fails, some input file has no version or no settings profile.  Otherwise every input file is
  compiled, in an input whose version suits the file and its imports and whose profile is the
  first that does, together with everything it imports, each file with its own content; and an
  input holds no file that is not an input file or an import of one that its version and profile
  suit.
\<close>

theorem compiler_inputs_sound:
  assumes "graph_wf g" and "set nodes \<subseteq> {..<length (gr_edges g)}" and "distinct nodes"
    and "distinct (map the_version (pj_available pj))" and "pj_profiles pj \<noteq> []"
  shows "case into_sources_by_version pj g nodes of
     None \<Rightarrow> False
   | Some (Inl errs) \<Rightarrow> errs \<noteq> [] \<and> (\<exists>i \<in> set nodes.
       (\<forall>v \<in> set (usable pj). \<not> compatible pj g i (the_version v)) \<or> (\<forall>k. \<not> profile_ok pj g i k))
   | Some (Inr (inputs, primary)) \<Rightarrow>
       (\<forall>i \<in> set nodes. \<exists>(v, sources, k) \<in> set inputs.
          v \<in> the_version ` set (usable pj) \<and> compatible pj g i v \<and> first_profile pj g i k \<and>
          (\<forall>n < length (gr_edges g). (i, n) \<in> (imports_rel (gr_edges g))\<^sup>* \<longrightarrow>
             bt_get sources (nd_path (node g n)) = Some (nd_source (node g n)))) \<and>
       (\<forall>(v, sources, k) \<in> set inputs. \<forall>p s. bt_get sources p = Some s \<longrightarrow>
          (\<exists>i \<in> set nodes. \<exists>n. (i, n) \<in> (imports_rel (gr_edges g))\<^sup>* \<and>
             p = nd_path (node g n) \<and> s = nd_source (node g n) \<and> compatible pj g i v \<and> first_profile pj g i k)) \<and>
       (\<forall>i \<in> set nodes. \<exists>k. first_profile pj g i k \<and> primary (nd_path (node g i)) = Some (fst (pj_profiles pj ! k)))"
proof (cases "into_sources_by_version pj g nodes")
  case None
  with inputs_spec [OF assms] show ?thesis by simp
next
  case (Some r)
  show ?thesis
  proof (cases r)
    case (Inl errs)
    with inputs_spec [OF assms] Some show ?thesis
      by (simp add: candidates_of_def no_profile_def filter_empty_conv)
  next
    case (Inr out)
    obtain inputs primary where out: "out = (inputs, primary)" by (cases out)
    from inputs_spec [OF assms, unfolded Some Inr out option.case sum.case prod.case]
    obtain profiles where io: "list_all2 (input_of g) (cells profiles) inputs"
      and pr: "primary = map_of (List.rev (profile_entries pj g (cells profiles)))"
      and snd: "\<forall>(v, k, ns) \<in> set (cells profiles). set ns \<subseteq> set nodes \<and>
          (\<forall>i \<in> set ns. (v \<in> the_version ` set (usable pj) \<and> compatible pj g i v) \<and> first_profile pj g i k)"
      and cov: "\<forall>i \<in> set nodes. \<exists>(v, k, ns) \<in> set (cells profiles). i \<in> set ns" by blast
    have "\<exists>(v, sources, k) \<in> set inputs.
          v \<in> the_version ` set (usable pj) \<and> compatible pj g i v \<and> first_profile pj g i k \<and>
          (\<forall>n < length (gr_edges g). (i, n) \<in> (imports_rel (gr_edges g))\<^sup>* \<longrightarrow>
             bt_get sources (nd_path (node g n)) = Some (nd_source (node g n)))" if i: "i \<in> set nodes" for i
    proof -
      from cov i obtain v k ns where c: "(v, k, ns) \<in> set (cells profiles)" "i \<in> set ns" by blast
      from inputs_of_cells(1) [OF io c(1)] obtain sources where
        s: "(v, sources, k) \<in> set inputs" "sources_for g ns sources" by blast
      from snd c have "v \<in> the_version ` set (usable pj) \<and> compatible pj g i v \<and> first_profile pj g i k" by blast
      then show ?thesis
        by (intro bexI [OF _ s(1)] case_prodI) (simp add: sources_for_reached [OF assms(1) s(2) c(2)])
    qed
    moreover have "\<exists>i \<in> set nodes. \<exists>n. (i, n) \<in> (imports_rel (gr_edges g))\<^sup>* \<and>
             p = nd_path (node g n) \<and> s = nd_source (node g n) \<and> compatible pj g i v \<and> first_profile pj g i k"
      if vs: "(v, sources, k) \<in> set inputs" and ps: "bt_get sources p = Some s" for v sources k p s
    proof -
      from inputs_of_cells(2) [OF io vs] obtain ns where
        c: "(v, k, ns) \<in> set (cells profiles)" "sources_for g ns sources" by blast
      obtain i n where "i \<in> set ns" "(i, n) \<in> (imports_rel (gr_edges g))\<^sup>*"
        "p = nd_path (node g n)" "s = nd_source (node g n)" by (rule sources_for_only [OF assms(1) c(2) ps])
      with snd c(1) show ?thesis by blast
    qed
    moreover have "\<exists>k. first_profile pj g i k \<and> primary (nd_path (node g i)) = Some (fst (pj_profiles pj ! k))"
      if i: "i \<in> set nodes" for i
      unfolding pr using snd cov i by (intro primary_spec [OF assms(1,2) i]) fast+
    ultimately show ?thesis unfolding Some Inr out option.case sum.case prod.case by fast
  qed
qed

theorem compiler_inputs_sound_witness:
  "\<exists>inputs primary k. into_sources_by_version sample_project sample_graph [0] = Some (Inr (inputs, primary)) \<and>
     primary [Normal ''A.sol''] = Some (fst (pj_profiles sample_project ! k)) \<and> k < 1 \<and>
     inputs = [(7, [([Normal ''A.sol''], ''A''), ([Normal ''B.sol''], ''B'')], 0)]"
proof -
  have i: "case into_sources_by_version sample_project sample_graph [0] of
      Some (Inr (inputs, primary)) \<Rightarrow> inputs = [(7, [([Normal ''A.sol''], ''A''), ([Normal ''B.sol''], ''B'')], 0)]
    | _ \<Rightarrow> False"
    by code_simp
  then obtain inputs primary where r: "into_sources_by_version sample_project sample_graph [0] = Some (Inr (inputs, primary))"
    "inputs = [(7, [([Normal ''A.sol''], ''A''), ([Normal ''B.sol''], ''B'')], 0)]"
    by (auto split: option.splits sum.splits)
  have h: "set [0] \<subseteq> {..<length (gr_edges sample_graph)}" "distinct [0 :: nat]"
    "distinct (map the_version (pj_available sample_project))" "pj_profiles sample_project \<noteq> []"
    by (simp_all add: sample_graph_def sample_project_def)
  have a: "nd_path (node sample_graph 0) = [Normal ''A.sol'']" by (simp add: sample_graph_def node_def)
  from compiler_inputs_sound [OF sample_graph_wf h] r a
  obtain k where "first_profile sample_project sample_graph 0 k"
    "primary [Normal ''A.sol''] = Some (fst (pj_profiles sample_project ! k))" by auto
  moreover from this(1) have "k < 1" by (simp add: first_profile_def profile_ok_def sample_project_def)
  ultimately show ?thesis using r by blast
qed

text \<open>
  C15: the settings profiles.  For every version the input files are divided among the profiles,
  each under the first profile whose settings satisfy its restrictions and those of everything it
  imports; and resolution fails only if a file has no such profile.
\<close>

theorem settings_resolution_sound:
  assumes "graph_wf g" and "pj_profiles pj \<noteq> []"
    and "\<forall>(v, nodes) \<in> set versions. set nodes \<subseteq> {..<length (gr_edges g)}"
  shows "case resolve_settings pj g versions of
     None \<Rightarrow> False
   | Some (Inl errs) \<Rightarrow> errs \<noteq> [] \<and> (\<exists>i \<in> set (concat (map snd versions)). \<forall>k. \<not> profile_ok pj g i k)
   | Some (Inr out) \<Rightarrow> list_all2 (\<lambda>(version, nodes) (version', table).
       version' = version \<and> distinct (map fst table) \<and> mset (concat (map snd table)) = mset nodes \<and>
       (\<forall>(k, is) \<in> set table. \<forall>i \<in> set is. first_profile pj g i k)) versions out"
  using resolve_settings_spec [OF assms]
  by (auto simp: profiles_of_def assignment_def no_profile_def split: option.splits sum.splits
      elim!: list_all2_mono)

theorem settings_resolution_sound_witness:
  "resolve_settings sample_project sample_graph [(7, [0, 1])] = Some (Inr [(7, [(0, [0, 1])])]) \<and>
   first_profile sample_project sample_graph 1 0"
proof -
  have e: "resolve_settings sample_project sample_graph [(7, [0, 1])] = Some (Inr [(7, [(0, [0, 1])])])"
    by code_simp
  have "\<forall>(v, nodes) \<in> set [(7 :: nat, [0, 1])]. set nodes \<subseteq> {..<length (gr_edges sample_graph)}"
    "pj_profiles sample_project \<noteq> []" by (simp_all add: sample_graph_def sample_project_def)
  from settings_resolution_sound [OF sample_graph_wf this(2,1)] e
  have "first_profile sample_project sample_graph 1 0" by simp
  with e show ?thesis by blast
qed

end
