(* ===== verification/Core_Utils.thy ===== *)
theory Core_Utils
  imports Rust_Path "HOL-Library.Sublist"
begin

text \<open>
  The path functions of \<open>crates/compilers/crates/core/src/utils/mod.rs\<close>: the lexical cleaning of
  import paths, the search for libraries, common ancestors.  The file system is the record \<open>fs\<close>:
  which paths exist (\<open>Path::exists\<close>, \<open>metadata\<close>), and \<open>dunce::simplified\<close>, which is the identity
  except on Windows.
\<close>

record fs =
  fs_exists :: "path \<Rightarrow> bool"
  fs_simplified :: "path \<Rightarrow> path"

section \<open>Cleaning\<close>

fun clean_step :: "path \<Rightarrow> component \<Rightarrow> path" where
  "clean_step new_path RootDir = new_path @ [RootDir]"
| "clean_step new_path (Normal s) = new_path @ [Normal s]"
| "clean_step new_path CurDir = new_path"
| "clean_step new_path ParentDir =
     (if new_path = [] then [ParentDir]
      else case last new_path of
             Normal _ \<Rightarrow> butlast new_path
           | _ \<Rightarrow> new_path @ [ParentDir])"

text \<open>\<open>iter().collect()\<close> into a \<open>PathBuf\<close> pushes the components one by one.\<close>

definition collect_path :: "component list \<Rightarrow> path" where
  "collect_path cs = foldl (\<lambda>p c. path_join p [c]) [] cs"

definition clean_solidity_path :: "path \<Rightarrow> path" where
  "clean_solidity_path original_path = collect_path (foldl clean_step [] original_path)"

text \<open>\<open>None\<close> is the I/O error of a path that does not exist.\<close>

definition normalize_solidity_import_path :: "fs \<Rightarrow> path \<Rightarrow> path \<Rightarrow> path option" where
  "normalize_solidity_import_path fs directory import_path =
     (let normalized = fs_simplified fs (clean_solidity_path (path_join directory import_path))
      in if fs_exists fs normalized then Some normalized else None)"

section \<open>Prefixes\<close>

definition strip_prefix :: "path \<Rightarrow> path \<Rightarrow> path" where
  "strip_prefix source root = (case path_strip_prefix source root of Some p \<Rightarrow> p | None \<Rightarrow> source)"

definition source_name :: "path \<Rightarrow> path \<Rightarrow> path" where
  "source_name source root = strip_prefix source root"

fun common_ancestor_loop :: "path \<Rightarrow> path \<Rightarrow> path \<times> bool \<Rightarrow> path \<times> bool" where
  "common_ancestor_loop (c1 # a) (c2 # b) (ret, found) =
     (if c1 = c2 then common_ancestor_loop a b (path_join ret [c1], True) else (ret, found))"
| "common_ancestor_loop _ _ st = st"

definition common_ancestor :: "path \<Rightarrow> path \<Rightarrow> path option" where
  "common_ancestor a b =
     (let (ret, found) = common_ancestor_loop a b ([], False) in if found then Some ret else None)"

fun common_ancestor_iter :: "path \<Rightarrow> path list \<Rightarrow> path option" where
  "common_ancestor_iter ret [] = Some ret"
| "common_ancestor_iter ret (p # ps) =
     (case common_ancestor ret p of None \<Rightarrow> None | Some ret' \<Rightarrow> common_ancestor_iter ret' ps)"

definition common_ancestor_all :: "path list \<Rightarrow> path option" where
  "common_ancestor_all ps = (case ps of [] \<Rightarrow> None | p # rest \<Rightarrow> common_ancestor_iter p rest)"

section \<open>Libraries\<close>

fun search_libs :: "fs \<Rightarrow> path \<Rightarrow> string \<Rightarrow> path list \<Rightarrow> path option" where
  "search_libs fs source first_dir [] = None"
| "search_libs fs source first_dir (lib # libs) =
     (let contract = path_join lib source
      in if fs_exists fs contract then Some contract
         else let contract' = path_join (path_join (path_join lib [Normal first_dir]) [Normal ''src'']) (tl source)
              in if fs_exists fs contract' then Some contract' else search_libs fs source first_dir libs)"

definition resolve_library :: "fs \<Rightarrow> path list \<Rightarrow> path \<Rightarrow> path option" where
  "resolve_library fs libs source =
     (case source of
        [] \<Rightarrow> None
      | Normal first_dir # _ \<Rightarrow> search_libs fs source first_dir libs
      | RootDir # _ \<Rightarrow> Some source
      | _ # _ \<Rightarrow> None)"

definition is_local_source_name :: "fs \<Rightarrow> path list \<Rightarrow> path \<Rightarrow> bool" where
  "is_local_source_name fs libs source \<longleftrightarrow> resolve_library fs libs source = None"

text \<open>The walk up from the parent of \<open>cwd\<close>; the parent of a path is shorter, so it ends.\<close>

function walk_up :: "fs \<Rightarrow> path \<Rightarrow> path \<Rightarrow> path \<Rightarrow> (path \<times> path) option" where
  "walk_up fs root import parent =
     (if parent = root then None
      else case normalize_solidity_import_path fs parent import of
             Some resolved \<Rightarrow> Some (parent, resolved)
           | None \<Rightarrow> (case path_parent parent of
                       None \<Rightarrow> None
                     | Some parent' \<Rightarrow> walk_up fs root import parent'))"
  by pat_completeness auto
termination
  by (relation "measure (\<lambda>(fs, root, import, parent). length parent)") (auto dest: parent_length)

declare walk_up.simps [simp del]

definition resolve_absolute_library :: "fs \<Rightarrow> path \<Rightarrow> path \<Rightarrow> path \<Rightarrow> (path \<times> path) option" where
  "resolve_absolute_library fs root cwd import =
     (case path_parent cwd of None \<Rightarrow> None | Some parent \<Rightarrow> walk_up fs root import parent)"

definition find_fave_or_alt_path :: "fs \<Rightarrow> path \<Rightarrow> string \<Rightarrow> string \<Rightarrow> path" where
  "find_fave_or_alt_path fs root fave alt =
     (let p = path_join root (components fave)
      in if \<not> fs_exists fs p then
           let alt' = path_join root (components alt) in if fs_exists fs alt' then alt' else p
         else p)"

section \<open>What a path denotes\<close>

text \<open>
  The directory a path leads to from the directory \<open>d\<close>, a list of names from the root, without
  symbolic links: \<open>..\<close> of the root is the root.
\<close>

fun locate_step :: "string list \<Rightarrow> component \<Rightarrow> string list" where
  "locate_step d RootDir = []"
| "locate_step d CurDir = d"
| "locate_step d ParentDir = butlast d"
| "locate_step d (Normal s) = d @ [s]"

definition locate :: "string list \<Rightarrow> path \<Rightarrow> string list" where
  "locate d p = foldl locate_step d p"

text \<open>The normal form: at most one root, then the parents, then names.\<close>

definition clean :: "path \<Rightarrow> bool" where
  "clean p \<longleftrightarrow> (\<exists>r n names. p = r @ replicate n ParentDir @ map Normal names \<and> (r = [] \<or> r = [RootDir]))"

lemma locate_append: "locate d (p @ q) = locate (locate d p) q"
  by (simp add: locate_def)

lemma clean_step_locate: "locate d (clean_step p c) = locate_step (locate d p) c"
proof (cases c)
  case ParentDir
  have "locate d (butlast p) = butlast (locate d p)" if "p \<noteq> []" "last p = Normal s" for s
  proof -
    have "locate d p = locate d (butlast p @ [last p])" by (simp only: append_butlast_last_id [OF that(1)])
    then show ?thesis using that by (simp add: locate_append) (simp add: locate_def)
  qed
  with ParentDir show ?thesis
    by (auto simp: locate_append split: component.split) (simp_all add: locate_def)
qed (simp_all add: locate_append, simp_all add: locate_def)

lemma clean_steps_locate: "locate d (foldl clean_step p q) = locate (locate d p) q"
  by (induction q arbitrary: p) (simp_all add: clean_step_locate, simp_all add: locate_def)

lemma clean_step_clean:
  assumes "clean p" and "c \<noteq> RootDir \<or> p = []" shows "clean (clean_step p c)"
proof -
  from assms(1) obtain r n names where p: "p = r @ replicate n ParentDir @ map Normal names"
    "r = [] \<or> r = [RootDir]" by (auto simp: clean_def)
  show ?thesis
  proof (cases c)
    case RootDir
    with assms(2) have "clean_step p c = [RootDir] @ replicate 0 ParentDir @ map Normal []" by simp
    then show ?thesis unfolding clean_def by blast
  next
    case CurDir
    with assms(1) show ?thesis by simp
  next
    case (Normal s)
    have "clean_step p c = r @ replicate n ParentDir @ map Normal (names @ [s])" using p Normal by simp
    with p(2) show ?thesis unfolding clean_def by blast
  next
    case ParentDir
    show ?thesis
    proof (cases "names = []")
      case True
      have "clean_step p c = r @ replicate (Suc n) ParentDir @ map Normal []"
        using p True ParentDir
        by (cases "n = 0") (auto simp: replicate_append_same last_append last_replicate)
      with p(2) show ?thesis unfolding clean_def by blast
    next
      case False
      have "last p = Normal (last names)" using False p by (simp add: last_map)
      moreover have "butlast p = r @ replicate n ParentDir @ map Normal (butlast names)"
        using False p by (simp add: butlast_append map_butlast)
      ultimately have "clean_step p c = r @ replicate n ParentDir @ map Normal (butlast names)"
        using ParentDir False p by auto
      with p(2) show ?thesis unfolding clean_def by blast
    qed
  qed
qed

lemma clean_steps_clean:
  "clean p \<Longrightarrow> RootDir \<notin> set q \<Longrightarrow> clean (foldl clean_step p q)"
proof (induction q arbitrary: p)
  case (Cons c q)
  then have "clean (clean_step p c)" by (intro clean_step_clean) auto
  with Cons show ?case by simp
qed simp

lemma clean_Nil: "clean []"
  unfolding clean_def by (intro exI [of _ "[]"] exI [of _ 0]) simp

lemma foldl_clean:
  assumes "path_wf p" shows "clean (foldl clean_step [] p)"
proof (cases p)
  case (Cons c cs)
  then have "RootDir \<notin> set cs" using assms by (auto simp: path_wf_def list_all_iff)
  moreover have "clean (clean_step [] c)" by (rule clean_step_clean) (simp_all add: clean_Nil)
  ultimately show ?thesis using Cons by (simp add: clean_steps_clean)
qed (simp add: clean_Nil)

lemma collect_clean:
  assumes "clean p" shows "collect_path p = p"
proof -
  have join: "path_join acc [c] = acc @ [c]" if "c \<noteq> RootDir" "c \<noteq> CurDir" for acc c
    using that by (cases c) (simp_all add: path_join_def has_root_def)
  have body: "foldl (\<lambda>p c. path_join p [c]) acc cs = acc @ cs" if "\<forall>c \<in> set cs. c \<noteq> RootDir \<and> c \<noteq> CurDir" for acc cs
    using that by (induction cs arbitrary: acc) (simp_all add: join)
  from assms obtain r n names where p: "p = r @ replicate n ParentDir @ map Normal names"
    "r = [] \<or> r = [RootDir]" by (auto simp: clean_def)
  have "\<forall>c \<in> set (replicate n ParentDir @ map Normal names). c \<noteq> RootDir \<and> c \<noteq> CurDir" by auto
  note b = body [OF this, of "[]"] body [OF this, of "[RootDir]"]
  from p(2) show ?thesis
  proof
    assume "r = []"
    with p(1) b(1) show ?thesis by (simp add: collect_path_def)
  next
    assume "r = [RootDir]"
    moreover have "path_join [] [RootDir] = [RootDir]" by (simp add: path_join_def has_root_def)
    ultimately show ?thesis using p(1) b(2) by (simp add: collect_path_def del: foldl_append)
  qed
qed

lemma clean_path_spec:
  assumes "path_wf p"
  shows "clean (clean_solidity_path p)" and "locate d (clean_solidity_path p) = locate d p"
proof -
  note c = foldl_clean [OF assms]
  then have e: "clean_solidity_path p = foldl clean_step [] p"
    by (simp add: clean_solidity_path_def collect_clean)
  show "clean (clean_solidity_path p)" using c by (simp add: e)
  show "locate d (clean_solidity_path p) = locate d p"
    unfolding e clean_steps_locate by (simp add: locate_def)
qed

section \<open>Common ancestors\<close>

lemma join_component: "path_wf (acc @ c # cs) \<Longrightarrow> path_join acc [c] = acc @ [c]"
  by (cases acc; cases c) (auto simp: path_join_def has_root_def path_wf_def)

lemma longest_common_prefix_greatest:
  "prefix q a \<and> prefix q b \<longleftrightarrow> prefix q (longest_common_prefix a b)"
  by (metis longest_common_prefix_max_prefix longest_common_prefix_prefix1
      longest_common_prefix_prefix2 prefix_order.trans)

lemma common_ancestor_loop_eq:
  "path_wf (ret @ a) \<Longrightarrow> common_ancestor_loop a b (ret, found) =
     (ret @ longest_common_prefix a b, found \<or> longest_common_prefix a b \<noteq> [])"
proof (induction a b "(ret, found)" arbitrary: ret found rule: common_ancestor_loop.induct)
  case (1 c1 a c2 b ret found)
  then show ?case
    using join_component [of ret c1 a] by auto
qed simp_all

lemma common_ancestor_eq:
  "path_wf a \<Longrightarrow> common_ancestor a b =
     (if longest_common_prefix a b = [] then None else Some (longest_common_prefix a b))"
  by (simp add: common_ancestor_def common_ancestor_loop_eq Let_def)

lemma path_wf_prefix: "path_wf p \<Longrightarrow> prefix q p \<Longrightarrow> path_wf q"
  by (auto simp: path_wf_def prefix_def split: list.splits)

lemma common_ancestor_iter_spec:
  assumes "path_wf ret"
  shows "case common_ancestor_iter ret ps of
     Some r \<Rightarrow> \<forall>q. prefix q r \<longleftrightarrow> prefix q ret \<and> (\<forall>p \<in> set ps. prefix q p)
   | None \<Rightarrow> \<forall>q. prefix q ret \<and> (\<forall>p \<in> set ps. prefix q p) \<longrightarrow> q = []"
  using assms
proof (induction ret ps rule: common_ancestor_iter.induct)
  case (2 ret p ps)
  let ?l = "longest_common_prefix ret p"
  note g = longest_common_prefix_greatest [of _ ret p]
  show ?case
  proof (cases "?l = []")
    case True
    have "q = []" if "prefix q ret" "prefix q p" for q using g [of q] that True by simp
    with True 2(2) show ?thesis by (auto simp: common_ancestor_eq)
  next
    case False
    have wf: "path_wf ?l" using path_wf_prefix [OF 2(2) longest_common_prefix_prefix1] .
    have e: "common_ancestor ret p = Some ?l" using False 2(2) by (simp add: common_ancestor_eq)
    from 2(1) [OF e wf] g show ?thesis
      by (cases "common_ancestor_iter ?l ps") (auto simp: e)
  qed
qed simp

section \<open>Searching upwards\<close>

lemma walk_up_spec:
  "walk_up fs root import parent = Some (dir, resolved) \<Longrightarrow>
     prefix dir parent \<and> dir \<noteq> root \<and> normalize_solidity_import_path fs dir import = Some resolved"
proof (induction fs root import parent rule: walk_up.induct)
  case (1 fs root import parent)
  show ?case
  proof (cases "normalize_solidity_import_path fs parent import")
    case None
    with 1(2) obtain parent' where p: "parent \<noteq> root" "path_parent parent = Some parent'"
      "walk_up fs root import parent' = Some (dir, resolved)"
      by (subst (asm) walk_up.simps) (auto split: if_splits option.splits)
    from 1(1) [OF p(1) None p(2,3)] have "prefix dir parent'"
      "dir \<noteq> root" "normalize_solidity_import_path fs dir import = Some resolved" by simp_all
    moreover have "prefix parent' parent" using parent_append [OF p(2)] by (metis prefixI)
    ultimately show ?thesis by (meson prefix_order.trans)
  next
    case (Some r)
    with 1(2) show ?thesis by (subst (asm) walk_up.simps) (auto split: if_splits)
  qed
qed

section \<open>Properties\<close>

text \<open>
  C24: cleaning an import path keeps what it denotes, from every directory, and yields the normal
  form: at most a root, then \<open>..\<close> components, then names; so it is idempotent.
\<close>

theorem clean_path_denotes:
  assumes "path_wf p"
  shows "locate d (clean_solidity_path p) = locate d p \<and>
     clean_solidity_path (clean_solidity_path p) = clean_solidity_path p \<and>
     (\<exists>r n names. clean_solidity_path p = r @ replicate n ParentDir @ map Normal names \<and> (r = [] \<or> r = [RootDir]))"
proof -
  note c = clean_path_spec [OF assms]
  have idem: "foldl clean_step [] q = q" if "clean q" for q
  proof -
    from that obtain r n names where q: "q = r @ replicate n ParentDir @ map Normal names"
      "r = [] \<or> r = [RootDir]" by (auto simp: clean_def)
    have r: "foldl clean_step [] r = r" using q(2) by auto
    have p: "foldl clean_step r (replicate n ParentDir) = r @ replicate n ParentDir"
      using q(2) by (induction n) (auto simp: replicate_append_same [symmetric] last_append)
    have n: "foldl clean_step acc (map Normal names) = acc @ map Normal names" for acc
      by (induction names arbitrary: acc) simp_all
    show ?thesis by (simp add: q(1) r p n)
  qed
  have "clean_solidity_path (clean_solidity_path p) = clean_solidity_path p"
    using c(1) idem collect_clean by (simp add: clean_solidity_path_def)
  with c show ?thesis by (simp add: clean_def)
qed

theorem clean_path_denotes_witness:
  "clean_solidity_path [Normal ''a'', ParentDir, Normal ''b'', ParentDir, ParentDir, Normal ''c''] = [ParentDir, Normal ''c''] \<and>
   locate [''x'', ''y''] [ParentDir, Normal ''c''] = [''x'', ''c'']"
proof -
  have "path_wf [Normal ''a'', ParentDir, Normal ''b'', ParentDir, ParentDir, Normal ''c'']"
    by (simp add: path_wf_def name_ok_def)
  from clean_path_denotes [OF this, of "[''x'', ''y'']"]
  show ?thesis by (simp add: clean_solidity_path_def collect_path_def path_join_def has_root_def locate_def)
qed

text \<open>
  C33: the common ancestor of a list of paths is the greatest common prefix of their components,
  and there is none only if no nonempty prefix is common.
\<close>

theorem common_ancestor_greatest:
  assumes "list_all path_wf ps" and "ps \<noteq> []"
  shows "case common_ancestor_all ps of
     Some r \<Rightarrow> (\<forall>q. prefix q r \<longleftrightarrow> (\<forall>p \<in> set ps. prefix q p))
   | None \<Rightarrow> (\<forall>q. (\<forall>p \<in> set ps. prefix q p) \<longrightarrow> q = [])"
  using assms common_ancestor_iter_spec [of "hd ps" "tl ps"]
  by (cases ps) (auto simp: common_ancestor_all_def split: option.splits)

theorem common_ancestor_greatest_witness:
  "common_ancestor_all [[RootDir, Normal ''foo'', Normal ''bar''], [RootDir, Normal ''foo'', Normal ''baz'']] =
     Some [RootDir, Normal ''foo''] \<and>
   prefix [RootDir, Normal ''foo''] [RootDir, Normal ''foo'', Normal ''baz'']"
proof -
  let ?ps = "[[RootDir, Normal ''foo'', Normal ''bar''], [RootDir, Normal ''foo'', Normal ''baz'']]"
  have e: "common_ancestor_all ?ps = Some [RootDir, Normal ''foo'']"
    by (simp add: common_ancestor_all_def common_ancestor_def path_join_def has_root_def)
  have "list_all path_wf ?ps" by (simp add: path_wf_def name_ok_def)
  from common_ancestor_greatest [OF this] e
  have "\<forall>q. prefix q [RootDir, Normal ''foo''] \<longleftrightarrow> (\<forall>p \<in> set ?ps. prefix q p)" by simp
  from spec [OF this, of "[RootDir, Normal ''foo'']"] e show ?thesis by simp
qed

end
