(* ===== verification/Remappings.thy ===== *)
theory Remappings
  imports Core_Utils
begin

text \<open>
  Remappings, \<open>crates/compilers/crates/artifacts/solc/src/remappings/mod.rs\<close>: the text form
  \<open>context:name=path\<close> and \<open>RelativeRemappingPathBuf\<close>.  A character is a code point below 256.
\<close>

section \<open>Text\<close>

definition blank :: "string \<Rightarrow> bool" where
  "blank s \<longleftrightarrow> list_all is_whitespace s"

definition ends_with :: "string \<Rightarrow> string \<Rightarrow> bool" where
  "ends_with s t \<longleftrightarrow> suffix t s"

section \<open>\<open>Remapping\<close>\<close>

record Remapping =
  rm_context :: "string option"
  rm_name :: string
  rm_path :: string

datatype RemappingError = InvalidRemapping string | EmptyRemappingKey string | EmptyRemappingValue string

definition remapping_from_str :: "string \<Rightarrow> (RemappingError, Remapping) result" where
  "remapping_from_str remapping =
     (case split_once CHR ''='' remapping of
        None \<Rightarrow> Inl (InvalidRemapping remapping)
      | Some (name, path) \<Rightarrow>
          let (context, name) = (case split_once CHR '':'' name of
                None \<Rightarrow> (None, name) | Some (context, name) \<Rightarrow> (Some context, name))
          in if blank name then Inl (EmptyRemappingKey remapping)
             else if blank path then Inl (EmptyRemappingValue remapping)
             else let context = (case context of None \<Rightarrow> None | Some c \<Rightarrow> if blank c then None else Some c)
                  in Inr \<lparr>rm_context = context, rm_name = name, rm_path = path\<rparr>)"

definition needs_trailing_slash :: "string \<Rightarrow> bool" where
  "needs_trailing_slash s \<longleftrightarrow> \<not> ends_with s ''/'' \<and> \<not> ends_with s ''.sol''"

definition remapping_display :: "Remapping \<Rightarrow> string" where
  "remapping_display r =
     (let s = (case rm_context r of None \<Rightarrow> '''' | Some context \<Rightarrow> context @ '':'');
          name = (if needs_trailing_slash (rm_name r) then rm_name r @ ''/'' else rm_name r);
          s = s @ name @ ''='' @ rm_path r
      in if needs_trailing_slash s then s @ ''/'' else s)"

section \<open>\<open>RelativeRemappingPathBuf\<close>\<close>

record RelativeRemappingPathBuf =
  rr_parent :: "path option"
  rr_path :: path

definition with_root :: "path \<Rightarrow> path \<Rightarrow> RelativeRemappingPathBuf" where
  "with_root parent p =
     (case path_strip_prefix p parent of
        Some stripped \<Rightarrow> \<lparr>rr_parent = Some parent, rr_path = stripped\<rparr>
      | None \<Rightarrow>
          if has_root p then \<lparr>rr_parent = None, rr_path = p\<rparr>
          else \<lparr>rr_parent = Some parent, rr_path = p\<rparr>)"

definition original :: "RelativeRemappingPathBuf \<Rightarrow> path" where
  "original r = rr_path r"

definition relative :: "RelativeRemappingPathBuf \<Rightarrow> path" where
  "relative r =
     (if has_root (original r) then original r
      else case rr_parent r of Some p \<Rightarrow> path_join p (original r) | None \<Rightarrow> original r)"

section \<open>Facts\<close>

text \<open>What \<open>from_str\<close> yields, and with which text it can be printed and read again.\<close>

definition readable :: "Remapping \<Rightarrow> bool" where
  "readable r \<longleftrightarrow> \<not> blank (rm_name r) \<and> \<not> blank (rm_path r) \<and> CHR ''='' \<notin> set (rm_name r) \<and>
     (case rm_context r of
        None \<Rightarrow> CHR '':'' \<notin> set (rm_name r)
      | Some c \<Rightarrow> \<not> blank c \<and> CHR '':'' \<notin> set c \<and> CHR ''='' \<notin> set c)"

definition slashed :: "string \<Rightarrow> string" where
  "slashed s = (if needs_trailing_slash s then s @ ''/'' else s)"

lemma slashed_idem [simp]: "slashed (slashed s) = slashed s"
  by (simp add: slashed_def needs_trailing_slash_def ends_with_def)

lemma slashed_not_blank: "\<not> blank s \<Longrightarrow> \<not> blank (slashed s)"
  by (simp add: slashed_def blank_def)

lemma slashed_chars: "c \<noteq> CHR ''/'' \<Longrightarrow> c \<in> set (slashed s) \<longleftrightarrow> c \<in> set s"
  by (simp add: slashed_def)

lemma suffix_after: "CHR ''='' \<notin> set u \<Longrightarrow> suffix u (t @ CHR ''='' # s) \<longleftrightarrow> suffix u s"
  by (auto simp: suffix_append suffix_Cons)

lemma needs_slash_append: "needs_trailing_slash (t @ CHR ''='' # s) = needs_trailing_slash s"
  by (simp add: needs_trailing_slash_def ends_with_def suffix_after)

lemma slashed_append: "slashed (t @ CHR ''='' # s) = t @ CHR ''='' # slashed s"
  by (simp add: slashed_def needs_slash_append)

lemma display_eq:
  "remapping_display r =
     (case rm_context r of None \<Rightarrow> '''' | Some context \<Rightarrow> context @ '':'') @
     slashed (rm_name r) @ ''='' @ slashed (rm_path r)"
proof -
  have "remapping_display r = slashed ((case rm_context r of None \<Rightarrow> '''' | Some context \<Rightarrow> context @ '':'') @
      slashed (rm_name r) @ ''='' @ rm_path r)"
    by (simp add: remapping_display_def slashed_def Let_def)
  also have "\<dots> = (case rm_context r of None \<Rightarrow> '''' | Some context \<Rightarrow> context @ '':'') @
     slashed (rm_name r) @ ''='' @ slashed (rm_path r)"
    using slashed_append [of "(case rm_context r of None \<Rightarrow> '''' | Some context \<Rightarrow> context @ '':'') @
      slashed (rm_name r)"] by simp
  finally show ?thesis .
qed

lemma from_str_readable:
  "remapping_from_str s = Inr r \<Longrightarrow>
   CHR '':'' \<notin> set (rm_name r) \<or> rm_context r \<noteq> None \<Longrightarrow> readable r"
  by (auto simp: remapping_from_str_def readable_def Let_def split_once_Some split_once_None
      split: option.splits if_splits prod.splits)

lemma display_from_str:
  assumes "readable r"
  shows "remapping_from_str (remapping_display r) =
     Inr (r\<lparr>rm_name := slashed (rm_name r), rm_path := slashed (rm_path r)\<rparr>)"
proof -
  let ?c = "case rm_context r of None \<Rightarrow> '''' | Some context \<Rightarrow> context @ '':''"
  have np: "\<not> blank (rm_path r)" "\<not> blank (rm_name r)" using assms by (simp_all add: readable_def)
  have eq: "CHR ''='' \<notin> set (?c @ slashed (rm_name r))"
    using assms by (auto simp: readable_def slashed_chars split: option.splits)
  then have s1: "split_once CHR ''='' (remapping_display r) = Some (?c @ slashed (rm_name r), slashed (rm_path r))"
    unfolding split_once_Some display_eq by simp
  show ?thesis
  proof (cases "rm_context r")
    case None
    then have "split_once CHR '':'' (slashed (rm_name r)) = None"
      using assms by (simp add: readable_def split_once_None slashed_chars)
    with s1 None np show ?thesis by (simp add: remapping_from_str_def slashed_not_blank)
  next
    case (Some c)
    then have c: "CHR '':'' \<notin> set c" "\<not> blank c" using assms by (simp_all add: readable_def)
    then have "split_once CHR '':'' ((c @ '':'') @ slashed (rm_name r)) = Some (c, slashed (rm_name r))"
      unfolding split_once_Some by simp
    with s1 Some np c show ?thesis by (simp add: remapping_from_str_def slashed_not_blank)
  qed
qed

section \<open>Properties\<close>



text \<open>
  \<open>RelativeRemappingPathBuf\<close> does not lose where a path points: a path put under a root is
  given back unchanged if it lies under the root or is absolute, and joined to the root if not;
  and what lies under the root is stored without it.
\<close>

theorem relative_remapping_path:
  assumes "path_wf p" and "parent \<noteq> []"
  shows "relative (with_root parent p) = (if prefix parent p \<or> has_root p then p else path_join parent p) \<and>
     (prefix parent p \<longrightarrow> parent @ original (with_root parent p) = p)"
proof (cases "path_strip_prefix p parent")
  case None
  then have "\<not> prefix parent p" by (metis not_None_eq prefixE strip_prefix_iff)
  with None show ?thesis by (simp add: with_root_def relative_def original_def)
next
  case (Some q)
  then have p: "p = parent @ q" by (simp add: strip_prefix_iff)
  have "list_all body_component q"
    using assms by (cases parent) (auto simp: p path_wf_def)
  then have "\<not> has_root q \<and> path_join parent q = parent @ q"
    using assms(2) by (cases q) (auto simp: join_relative has_root_def split: component.splits)
  with Some p show ?thesis by (auto simp: with_root_def relative_def original_def)
qed

theorem relative_remapping_path_witness:
  "relative (with_root [Normal ''x''] [Normal ''a'', Normal ''b'']) = [Normal ''x'', Normal ''a'', Normal ''b''] \<and>
   original (with_root [Normal ''a''] [Normal ''a'', Normal ''b'']) = [Normal ''b'']"
proof -
  have "path_wf [Normal ''a'', Normal ''b'']" by (simp add: path_wf_def name_ok_def)
  note r = relative_remapping_path [OF this]
  from r [of "[Normal ''x'']"] r [of "[Normal ''a'']"] show ?thesis
    by (simp add: path_join_def has_root_def)
qed

text \<open>A name with a colon and an empty context is read as global, and printed as one with a context.\<close>

lemma global_name_with_colon:
  "remapping_from_str '':a:b=c'' = Inr \<lparr>rm_context = None, rm_name = ''a:b'', rm_path = ''c''\<rparr> \<and>
   remapping_from_str (remapping_display \<lparr>rm_context = None, rm_name = ''a:b'', rm_path = ''c''\<rparr>) =
     Inr \<lparr>rm_context = Some ''a'', rm_name = ''b/'', rm_path = ''c/''\<rparr>"
  by code_simp

end
