(* ===== verification/Import_Resolution.thy ===== *)
theory Import_Resolution
  imports Remappings
begin

text \<open>
  Import resolution, \<open>ProjectPathsConfig\<close> in \<open>crates/compilers/crates/compilers/src/config.rs\<close>:
  relative imports, remappings, libraries, and absolute imports searched for upwards.  Existence
  of files is the parameter \<open>fs\<close>.  The locale \<open>import_resolver\<close> is what the graph builder relies
  on; it is interpreted here.
\<close>

section \<open>The interface\<close>

text \<open>A resolver of imports that may record include paths as it goes.\<close>

locale import_resolver =
  fixes resolve :: "'dir \<Rightarrow> 'import \<Rightarrow> 'p set \<Rightarrow> ('e, 'p) result \<times> 'p set"
  assumes same_result: "fst (resolve dir imp A) = fst (resolve dir imp B)"
    and includes_grow: "A \<subseteq> snd (resolve dir imp A)"
begin

definition target :: "'dir \<Rightarrow> 'import \<Rightarrow> ('e, 'p) result" where
  "target dir imp = fst (resolve dir imp {})"

lemma target_eq: "fst (resolve dir imp A) = target dir imp"
  unfolding target_def by (rule same_result)

definition all_includes :: "('dir \<times> 'import) list \<Rightarrow> 'p set \<Rightarrow> 'p set" where
  "all_includes is A = fold (\<lambda>(dir, imp) A. snd (resolve dir imp A)) is A"

lemma includes_mono: "A \<subseteq> all_includes is A"
proof (induction "is" arbitrary: A)
  case (Cons i "is")
  obtain dir imp where "i = (dir, imp)" by (cases i)
  with Cons [of "snd (resolve dir imp A)"] includes_grow [of A dir imp] show ?case
    by (auto simp: all_includes_def)
qed (simp add: all_includes_def)

end

section \<open>\<open>ProjectPathsConfig\<close>\<close>

record ProjectPathsConfig =
  pc_root :: path
  pc_cache :: path
  pc_artifacts :: path
  pc_build_infos :: path
  pc_sources :: path
  pc_tests :: path
  pc_scripts :: path
  pc_libraries :: "path list"
  pc_remappings :: "Remapping list"
  pc_include_paths :: "path set"
  pc_allowed_paths :: "path set"

definition starts_with :: "path \<Rightarrow> path \<Rightarrow> bool" where
  "starts_with p q \<longleftrightarrow> path_strip_prefix p q \<noteq> None"

definition is_library_of :: "ProjectPathsConfig \<Rightarrow> path \<Rightarrow> path \<Rightarrow> bool" where
  "is_library_of cfg p lib \<longleftrightarrow>
     \<not> has_root lib \<and> has_root p \<and> starts_with p (pc_root cfg) \<and> starts_with p (path_join (pc_root cfg) lib) \<or>
     \<not> has_root p \<and> has_root lib \<and> starts_with lib (pc_root cfg) \<and> starts_with (path_join (pc_root cfg) p) lib \<or>
     starts_with p lib"

definition find_library_ancestor :: "ProjectPathsConfig \<Rightarrow> path \<Rightarrow> path option" where
  "find_library_ancestor cfg p = find (is_library_of cfg p) (pc_libraries cfg)"

definition has_library_ancestor :: "ProjectPathsConfig \<Rightarrow> path \<Rightarrow> bool" where
  "has_library_ancestor cfg p \<longleftrightarrow> find_library_ancestor cfg p \<noteq> None"

text \<open>A remapping applies everywhere or below its context.\<close>

definition in_context :: "path \<Rightarrow> Remapping \<Rightarrow> bool" where
  "in_context cwd r \<longleftrightarrow> (case rm_context r of None \<Rightarrow> True | Some ctx \<Rightarrow> starts_with cwd (components ctx))"

definition remap_import :: "fs \<Rightarrow> ProjectPathsConfig \<Rightarrow> path \<Rightarrow> Remapping \<Rightarrow> path option" where
  "remap_import fs cfg import r =
     (case path_strip_prefix import (components (rm_name r)) of
        None \<Rightarrow> None
      | Some stripped_import \<Rightarrow>
          let target = components (rm_path r);
              lib_path = (if stripped_import = [] \<and> ends_with (rm_path r) ''.sol'' then target
                          else path_join target stripped_import)
          in case path_strip_prefix stripped_import (components ''contracts/'') of
               Some adjusted_import \<Rightarrow>
                 if ends_with (rm_path r) ''contracts/'' \<and> \<not> fs_exists fs (path_join (pc_root cfg) lib_path)
                 then Some (path_join target adjusted_import) else Some lib_path
             | None \<Rightarrow> Some lib_path)"

fun find_remapping :: "fs \<Rightarrow> ProjectPathsConfig \<Rightarrow> path \<Rightarrow> path \<Rightarrow> Remapping list \<Rightarrow> path option" where
  "find_remapping fs cfg cwd import [] = None"
| "find_remapping fs cfg cwd import (r # rs) =
     (case (if in_context cwd r then remap_import fs cfg import r else None) of
        Some p \<Rightarrow> Some p
      | None \<Rightarrow> find_remapping fs cfg cwd import rs)"

definition resolve_library_import :: "fs \<Rightarrow> ProjectPathsConfig \<Rightarrow> path \<Rightarrow> path \<Rightarrow> path option" where
  "resolve_library_import fs cfg cwd import =
     (case find_remapping fs cfg (strip_prefix cwd (pc_root cfg)) import (pc_remappings cfg) of
        Some p \<Rightarrow> Some (path_join (pc_root cfg) p)
      | None \<Rightarrow> resolve_library fs (pc_libraries cfg) import)"

fun first_remapped :: "fs \<Rightarrow> path \<Rightarrow> path \<Rightarrow> path \<Rightarrow> Remapping list \<Rightarrow> path option" where
  "first_remapped fs root cwd_relative relative_path [] = None"
| "first_remapped fs root cwd_relative relative_path (r # rs) =
     (if \<not> in_context cwd_relative r then first_remapped fs root cwd_relative relative_path rs
      else case path_strip_prefix relative_path (components (rm_name r)) of
             None \<Rightarrow> first_remapped fs root cwd_relative relative_path rs
           | Some stripped \<Rightarrow>
               let remapped = path_join root (path_join (components (rm_path r)) stripped)
               in if fs_exists fs remapped then Some remapped
                  else first_remapped fs root cwd_relative relative_path rs)"

definition apply_remapping_to_path :: "fs \<Rightarrow> ProjectPathsConfig \<Rightarrow> path \<Rightarrow> path \<Rightarrow> path" where
  "apply_remapping_to_path fs cfg cwd resolved_path =
     (case path_strip_prefix resolved_path (pc_root cfg) of
        None \<Rightarrow> resolved_path
      | Some relative_path \<Rightarrow>
          (case first_remapped fs (pc_root cfg) (strip_prefix cwd (pc_root cfg)) relative_path (pc_remappings cfg) of
             Some p \<Rightarrow> p | None \<Rightarrow> resolved_path))"

datatype import_error = EmptyImport | RelativeImport path | LibraryImport path

fun project_import :: "fs \<Rightarrow> path \<Rightarrow> path \<Rightarrow> path list \<Rightarrow> path option" where
  "project_import fs cwd import [] = None"
| "project_import fs cwd import (p # ps) =
     (case (if starts_with cwd p then normalize_solidity_import_path fs p import else None) of
        Some resolved \<Rightarrow> Some resolved
      | None \<Rightarrow> project_import fs cwd import ps)"

definition resolve_import_and_include_paths :: "fs \<Rightarrow> ProjectPathsConfig \<Rightarrow> path \<Rightarrow> path \<Rightarrow> path set
    \<Rightarrow> (import_error, path) result \<times> path set" where
  "resolve_import_and_include_paths fs cfg cwd import include_paths =
     (case import of
        [] \<Rightarrow> (Inl EmptyImport, include_paths)
      | component # _ \<Rightarrow>
          if component = CurDir \<or> component = ParentDir then
            (case normalize_solidity_import_path fs cwd import of
               None \<Rightarrow> (Inl (RelativeImport (path_join cwd import)), include_paths)
             | Some resolved \<Rightarrow> (Inr (apply_remapping_to_path fs cfg cwd resolved), include_paths))
          else
            (case resolve_library_import fs cfg cwd import of
               Some p \<Rightarrow> (Inr p, include_paths)
             | None \<Rightarrow>
                 (case (case find_library_ancestor cfg cwd of
                          None \<Rightarrow> None | Some lib \<Rightarrow> resolve_absolute_library fs lib cwd import) of
                    Some (include_path, p) \<Rightarrow> (Inr p, insert include_path include_paths)
                  | None \<Rightarrow>
                      (case project_import fs cwd import [pc_root cfg, pc_sources cfg, pc_tests cfg, pc_scripts cfg] of
                         Some p \<Rightarrow> (Inr p, include_paths)
                       | None \<Rightarrow> (Inl (LibraryImport import), include_paths)))))"

definition resolve_import :: "fs \<Rightarrow> ProjectPathsConfig \<Rightarrow> path \<Rightarrow> path \<Rightarrow> (import_error, path) result" where
  "resolve_import fs cfg cwd import = fst (resolve_import_and_include_paths fs cfg cwd import {})"

text \<open>The libraries to link, each file resolved from the root or left as it is.\<close>

definition apply_lib_remappings :: "fs \<Rightarrow> ProjectPathsConfig \<Rightarrow> (path \<times> 'l) list \<Rightarrow> (path, 'l) btree" where
  "apply_lib_remappings fs cfg libs =
     bt_of_list (map (\<lambda>(p, target).
       (case resolve_import fs cfg (pc_root cfg) p of Inr p' \<Rightarrow> p' | Inl _ \<Rightarrow> p, target)) libs)"

interpretation config: import_resolver "resolve_import_and_include_paths fs cfg" for fs cfg
  by unfold_locales
    (auto simp: resolve_import_and_include_paths_def split: list.splits component.splits option.splits)

section \<open>Facts\<close>

lemma starts_with_iff: "starts_with p q \<longleftrightarrow> prefix q p"
proof -
  have "starts_with p q \<longleftrightarrow> (\<exists>r. path_strip_prefix p q = Some r)" unfolding starts_with_def by (rule not_None_eq)
  then show ?thesis unfolding strip_prefix_iff prefix_def .
qed

lemma normalize_exists: "normalize_solidity_import_path fs d i = Some p \<Longrightarrow> fs_exists fs p"
  by (auto simp: normalize_solidity_import_path_def Let_def split: if_splits)

lemma first_remapped_exists: "first_remapped fs root cwd rel rs = Some p \<Longrightarrow> fs_exists fs p"
proof (induction rs)
  case (Cons r rs)
  then show ?case
    by (cases "path_strip_prefix rel (components (rm_name r))") (simp_all add: Let_def split: if_splits)
qed simp

lemma apply_remapping_exists: "fs_exists fs p \<Longrightarrow> fs_exists fs (apply_remapping_to_path fs cfg cwd p)"
  by (auto simp: apply_remapping_to_path_def first_remapped_exists split: option.splits)

lemma project_import_exists: "project_import fs cwd import ps = Some p \<Longrightarrow> fs_exists fs p"
proof (induction ps)
  case (Cons q ps)
  show ?case
  proof (cases "if starts_with cwd q then normalize_solidity_import_path fs q import else None")
    case None
    with Cons show ?thesis by (simp only: project_import.simps option.case)
  next
    case (Some r)
    with Cons.prems have "r = p" by simp
    with Some show ?thesis by (simp add: normalize_exists split: if_splits)
  qed
qed simp

lemma absolute_library_spec:
  assumes "resolve_absolute_library fs root cwd import = Some (d, p)"
  shows "strict_prefix d cwd \<and> d \<noteq> root \<and> normalize_solidity_import_path fs d import = Some p"
proof -
  from assms obtain parent where p: "path_parent cwd = Some parent" "walk_up fs root import parent = Some (d, p)"
    by (auto simp: resolve_absolute_library_def split: option.splits)
  have "strict_prefix parent cwd" using parent_append [OF p(1)] by (metis strict_prefixI')
  with walk_up_spec [OF p(2)] show ?thesis by (meson prefix_order.le_less_trans)
qed

lemma remap_import_applies: "remap_import fs cfg import r = None \<longleftrightarrow> \<not> prefix (components (rm_name r)) import"
  unfolding starts_with_iff [symmetric] starts_with_def
  by (simp add: remap_import_def Let_def split: option.split)

lemma find_remapping_spec:
  "case find_remapping fs cfg cwd import rs of
     None \<Rightarrow> \<forall>r \<in> set rs. \<not> (in_context cwd r \<and> prefix (components (rm_name r)) import)
   | Some p \<Rightarrow> \<exists>pre r post. rs = pre @ r # post \<and> in_context cwd r \<and> remap_import fs cfg import r = Some p \<and>
       (\<forall>r \<in> set pre. \<not> (in_context cwd r \<and> prefix (components (rm_name r)) import))"
proof (induction rs)
  case (Cons r rs)
  show ?case
  proof (cases "in_context cwd r \<and> prefix (components (rm_name r)) import")
    case True
    then obtain p where p: "remap_import fs cfg import r = Some p"
      using remap_import_applies [of fs cfg import r] by auto
    have "\<exists>pre r' post. r # rs = pre @ r' # post \<and> in_context cwd r' \<and> remap_import fs cfg import r' = Some p \<and>
       (\<forall>r \<in> set pre. \<not> (in_context cwd r \<and> prefix (components (rm_name r)) import))"
      using True p by (intro exI [of _ "[]"]) auto
    with True p show ?thesis by simp
  next
    case False
    then have e: "find_remapping fs cfg cwd import (r # rs) = find_remapping fs cfg cwd import rs"
      using remap_import_applies [of fs cfg import r] by (cases "in_context cwd r") simp_all
    show ?thesis
    proof (cases "find_remapping fs cfg cwd import rs")
      case None
      with Cons e False show ?thesis by simp
    next
      case (Some p)
      with Cons obtain pre r' post where "rs = pre @ r' # post" "in_context cwd r'"
        "remap_import fs cfg import r' = Some p"
        "\<forall>r \<in> set pre. \<not> (in_context cwd r \<and> prefix (components (rm_name r)) import)" by auto
      with False have "\<exists>pre r' post. r # rs = pre @ r' # post \<and> in_context cwd r' \<and> remap_import fs cfg import r' = Some p \<and>
         (\<forall>r \<in> set pre. \<not> (in_context cwd r \<and> prefix (components (rm_name r)) import))"
        by (intro exI [of _ "r # pre"]) auto
      with Some e show ?thesis by simp
    qed
  qed
qed simp

section \<open>Properties\<close>


text \<open>
  C23: remapped imports.  The first remapping that applies in the importing directory and whose
  name starts the import decides, whether or not its target exists; only the doubled
  \<open>contracts\<close> directory is dropped, when the target with both does not exist.  Without such a
  remapping the libraries are searched.
\<close>

theorem first_remapping_decides:
  "(\<exists>pre r post rest. pc_remappings cfg = pre @ r # post \<and>
      (\<forall>r' \<in> set pre. \<not> (in_context (strip_prefix cwd (pc_root cfg)) r' \<and> prefix (components (rm_name r')) import)) \<and>
      in_context (strip_prefix cwd (pc_root cfg)) r \<and> import = components (rm_name r) @ rest \<and>
      (let target = components (rm_path r);
           joined = (if rest = [] \<and> ends_with (rm_path r) ''.sol'' then target else path_join target rest)
       in resolve_library_import fs cfg cwd import = Some (path_join (pc_root cfg) joined) \<or>
          rest = Normal ''contracts'' # tl rest \<and> ends_with (rm_path r) ''contracts/'' \<and>
          \<not> fs_exists fs (path_join (pc_root cfg) joined) \<and>
          resolve_library_import fs cfg cwd import = Some (path_join (pc_root cfg) (path_join target (tl rest))))) \<or>
   (\<forall>r \<in> set (pc_remappings cfg).
      in_context (strip_prefix cwd (pc_root cfg)) r \<longrightarrow> \<not> prefix (components (rm_name r)) import) \<and>
   resolve_library_import fs cfg cwd import = resolve_library fs (pc_libraries cfg) import"
proof (cases "find_remapping fs cfg (strip_prefix cwd (pc_root cfg)) import (pc_remappings cfg)")
  case None
  with find_remapping_spec [where fs = fs and cfg = cfg and cwd = "strip_prefix cwd (pc_root cfg)" and import = import and rs = "pc_remappings cfg"]
  show ?thesis by (auto simp: resolve_library_import_def)
next
  case (Some p)
  with find_remapping_spec [where fs = fs and cfg = cfg and cwd = "strip_prefix cwd (pc_root cfg)" and import = import and rs = "pc_remappings cfg"]
  obtain pre r post where m: "pc_remappings cfg = pre @ r # post"
    "\<forall>r' \<in> set pre. \<not> (in_context (strip_prefix cwd (pc_root cfg)) r' \<and> prefix (components (rm_name r')) import)"
    "in_context (strip_prefix cwd (pc_root cfg)) r" "remap_import fs cfg import r = Some p" by auto
  from m(4) obtain rest where rest: "import = components (rm_name r) @ rest"
    using remap_import_applies [of fs cfg import r] by (auto elim: prefixE)
  have c: "components ''contracts/'' = [Normal ''contracts'']" by code_simp
  let ?target = "components (rm_path r)"
  let ?joined = "if rest = [] \<and> ends_with (rm_path r) ''.sol'' then ?target else path_join ?target rest"
  have p: "p = ?joined \<or> rest = Normal ''contracts'' # tl rest \<and> ends_with (rm_path r) ''contracts/'' \<and>
      \<not> fs_exists fs (path_join (pc_root cfg) ?joined) \<and> p = path_join ?target (tl rest)"
  proof (cases "path_strip_prefix rest [Normal ''contracts'']")
    case None
    with m(4) rest show ?thesis by (simp add: remap_import_def c Let_def)
  next
    case (Some adj)
    then have adj: "rest = Normal ''contracts'' # adj" by (simp add: strip_prefix_iff)
    with m(4) rest Some show ?thesis
      by (cases "fs_exists fs (path_join (pc_root cfg) ?joined)")
        (simp_all add: remap_import_def c Let_def split: if_splits)
  qed
  have "resolve_library_import fs cfg cwd import = Some (path_join (pc_root cfg) p)"
    using Some by (simp add: resolve_library_import_def)
  with p have "let target = ?target; joined = (if rest = [] \<and> ends_with (rm_path r) ''.sol'' then target else path_join target rest)
       in resolve_library_import fs cfg cwd import = Some (path_join (pc_root cfg) joined) \<or>
          rest = Normal ''contracts'' # tl rest \<and> ends_with (rm_path r) ''contracts/'' \<and>
          \<not> fs_exists fs (path_join (pc_root cfg) joined) \<and>
          resolve_library_import fs cfg cwd import = Some (path_join (pc_root cfg) (path_join target (tl rest)))"
    unfolding Let_def by blast
  with m(1,2,3) rest show ?thesis by blast
qed

definition sample_config :: ProjectPathsConfig where
  "sample_config = \<lparr>pc_root = [RootDir, Normal ''p''], pc_cache = [], pc_artifacts = [], pc_build_infos = [],
     pc_sources = [RootDir, Normal ''p'', Normal ''src''], pc_tests = [], pc_scripts = [], pc_libraries = [],
     pc_remappings = [\<lparr>rm_context = None, rm_name = ''ds-test/'', rm_path = ''lib/ds-test/src/''\<rparr>],
     pc_include_paths = {}, pc_allowed_paths = {}\<rparr>"

theorem first_remapping_decides_witness:
  "resolve_library_import \<lparr>fs_exists = (\<lambda>_. False), fs_simplified = id\<rparr> sample_config
     [RootDir, Normal ''p'', Normal ''src''] [Normal ''ds-test'', Normal ''test.sol''] =
   Some [RootDir, Normal ''p'', Normal ''lib'', Normal ''ds-test'', Normal ''src'', Normal ''test.sol'']"
  (is "resolve_library_import ?fs _ ?cwd ?import = _")
proof -
  let ?r = "\<lparr>rm_context = None, rm_name = ''ds-test/'', rm_path = ''lib/ds-test/src/''\<rparr>"
  have n: "components ''ds-test/'' = [Normal ''ds-test'']" by code_simp
  have p: "components ''lib/ds-test/src/'' = [Normal ''lib'', Normal ''ds-test'', Normal ''src'']" by code_simp
  have rs: "pc_remappings sample_config = [?r]" "pc_root sample_config = [RootDir, Normal ''p'']"
    by (simp_all add: sample_config_def)
  have "in_context (strip_prefix ?cwd (pc_root sample_config)) ?r" by (simp add: in_context_def)
  moreover have "prefix (components (rm_name ?r)) ?import" by (simp add: n)
  ultimately show ?thesis
    using first_remapping_decides [of sample_config ?cwd ?import ?fs] unfolding rs
    by (auto simp: n p Let_def path_join_def has_root_def Cons_eq_append_conv)
qed

end
