(* ===== verification/Graph_Resolve.thy ===== *)
theory Graph_Resolve
  imports Source_Sets Import_Resolution
begin

text \<open>
  The construction of the import graph, \<open>Graph::resolve_sources\<close> in \<open>resolver/mod.rs\<close>: a worklist
  of files, each read, parsed, and its imports resolved.  The parser is the record \<open>parser_ops\<close>:
  reading a file, parsing it, and what \<open>ParsedSource\<close> gives of the parsed data.  Every file of a
  finite file system is read once, so the loop ends; on an infinite one it need not, and the loop
  is a partial function whose value is then \<open>None\<close>.  \<open>split\<close> moves the parsed data of the nodes
  into the edges; the model puts them there at once.
\<close>

section \<open>The builder\<close>

record ('c, 'd) parser_ops =
  po_read :: "path \<Rightarrow> string option"
  po_parse :: "string \<Rightarrow> path \<Rightarrow> 'd option"
  po_version_req :: "'d \<Rightarrow> 'c list option"
  po_imports :: "'d \<Rightarrow> path list option"
  po_includes :: "'d \<Rightarrow> path set"

text \<open>A node with its parsed data: \<open>Node<P::ParsedSource>\<close>.\<close>

record 'd parsed_node =
  pn_path :: path
  pn_source :: string
  pn_data :: 'd

definition node_parse :: "('c, 'd) parser_ops \<Rightarrow> path \<Rightarrow> string \<Rightarrow> 'd parsed_node option" where
  "node_parse po p source = map_option (\<lambda>d. \<lparr>pn_path = p, pn_source = source, pn_data = d\<rparr>) (po_parse po source p)"

definition node_read :: "('c, 'd) parser_ops \<Rightarrow> path \<Rightarrow> 'd parsed_node option" where
  "node_read po p = (case po_read po p of None \<Rightarrow> None | Some source \<Rightarrow> node_parse po p source)"

fun parse_sources :: "('c, 'd) parser_ops \<Rightarrow> string sources \<Rightarrow> 'd parsed_node list option" where
  "parse_sources po [] = Some []"
| "parse_sources po ((p, source) # rest) =
     (case (node_parse po p source, parse_sources po rest) of
        (Some nd, Some nds) \<Rightarrow> Some (nd # nds)
      | _ \<Rightarrow> None)"

definition make_absolute :: "path \<Rightarrow> 's sources \<Rightarrow> 's sources" where
  "make_absolute root sources = bt_of_list (map (\<lambda>(p, s). (path_join root p, s)) sources)"

record 'd builder =
  rb_unresolved :: "'d parsed_node list"
  rb_index :: "(path \<times> nat) list"
  rb_nodes :: "'d parsed_node list"
  rb_edges :: "nat list list"
  rb_include_paths :: "path set"
  rb_unresolved_imports :: "(path \<times> path) set"

text \<open>\<open>add_node\<close>: the index of the target and the new state, or \<open>None\<close> if it cannot be read.\<close>

definition add_node :: "('c, 'd) parser_ops \<Rightarrow> path \<Rightarrow> 'd builder \<Rightarrow> (nat \<times> 'd builder) option" where
  "add_node po target st =
     (case map_of (rb_index st) target of
        Some idx \<Rightarrow> Some (idx, st)
      | None \<Rightarrow>
          (case node_read po target of
             None \<Rightarrow> None
           | Some nd \<Rightarrow>
               let idx = length (rb_index st)
               in Some (idx, st\<lparr>rb_unresolved := rb_unresolved st @ [nd],
                               rb_index := rb_index st @ [(target, idx)]\<rparr>)))"

text \<open>The loop over the imports of a file.\<close>

fun add_imports :: "('c, 'd) parser_ops \<Rightarrow> fs \<Rightarrow> ProjectPathsConfig \<Rightarrow> path \<Rightarrow> path \<Rightarrow> path list
    \<Rightarrow> nat list \<times> 'd builder \<Rightarrow> nat list \<times> 'd builder" where
  "add_imports po fs cfg cwd importer [] acc = acc"
| "add_imports po fs cfg cwd importer (import_path # rest) (resolved, st) =
     (let (r, includes) = resolve_import_and_include_paths fs cfg cwd import_path (rb_include_paths st);
          st1 = st\<lparr>rb_include_paths := includes\<rparr>
      in case (case r of Inl _ \<Rightarrow> None | Inr target \<Rightarrow> add_node po target st1) of
           Some (idx, st2) \<Rightarrow> add_imports po fs cfg cwd importer rest (resolved @ [idx], st2)
         | None \<Rightarrow> add_imports po fs cfg cwd importer rest
             (resolved, st1\<lparr>rb_unresolved_imports := insert (import_path, importer) (rb_unresolved_imports st1)\<rparr>))"

text \<open>One round of the worklist; \<open>Inl\<close> is the error of a file whose imports cannot be determined.\<close>

definition visit :: "('c, 'd) parser_ops \<Rightarrow> fs \<Rightarrow> ProjectPathsConfig \<Rightarrow> 'd parsed_node \<Rightarrow> 'd builder
    \<Rightarrow> (path, 'd builder) result" where
  "visit po fs cfg nd st =
     (case path_parent (pn_path nd) of
        None \<Rightarrow> Inr st
      | Some cwd \<Rightarrow>
          (case po_imports po (pn_data nd) of
             None \<Rightarrow> Inl (pn_path nd)
           | Some imports \<Rightarrow>
               let st0 = st\<lparr>rb_include_paths := rb_include_paths st \<union> po_includes po (pn_data nd)\<rparr>;
                   (resolved, st') = add_imports po fs cfg cwd (pn_path nd) imports ([], st0)
               in Inr (st'\<lparr>rb_nodes := rb_nodes st' @ [nd], rb_edges := rb_edges st' @ [resolved]\<rparr>)))"

partial_function (option) resolve_loop :: "('c, 'd) parser_ops \<Rightarrow> fs \<Rightarrow> ProjectPathsConfig \<Rightarrow> 'd builder
    \<Rightarrow> (path, 'd builder) result option" where
  "resolve_loop po fs cfg st =
     (case rb_unresolved st of
        [] \<Rightarrow> Some (Inr st)
      | nd # rest \<Rightarrow>
          (case visit po fs cfg nd (st\<lparr>rb_unresolved := rest\<rparr>) of
             Inl e \<Rightarrow> Some (Inl e)
           | Inr st' \<Rightarrow> resolve_loop po fs cfg st'))"

declare resolve_loop.simps [code]

definition init_builder :: "ProjectPathsConfig \<Rightarrow> 'd parsed_node list \<Rightarrow> 'd builder" where
  "init_builder cfg inputs =
     \<lparr>rb_unresolved = inputs, rb_index = zip (map pn_path inputs) [0..<length inputs],
      rb_nodes = [], rb_edges = [], rb_include_paths = {pc_root cfg}, rb_unresolved_imports = {}\<rparr>"

datatype resolve_error = ParseError | ImportsError path | EdgePanic

definition graph_node :: "('c, 'd) parser_ops \<Rightarrow> 'd parsed_node \<Rightarrow> 'c Node" where
  "graph_node po n = \<lparr>nd_path = pn_path n, nd_source = pn_source n, nd_version_req = po_version_req po (pn_data n)\<rparr>"

definition finish_graph :: "('c, 'd) parser_ops \<Rightarrow> nat \<Rightarrow> 'd builder
    \<Rightarrow> (resolve_error, 'c Graph \<times> ('c, 'd) GraphEdges) result" where
  "finish_graph po num_input_files st =
     (case rev_edges_of (rb_edges st) of
        None \<Rightarrow> Inl EdgePanic
      | Some rv \<Rightarrow> Inr
          (\<lparr>gr_nodes = map (graph_node po) (rb_nodes st), gr_edges = rb_edges st\<rparr>,
           \<lparr>ge_edges = rb_edges st, ge_rev_edges = rv, ge_indices = rb_index st,
            ge_rev_indices = map (\<lambda>(p, i). (i, p)) (rb_index st),
            ge_versions = map (\<lambda>(i, n). (i, po_version_req po (pn_data n))) (enumerate 0 (rb_nodes st)),
            ge_data = map pn_data (rb_nodes st), ge_num_input_files = num_input_files,
            ge_unresolved_imports = rb_unresolved_imports st, ge_include_paths = rb_include_paths st\<rparr>))"

definition resolve_sources :: "('c, 'd) parser_ops \<Rightarrow> fs \<Rightarrow> ProjectPathsConfig \<Rightarrow> string sources
    \<Rightarrow> (resolve_error, 'c Graph \<times> ('c, 'd) GraphEdges) result option" where
  "resolve_sources po fs cfg sources =
     (case parse_sources po (make_absolute (pc_root cfg) sources) of
        None \<Rightarrow> Some (Inl ParseError)
      | Some inputs \<Rightarrow>
          (case resolve_loop po fs cfg (init_builder cfg inputs) of
             None \<Rightarrow> None
           | Some (Inl p) \<Rightarrow> Some (Inl (ImportsError p))
           | Some (Inr st) \<Rightarrow> Some (finish_graph po (length inputs) st)))"

text \<open>\<open>into_sources\<close>: the files of the graph, and its edges.\<close>

definition into_sources :: "'c Graph \<times> ('c, 'd) GraphEdges \<Rightarrow> string sources \<times> ('c, 'd) GraphEdges" where
  "into_sources = (\<lambda>(g, edges). (bt_of_list (map (\<lambda>n. (nd_path n, nd_source n)) (gr_nodes g)), edges))"

section \<open>What the graph has to be\<close>

text \<open>
  A target that is an input, or can be read and parsed, becomes a node.  The targets of a node
  are those of its imports, in order; the result does not depend on the state of the builder.
\<close>

definition known :: "('c, 'd) parser_ops \<Rightarrow> path set \<Rightarrow> path \<Rightarrow> bool" where
  "known po ins p \<longleftrightarrow> p \<in> ins \<or> node_read po p \<noteq> None"

definition import_target :: "('c, 'd) parser_ops \<Rightarrow> fs \<Rightarrow> ProjectPathsConfig \<Rightarrow> path set \<Rightarrow> path \<Rightarrow> path \<Rightarrow> path option" where
  "import_target po fs cfg ins cwd imp =
     (case resolve_import fs cfg cwd imp of
        Inl _ \<Rightarrow> None | Inr p \<Rightarrow> if known po ins p then Some p else None)"

definition node_imports :: "('c, 'd) parser_ops \<Rightarrow> 'd parsed_node \<Rightarrow> (path \<times> path) list" where
  "node_imports po nd =
     (case (path_parent (pn_path nd), po_imports po (pn_data nd)) of
        (Some cwd, Some imports) \<Rightarrow> map (Pair cwd) imports | _ \<Rightarrow> [])"

definition node_targets :: "('c, 'd) parser_ops \<Rightarrow> fs \<Rightarrow> ProjectPathsConfig \<Rightarrow> path set \<Rightarrow> 'd parsed_node \<Rightarrow> path list" where
  "node_targets po fs cfg ins nd = List.map_filter (case_prod (import_target po fs cfg ins)) (node_imports po nd)"

definition node_unresolved :: "('c, 'd) parser_ops \<Rightarrow> fs \<Rightarrow> ProjectPathsConfig \<Rightarrow> path set \<Rightarrow> 'd parsed_node \<Rightarrow> (path \<times> path) set" where
  "node_unresolved po fs cfg ins nd =
     {(imp, pn_path nd) |cwd imp. (cwd, imp) \<in> set (node_imports po nd) \<and> import_target po fs cfg ins cwd imp = None}"

text \<open>A list of indices into a list of paths, read as paths.\<close>

definition refers :: "path list \<Rightarrow> nat list \<Rightarrow> path list \<Rightarrow> bool" where
  "refers L ns ps \<longleftrightarrow> list_all (\<lambda>j. j < length L) ns \<and> map ((!) L) ns = ps"

lemma refers_more: "refers L ns ps \<Longrightarrow> refers (L @ M) ns ps"
  by (auto simp: refers_def list_all_iff nth_append)

lemma refers_append: "refers L ns ps \<Longrightarrow> refers L ms qs \<Longrightarrow> refers L (ns @ ms) (ps @ qs)"
  by (simp add: refers_def)

lemma node_read_path: "node_read po p = Some nd \<Longrightarrow> pn_path nd = p"
  by (auto simp: node_read_def node_parse_def split: option.splits)

text \<open>The index of a list of paths.\<close>

definition path_index :: "path list \<Rightarrow> (path \<times> nat) list" where
  "path_index L = zip L [0..<length L]"

lemma path_index_append: "path_index (L @ [p]) = path_index L @ [(p, length L)]"
  by (simp add: path_index_def)

lemma length_index [simp]: "length (path_index L) = length L"
  by (simp add: path_index_def)

lemma path_index_None: "map_of (path_index L) p = None \<longleftrightarrow> p \<notin> set L"
  by (simp add: path_index_def map_of_zip_is_None)

lemma path_index_Some: "map_of (path_index L) p = Some i \<Longrightarrow> i < length L \<and> L ! i = p"
  by (drule map_of_SomeD) (auto simp: path_index_def set_zip)

text \<open>The state of the builder beside the include paths, with the paths of the node under work.\<close>

definition indexed :: "('c, 'd) parser_ops \<Rightarrow> path set \<Rightarrow> path list \<Rightarrow> 'd builder \<Rightarrow> bool" where
  "indexed po ins L st \<longleftrightarrow> rb_index st = path_index L \<and> distinct L \<and> ins \<subseteq> set L \<and>
     (\<forall>p \<in> set L. known po ins p) \<and> set (map pn_path (rb_unresolved st)) \<subseteq> set L"

lemma add_node_spec:
  assumes "indexed po ins L st"
  shows "case add_node po target st of
     None \<Rightarrow> \<not> known po ins target
   | Some (i, st') \<Rightarrow> known po ins target \<and> (\<exists>new.
       st' = st\<lparr>rb_unresolved := rb_unresolved st @ new, rb_index := path_index (L @ map pn_path new)\<rparr> \<and>
       indexed po ins (L @ map pn_path new) st' \<and> refers (L @ map pn_path new) [i] [target] \<and>
       (\<forall>nd \<in> set new. node_read po (pn_path nd) = Some nd \<and> pn_path nd = target))"
proof (cases "map_of (rb_index st) target")
  case None
  with assms have t: "target \<notin> set L" "target \<notin> ins" by (auto simp: indexed_def path_index_None)
  show ?thesis
  proof (cases "node_read po target")
    case None
    with \<open>map_of (rb_index st) target = None\<close> t show ?thesis by (simp add: add_node_def known_def)
  next
    case (Some nd)
    note p = node_read_path [OF Some]
    have "indexed po ins (L @ [target]) (st\<lparr>rb_unresolved := rb_unresolved st @ [nd], rb_index := path_index (L @ [target])\<rparr>)"
      using assms t Some p by (auto simp: indexed_def known_def)
    moreover have "refers (L @ [target]) [length L] [target]" by (simp add: refers_def)
    ultimately show ?thesis
      using \<open>map_of (rb_index st) target = None\<close> Some p assms
      by (auto simp: add_node_def Let_def known_def indexed_def path_index_append intro!: exI [of _ "[nd]"])
  qed
next
  case (Some i)
  with assms have i: "i < length L \<and> L ! i = target" by (auto simp: indexed_def dest: path_index_Some)
  then have "known po ins target" using assms by (auto simp: indexed_def)
  moreover have "st = st\<lparr>rb_unresolved := rb_unresolved st @ [], rb_index := path_index (L @ map pn_path [])\<rparr>"
    using assms by (simp add: indexed_def)
  ultimately show ?thesis
    using Some i assms by (auto simp: add_node_def refers_def intro!: exI [of _ "[]"])
qed

definition extended :: "('c, 'd) parser_ops \<Rightarrow> path set \<Rightarrow> path list \<Rightarrow> 'd parsed_node list \<Rightarrow> path list
    \<Rightarrow> 'd builder \<Rightarrow> 'd builder \<Rightarrow> bool" where
  "extended po ins L new ts st st' \<longleftrightarrow> indexed po ins (L @ map pn_path new) st' \<and>
     rb_unresolved st' = rb_unresolved st @ new \<and> rb_nodes st' = rb_nodes st \<and> rb_edges st' = rb_edges st \<and>
     (\<forall>nd \<in> set new. node_read po (pn_path nd) = Some nd \<and> pn_path nd \<in> set ts)"

lemma indexed_includes [simp]:
  "indexed po ins L (st\<lparr>rb_include_paths := A\<rparr>) = indexed po ins L st"
  "indexed po ins L (st\<lparr>rb_unresolved_imports := B\<rparr>) = indexed po ins L st"
  by (simp_all add: indexed_def)

lemma resolved_target:
  "resolve_import_and_include_paths fs cfg cwd imp A = (r, B) \<Longrightarrow> resolve_import fs cfg cwd imp = r"
  using config.same_result [of fs cfg cwd imp A "{}"] by (simp add: resolve_import_def)

lemma add_imports_spec:
  assumes "indexed po ins L st"
  shows "case add_imports po fs cfg cwd importer imps (resolved, st) of
     (resolved', st') \<Rightarrow> \<exists>new ns. resolved' = resolved @ ns \<and>
       extended po ins L new (List.map_filter (import_target po fs cfg ins cwd) imps) st st' \<and>
       refers (L @ map pn_path new) ns (List.map_filter (import_target po fs cfg ins cwd) imps) \<and>
       rb_unresolved_imports st' = rb_unresolved_imports st \<union>
         {(imp, importer) |imp. imp \<in> set imps \<and> import_target po fs cfg ins cwd imp = None}"
  using assms
proof (induction imps arbitrary: resolved st L)
  case Nil
  then show ?case
    by (auto simp: extended_def refers_def List.map_filter_simps intro!: exI [of _ "[]"])
next
  case (Cons imp imps)
  obtain r inc where r: "resolve_import_and_include_paths fs cfg cwd imp (rb_include_paths st) = (r, inc)"
    by (cases "resolve_import_and_include_paths fs cfg cwd imp (rb_include_paths st)")
  note t = resolved_target [OF r]
  let ?st1 = "st\<lparr>rb_include_paths := inc\<rparr>"
  have i1: "indexed po ins L ?st1" using Cons.prems by simp
  let ?step = "case r of Inl _ \<Rightarrow> None | Inr target \<Rightarrow> add_node po target ?st1"
  show ?case
  proof (cases ?step)
    case None
    have tn: "import_target po fs cfg ins cwd imp = None"
    proof (cases r)
      case (Inr p)
      with None add_node_spec [OF i1, of p] t show ?thesis by (simp add: import_target_def)
    qed (simp add: import_target_def t)
    let ?st2 = "?st1\<lparr>rb_unresolved_imports := insert (imp, importer) (rb_unresolved_imports ?st1)\<rparr>"
    have i2: "indexed po ins L ?st2" using Cons.prems by simp
    have e: "add_imports po fs cfg cwd importer (imp # imps) (resolved, st) =
        add_imports po fs cfg cwd importer imps (resolved, ?st2)"
      using None by (simp add: r)
    have u: "{(i, importer) |i. i \<in> set (imp # imps) \<and> import_target po fs cfg ins cwd i = None} =
        insert (imp, importer) {(i, importer) |i. i \<in> set imps \<and> import_target po fs cfg ins cwd i = None}"
      using tn by auto
    from Cons.IH [OF i2, of resolved] tn show ?thesis
      unfolding e u by (auto simp: extended_def List.map_filter_simps)
  next
    case (Some a)
    obtain i st2 where a: "a = (i, st2)" by (cases a)
    from Some a obtain p where p: "r = Inr p" "add_node po p ?st1 = Some (i, st2)" by (cases r) auto
    from add_node_spec [OF i1, of p] p(2) obtain new where
      kp: "known po ins p" and st2: "st2 = ?st1\<lparr>rb_unresolved := rb_unresolved ?st1 @ new, rb_index := path_index (L @ map pn_path new)\<rparr>"
      and i2: "indexed po ins (L @ map pn_path new) st2" and rf: "refers (L @ map pn_path new) [i] [p]"
      and nw: "\<forall>nd \<in> set new. node_read po (pn_path nd) = Some nd \<and> pn_path nd = p" by auto
    have tn: "import_target po fs cfg ins cwd imp = Some p" using t p kp by (simp add: import_target_def)
    have e: "add_imports po fs cfg cwd importer (imp # imps) (resolved, st) =
        add_imports po fs cfg cwd importer imps (resolved @ [i], st2)"
      using Some a by (simp add: r)
    have u: "{(i, importer) |i. i \<in> set (imp # imps) \<and> import_target po fs cfg ins cwd i = None} =
        {(i, importer) |i. i \<in> set imps \<and> import_target po fs cfg ins cwd i = None}"
      using tn by auto
    obtain resolved' st' where o: "add_imports po fs cfg cwd importer imps (resolved @ [i], st2) = (resolved', st')"
      by (cases "add_imports po fs cfg cwd importer imps (resolved @ [i], st2)")
    from Cons.IH [OF i2, of "resolved @ [i]", unfolded o prod.case] obtain new' ns where
      ih: "resolved' = (resolved @ [i]) @ ns"
        "extended po ins (L @ map pn_path new) new' (List.map_filter (import_target po fs cfg ins cwd) imps) st2 st'"
        "refers ((L @ map pn_path new) @ map pn_path new') ns (List.map_filter (import_target po fs cfg ins cwd) imps)"
        "rb_unresolved_imports st' = rb_unresolved_imports st2 \<union>
         {(imp, importer) |imp. imp \<in> set imps \<and> import_target po fs cfg ins cwd imp = None}" by blast
    have m: "List.map_filter (import_target po fs cfg ins cwd) (imp # imps) =
        p # List.map_filter (import_target po fs cfg ins cwd) imps"
      using tn by (simp add: List.map_filter_simps)
    have "refers (L @ map pn_path (new @ new')) ([i] @ ns) ([p] @ List.map_filter (import_target po fs cfg ins cwd) imps)"
      using refers_append [OF refers_more [OF rf] ih(3)] by simp
    moreover have "extended po ins L (new @ new') (p # List.map_filter (import_target po fs cfg ins cwd) imps) st st'"
      using ih(2) nw by (auto simp: extended_def st2)
    moreover have "rb_unresolved_imports st' = rb_unresolved_imports st \<union>
         {(imp, importer) |imp. imp \<in> set imps \<and> import_target po fs cfg ins cwd imp = None}"
      using ih(4) by (simp add: st2)
    ultimately show ?thesis
      unfolding e o prod.case u m using ih(1) by (intro exI [of _ "new @ new'"] exI [of _ "[i] @ ns"]) simp
  qed
qed

section \<open>The loop\<close>

abbreviation input_paths :: "'d parsed_node list \<Rightarrow> path set" where
  "input_paths inputs \<equiv> set (map pn_path inputs)"

definition all_paths :: "'d builder \<Rightarrow> path list" where
  "all_paths st = map pn_path (rb_nodes st @ rb_unresolved st)"

definition built :: "('c, 'd) parser_ops \<Rightarrow> fs \<Rightarrow> ProjectPathsConfig \<Rightarrow> 'd parsed_node list \<Rightarrow> 'd builder \<Rightarrow> bool" where
  "built po fs cfg inputs st \<longleftrightarrow>
     indexed po (input_paths inputs) (all_paths st) st \<and> prefix inputs (rb_nodes st @ rb_unresolved st) \<and>
     length (rb_edges st) = length (rb_nodes st) \<and>
     (\<forall>i < length (rb_nodes st). refers (all_paths st) (rb_edges st ! i) (node_targets po fs cfg (input_paths inputs) (rb_nodes st ! i))) \<and>
     (\<forall>nd \<in> set (rb_nodes st @ rb_unresolved st). nd \<in> set inputs \<or> node_read po (pn_path nd) = Some nd) \<and>
     (\<forall>p \<in> set (all_paths st). p \<in> input_paths inputs \<or> (\<exists>nd \<in> set (rb_nodes st). p \<in> set (node_targets po fs cfg (input_paths inputs) nd))) \<and>
     rb_unresolved_imports st = (\<Union>nd \<in> set (rb_nodes st). node_unresolved po fs cfg (input_paths inputs) nd)"

lemma map_filter_map: "List.map_filter f (map g xs) = List.map_filter (f \<circ> g) xs"
  by (induction xs) (simp_all add: List.map_filter_simps split: option.split)

lemma visit_spec:
  assumes b: "built po fs cfg inputs st" and u: "rb_unresolved st = nd # rest"
    and parent: "path_parent (pn_path nd) \<noteq> None"
  shows "case visit po fs cfg nd (st\<lparr>rb_unresolved := rest\<rparr>) of
     Inl e \<Rightarrow> e = pn_path nd \<and> po_imports po (pn_data nd) = None
   | Inr st' \<Rightarrow> built po fs cfg inputs st' \<and> rb_nodes st' = rb_nodes st @ [nd] \<and>
       (\<exists>new. rb_unresolved st' = rest @ new \<and> all_paths st' = all_paths st @ map pn_path new \<and>
          (\<forall>n \<in> set new. po_read po (pn_path n) \<noteq> None))"
proof -
  let ?ins = "input_paths inputs" and ?T = "node_targets po fs cfg (input_paths inputs)"
  obtain cwd where cwd: "path_parent (pn_path nd) = Some cwd" using parent by auto
  show ?thesis
  proof (cases "po_imports po (pn_data nd)")
    case None
    with cwd show ?thesis by (simp add: visit_def)
  next
    case (Some imps)
    let ?st0 = "st\<lparr>rb_unresolved := rest, rb_include_paths := rb_include_paths st \<union> po_includes po (pn_data nd)\<rparr>"
    have i0: "indexed po ?ins (all_paths st) ?st0"
      using b u by (auto simp: built_def indexed_def)
    obtain resolved st1 where a: "add_imports po fs cfg cwd (pn_path nd) imps ([], ?st0) = (resolved, st1)"
      by (cases "add_imports po fs cfg cwd (pn_path nd) imps ([], ?st0)")
    have T: "?T nd = List.map_filter (import_target po fs cfg ?ins cwd) imps"
      by (simp add: node_targets_def node_imports_def cwd Some map_filter_map comp_def)
    have U: "node_unresolved po fs cfg ?ins nd =
        {(imp, pn_path nd) |imp. imp \<in> set imps \<and> import_target po fs cfg ?ins cwd imp = None}"
      by (auto simp: node_unresolved_def node_imports_def cwd Some)
    from add_imports_spec [OF i0, where fs = fs and cfg = cfg and cwd = cwd and importer = "pn_path nd" and imps = imps and resolved = "[]", unfolded a prod.case, folded T U]
    obtain new where e: "extended po ?ins (all_paths st) new (?T nd) ?st0 st1"
      and rf: "refers (all_paths st @ map pn_path new) resolved (?T nd)"
      and un: "rb_unresolved_imports st1 = rb_unresolved_imports ?st0 \<union> node_unresolved po fs cfg ?ins nd" by auto
    let ?st' = "st1\<lparr>rb_nodes := rb_nodes st1 @ [nd], rb_edges := rb_edges st1 @ [resolved]\<rparr>"
    have v: "visit po fs cfg nd (st\<lparr>rb_unresolved := rest\<rparr>) = Inr ?st'"
      using a by (simp add: visit_def cwd Some)
    have f: "rb_unresolved st1 = rest @ new" "rb_nodes st1 = rb_nodes st" "rb_edges st1 = rb_edges st"
      "indexed po ?ins (all_paths st @ map pn_path new) st1"
      "\<forall>n \<in> set new. node_read po (pn_path n) = Some n \<and> pn_path n \<in> set (?T nd)"
      using e by (simp_all add: extended_def)
    have p: "all_paths ?st' = all_paths st @ map pn_path new" by (simp add: all_paths_def f u)
    have i1: "indexed po ?ins (all_paths ?st') ?st'" using f(4) by (simp add: indexed_def p)
    have len: "length (rb_edges st) = length (rb_nodes st)" using b by (simp add: built_def)
    have edges: "refers (all_paths ?st') (rb_edges ?st' ! i) (?T (rb_nodes ?st' ! i))"
      if "i < length (rb_nodes ?st')" for i
    proof (cases "i < length (rb_nodes st)")
      case True
      with b have "refers (all_paths st) (rb_edges st ! i) (?T (rb_nodes st ! i))" by (simp add: built_def)
      from refers_more [OF this] True len show ?thesis unfolding p by (simp add: f nth_append)
    next
      case False
      with that have "i = length (rb_nodes st)" by (simp add: f)
      then show ?thesis unfolding p using rf len by (simp add: f nth_append)
    qed
    have pre: "prefix inputs (rb_nodes ?st' @ rb_unresolved ?st')"
    proof -
      have "prefix inputs (rb_nodes st @ nd # rest)" using b u by (simp add: built_def)
      then have "prefix inputs ((rb_nodes st @ nd # rest) @ new)" by (rule prefix_prefix)
      then show ?thesis by (simp add: f)
    qed
    have orig: "\<forall>n \<in> set (rb_nodes ?st' @ rb_unresolved ?st'). n \<in> set inputs \<or> node_read po (pn_path n) = Some n"
      using b u f(5) by (auto simp: built_def f(1,2))
    have tgt: "\<forall>q \<in> set (all_paths ?st'). q \<in> ?ins \<or> (\<exists>n \<in> set (rb_nodes ?st'). q \<in> set (?T n))"
      using b f(5) unfolding p by (auto simp: built_def f(2))
    have unr: "rb_unresolved_imports ?st' = (\<Union>n \<in> set (rb_nodes ?st'). node_unresolved po fs cfg ?ins n)"
      using b un by (auto simp: built_def f(2))
    have rd: "\<forall>n \<in> set new. po_read po (pn_path n) \<noteq> None"
      using f(5) by (auto simp: node_read_def split: option.splits)
    show ?thesis
      unfolding v sum.case using i1 len edges pre orig tgt unr p rd f(1,2,3)
      by (simp add: built_def)
  qed
qed

lemma resolve_loop_spec:
  assumes "built po fs cfg inputs st" and fin: "finite {p. po_read po p \<noteq> None}"
    and parent: "\<forall>p. p \<in> input_paths inputs \<or> po_read po p \<noteq> None \<longrightarrow> path_parent p \<noteq> None"
    and "\<forall>nd \<in> set (rb_nodes st). po_imports po (pn_data nd) \<noteq> None"
  shows "case resolve_loop po fs cfg st of
     None \<Rightarrow> False
   | Some (Inl p) \<Rightarrow> \<exists>nd. pn_path nd = p \<and> po_imports po (pn_data nd) = None \<and> (nd \<in> set inputs \<or> node_read po p = Some nd)
   | Some (Inr st') \<Rightarrow> built po fs cfg inputs st' \<and> rb_unresolved st' = [] \<and>
       (\<forall>nd \<in> set (rb_nodes st'). po_imports po (pn_data nd) \<noteq> None)"
  using assms(1,4)
proof (induction "length (rb_unresolved st) + card ({p. po_read po p \<noteq> None} - set (all_paths st))"
    arbitrary: st rule: less_induct)
  case less
  let ?R = "{p. po_read po p \<noteq> None}"
  show ?case
  proof (cases "rb_unresolved st")
    case Nil
    with less.prems show ?thesis by (subst resolve_loop.simps) simp
  next
    case (Cons nd rest)
    have orig: "nd \<in> set inputs \<or> node_read po (pn_path nd) = Some nd"
      using less.prems(1) Cons by (auto simp: built_def)
    then have "pn_path nd \<in> input_paths inputs \<or> po_read po (pn_path nd) \<noteq> None"
      by (auto simp: node_read_def split: option.splits)
    with parent have p: "path_parent (pn_path nd) \<noteq> None" by blast
    note v = visit_spec [OF less.prems(1) Cons p]
    show ?thesis
    proof (cases "visit po fs cfg nd (st\<lparr>rb_unresolved := rest\<rparr>)")
      case (Inl e)
      with v orig Cons show ?thesis by (subst resolve_loop.simps) auto
    next
      case (Inr st')
      with v obtain new where b: "built po fs cfg inputs st'" and n: "rb_nodes st' = rb_nodes st @ [nd]"
        and new: "rb_unresolved st' = rest @ new" "all_paths st' = all_paths st @ map pn_path new"
        "\<forall>n \<in> set new. po_read po (pn_path n) \<noteq> None" by auto
      have d: "distinct (all_paths st')" using b by (simp add: built_def indexed_def)
      have "set (map pn_path new) \<subseteq> ?R - set (all_paths st)" using d new(2,3) by auto
      moreover have "card (set (map pn_path new)) = length new"
        using d new(2) distinct_card [of "map pn_path new"] by simp
      moreover have "?R - set (all_paths st') = (?R - set (all_paths st)) - set (map pn_path new)"
        unfolding new(2) by auto
      ultimately have "card (?R - set (all_paths st')) + length new = card (?R - set (all_paths st))"
        using fin by (metis card_Diff_subset card_mono finite_Diff finite_subset le_add_diff_inverse2)
      then have m: "length (rb_unresolved st') + card (?R - set (all_paths st')) <
          length (rb_unresolved st) + card (?R - set (all_paths st))"
        using new(1) Cons by simp
      have "po_imports po (pn_data nd) \<noteq> None"
        using Inr p by (auto simp: visit_def split: option.splits)
      then have "\<forall>n \<in> set (rb_nodes st'). po_imports po (pn_data n) \<noteq> None"
        using less.prems(2) n by simp
      from less.hyps [OF m b this] Inr Cons show ?thesis by (subst resolve_loop.simps) simp
    qed
  qed
qed

lemma parse_sources_spec:
  "parse_sources po srcs = Some nds \<Longrightarrow>
     map pn_path nds = map fst srcs \<and> map (\<lambda>n. (pn_path n, pn_source n)) nds = srcs"
  by (induction po srcs arbitrary: nds rule: parse_sources.induct)
    (auto simp: node_parse_def split: option.splits)

lemma built_init:
  assumes "distinct (map pn_path inputs)"
  shows "built po fs cfg inputs (init_builder cfg inputs)"
  using assms by (auto simp: built_def indexed_def all_paths_def init_builder_def path_index_def known_def)

lemma graph_node_path [simp]: "nd_path \<circ> graph_node po = pn_path"
  and graph_node_content [simp]: "(\<lambda>n. (nd_path n, nd_source n)) \<circ> graph_node po = (\<lambda>n. (pn_path n, pn_source n))"
  by (auto simp: graph_node_def)

text \<open>The edges as a graph of paths, one for every node.\<close>

definition path_graph :: "('c, 'd) GraphEdges \<Rightarrow> path list \<Rightarrow> bool" where
  "path_graph ge L \<longleftrightarrow> distinct L \<and> edges_wf (ge_edges ge) \<and> length (ge_edges ge) = length L \<and>
     ge_indices ge = path_index L \<and> ge_rev_indices ge = map (\<lambda>(p, i). (i, p)) (path_index L) \<and>
     rev_edges_of (ge_edges ge) = Some (ge_rev_edges ge)"

lemma built_graph:
  assumes b: "built po fs cfg inputs st" and u: "rb_unresolved st = []"
  shows "case finish_graph po (length inputs) st of
     Inl _ \<Rightarrow> False
   | Inr (g, ge) \<Rightarrow> graph_wf g \<and> gr_edges g = rb_edges st \<and> gr_nodes g = map (graph_node po) (rb_nodes st) \<and>
       ge_edges ge = gr_edges g \<and> ge_indices ge = path_index (map nd_path (gr_nodes g)) \<and>
       ge_num_input_files ge = length inputs \<and> ge_unresolved_imports ge = rb_unresolved_imports st \<and>
       path_graph ge (map nd_path (gr_nodes g))"
proof -
  have p: "all_paths st = map pn_path (rb_nodes st)" by (simp add: all_paths_def u)
  have len: "length (rb_edges st) = length (rb_nodes st)" using b by (simp add: built_def)
  have "n < length (rb_edges st)" if m: "ns \<in> set (rb_edges st)" "n \<in> set ns" for ns n
  proof -
    obtain i where "i < length (rb_edges st)" "rb_edges st ! i = ns" using m(1) by (auto simp: in_set_conv_nth)
    with b len have "list_all (\<lambda>j. j < length (all_paths st)) ns" by (auto simp: built_def refers_def)
    with m(2) show ?thesis by (simp add: list_all_iff p len)
  qed
  then have wf: "edges_wf (rb_edges st)" by (simp add: edges_wf_def)
  then obtain rv where rv: "rev_edges_of (rb_edges st) = Some rv"
    using build_rev_spec [of "rb_edges st" "map (\<lambda>_. []) (rb_edges st)" 0] by (auto simp: edges_wf_def rev_edges_of_def)
  show ?thesis
    using b wf len by (simp add: finish_graph_def rv graph_wf_def path_graph_def built_def indexed_def p)
qed

lemma parse_sources_nodes:
  "parse_sources po srcs = Some nds \<Longrightarrow> nd \<in> set nds \<Longrightarrow> po_parse po (pn_source nd) (pn_path nd) = Some (pn_data nd)"
  by (induction po srcs arbitrary: nds rule: parse_sources.induct)
    (auto simp: node_parse_def split: option.splits)

lemma node_read_parsed: "node_read po p = Some nd \<Longrightarrow> po_parse po (pn_source nd) p = Some (pn_data nd)"
  by (auto simp: node_read_def node_parse_def split: option.splits)

lemma inputs_parsed:
  assumes "parse_sources po (make_absolute root sources) = Some inputs"
  shows "distinct (map pn_path inputs)" and "input_paths inputs = fst ` set (make_absolute root sources)"
    and "map (\<lambda>n. (pn_path n, pn_source n)) inputs = make_absolute root sources"
proof -
  note p = parse_sources_spec [OF assms]
  have "distinct (map fst (make_absolute root sources))"
    unfolding make_absolute_def by (rule bt_wf_distinct [OF bt_wf_of_list])
  then show "distinct (map pn_path inputs)" using p by simp
  show "input_paths inputs = fst ` set (make_absolute root sources)"
    using p by (metis list.set_map)
  show "map (\<lambda>n. (pn_path n, pn_source n)) inputs = make_absolute root sources" using p by simp
qed

lemma resolve_spec:
  assumes fin: "finite {p. po_read po p \<noteq> None}"
    and parent: "\<forall>p. p \<in> fst ` set (make_absolute (pc_root cfg) sources) \<or> po_read po p \<noteq> None \<longrightarrow> path_parent p \<noteq> None"
  shows "case resolve_sources po fs cfg sources of
     None \<Rightarrow> False
   | Some (Inl e) \<Rightarrow> parse_sources po (make_absolute (pc_root cfg) sources) = None \<and> e = ParseError \<or>
       (\<exists>p source d. e = ImportsError p \<and> po_parse po source p = Some d \<and> po_imports po d = None)
   | Some (Inr (g, ge)) \<Rightarrow> (\<exists>inputs st. parse_sources po (make_absolute (pc_root cfg) sources) = Some inputs \<and>
       built po fs cfg inputs st \<and> rb_unresolved st = [] \<and> (\<forall>nd \<in> set (rb_nodes st). po_imports po (pn_data nd) \<noteq> None) \<and>
       graph_wf g \<and> gr_edges g = rb_edges st \<and> gr_nodes g = map (graph_node po) (rb_nodes st) \<and>
       ge_edges ge = gr_edges g \<and> ge_indices ge = path_index (map nd_path (gr_nodes g)) \<and>
       ge_num_input_files ge = length inputs \<and> ge_unresolved_imports ge = rb_unresolved_imports st \<and>
       path_graph ge (map nd_path (gr_nodes g)))"
proof (cases "parse_sources po (make_absolute (pc_root cfg) sources)")
  case None
  then show ?thesis by (simp add: resolve_sources_def)
next
  case (Some inputs)
  note i = inputs_parsed [OF Some]
  have parent': "\<forall>p. p \<in> input_paths inputs \<or> po_read po p \<noteq> None \<longrightarrow> path_parent p \<noteq> None"
    using parent unfolding i(2) .
  have n0: "\<forall>nd \<in> set (rb_nodes (init_builder cfg inputs)). po_imports po (pn_data nd) \<noteq> None"
    by (simp add: init_builder_def)
  note l = resolve_loop_spec [where fs = fs, OF built_init [OF i(1)] fin parent' n0]
  show ?thesis
  proof (cases "resolve_loop po fs cfg (init_builder cfg inputs)")
    case None
    with l show ?thesis by simp
  next
    case loop: (Some r)
    show ?thesis
    proof (cases r)
      case (Inl p)
      with l loop obtain nd where "pn_path nd = p" "po_imports po (pn_data nd) = None"
        "nd \<in> set inputs \<or> node_read po p = Some nd" by auto
      with parse_sources_nodes [OF Some, of nd] node_read_parsed [of po p nd] Inl loop Some show ?thesis
        by (auto simp: resolve_sources_def)
    next
      case (Inr st)
      with l loop have b: "built po fs cfg inputs st" "rb_unresolved st = []"
        "\<forall>nd \<in> set (rb_nodes st). po_imports po (pn_data nd) \<noteq> None" by simp_all
      from built_graph [OF b(1,2)] obtain g ge where f: "finish_graph po (length inputs) st = Inr (g, ge)"
        and gg: "graph_wf g" "gr_edges g = rb_edges st" "gr_nodes g = map (graph_node po) (rb_nodes st)"
        "ge_edges ge = gr_edges g" "ge_indices ge = path_index (map nd_path (gr_nodes g))"
        "ge_num_input_files ge = length inputs" "ge_unresolved_imports ge = rb_unresolved_imports st"
        "path_graph ge (map nd_path (gr_nodes g))"
        by (auto split: sum.splits)
      have r: "resolve_sources po fs cfg sources = Some (Inr (g, ge))"
        by (simp add: resolve_sources_def Some loop Inr f)
      show ?thesis unfolding r option.case sum.case prod.case using gg b Some by blast
    qed
  qed
qed

section \<open>The graph by paths\<close>

lemma path_of_index:
  assumes "path_graph ge L" and "i < length L"
  shows "node_path ge i = Some (L ! i)" and "map_of (ge_indices ge) (L ! i) = Some i"
proof -
  have d: "distinct L" using assms(1) by (simp add: path_graph_def)
  have "distinct (map fst (map (\<lambda>(p, i). (i, p)) (path_index L)))"
    by (simp add: path_index_def comp_def case_prod_beta)
  moreover have "(i, L ! i) \<in> set (map (\<lambda>(p, i). (i, p)) (path_index L))"
    using assms(2) by (force simp: path_index_def set_zip)
  ultimately have "map_of (map (\<lambda>(p, i). (i, p)) (path_index L)) i = Some (L ! i)" by simp
  then show "node_path ge i = Some (L ! i)" using assms(1) by (simp add: node_path_def path_graph_def)
  show "map_of (ge_indices ge) (L ! i) = Some i"
    using assms d by (simp add: path_graph_def path_index_def map_of_zip_nth)
qed

lemma index_of_path: "path_graph ge L \<Longrightarrow> map_of (ge_indices ge) p = Some i \<Longrightarrow> i < length L \<and> L ! i = p"
  by (simp add: path_graph_def path_index_Some)

lemma node_paths_map: "path_graph ge L \<Longrightarrow> \<forall>i \<in> set ns. i < length L \<Longrightarrow> node_paths ge ns = Some (map ((!) L) ns)"
  by (induction ns) (simp_all add: path_of_index(1))

definition imports_path :: "('c, 'd) GraphEdges \<Rightarrow> path list \<Rightarrow> path \<Rightarrow> path \<Rightarrow> bool" where
  "imports_path ge L p q \<longleftrightarrow> (\<exists>i j. i < length L \<and> j \<in> set (ge_edges ge ! i) \<and> L ! i = p \<and> L ! j = q)"

lemma edge_in_range: "path_graph ge L \<Longrightarrow> i < length L \<Longrightarrow> j \<in> set (ge_edges ge ! i) \<Longrightarrow> j < length L"
  unfolding path_graph_def edges_wf_def by (metis nth_mem)

lemma importers_exact:
  assumes g: "path_graph ge L"
  shows "importers ge q = Some {p. imports_path ge L p q}"
proof (cases "map_of (ge_indices ge) q")
  case None
  then have "q \<notin> set L" using g by (simp add: path_graph_def path_index_None)
  moreover have "L ! j \<in> set L" if "i < length L" "j \<in> set (ge_edges ge ! i)" for i j
    using edge_in_range [OF g that] by simp
  ultimately show ?thesis using None by (auto simp: importers_def imports_path_def)
next
  case (Some j)
  note j = index_of_path [OF g Some]
  have wf: "edges_wf (ge_edges ge)" "length (ge_edges ge) = length L" "distinct L"
    and rv: "rev_edges_of (ge_edges ge) = Some (ge_rev_edges ge)" using g by (simp_all add: path_graph_def)
  from build_rev_spec [of "ge_edges ge" "map (\<lambda>_. []) (ge_edges ge)" 0] wf rv
  have r: "length (ge_rev_edges ge) = length L"
    "ge_rev_edges ge ! j = concat (map (\<lambda>k. replicate (count_list (ge_edges ge ! k) j) k) [0..<length L])"
    using j by (auto simp: edges_wf_def rev_edges_of_def)
  have s: "set (ge_rev_edges ge ! j) = {i. i < length L \<and> j \<in> set (ge_edges ge ! i)}"
    unfolding r(2) by (auto simp: count_list_0_iff)
  then have "node_paths ge (ge_rev_edges ge ! j) = Some (map ((!) L) (ge_rev_edges ge ! j))"
    by (intro node_paths_map [OF g]) auto
  moreover have "{p. imports_path ge L p q} = (!) L ` {i. i < length L \<and> j \<in> set (ge_edges ge ! i)}"
  proof -
    have "k = j" if "i < length L" "k \<in> set (ge_edges ge ! i)" "L ! k = q" for i k
    proof -
      have "k < length L" by (rule edge_in_range [OF g that(1,2)])
      then show ?thesis using nth_eq_iff_index_eq [OF wf(3), of k j] j that(3) by simp
    qed
    then show ?thesis using j by (auto simp: imports_path_def)
  qed
  ultimately show ?thesis using Some j r(1) s by (simp add: importers_def at_def)
qed

definition imports_paths :: "('c, 'd) GraphEdges \<Rightarrow> path list \<Rightarrow> (path \<times> path) set" where
  "imports_paths ge L = {(p, q). imports_path ge L p q}"

lemma imports_of_exact:
  assumes g: "path_graph ge L"
  obtains s where "imports_of ge p = Some s" and "s \<subseteq> (imports_paths ge L)\<^sup>* `` {p}" and "(imports_paths ge L)\<^sup>* `` {p} \<subseteq> insert p s"
proof (cases "map_of (ge_indices ge) p")
  case None
  then have "p \<notin> set L" using g by (simp add: path_graph_def path_index_None)
  then have "(p, q) \<notin> imports_paths ge L" for q by (auto simp: imports_paths_def imports_path_def)
  then have "(imports_paths ge L)\<^sup>* `` {p} = {p}" by (auto elim: converse_rtranclE)
  with None show ?thesis by (intro that [of "{}"]) (simp_all add: imports_of_def)
next
  case (Some i)
  note i = index_of_path [OF g Some]
  have wf: "edges_wf (ge_edges ge)" "length (ge_edges ge) = length L" using g by (simp_all add: path_graph_def)
  obtain ns where ns: "node_ids (ge_edges ge) i = Some ns" "set ns = nodes.reach (ge_edges ge) {i}" "ns = i # drop 1 ns"
  proof (rule node_ids_spec [OF wf(1), of i])
    show "i < length (ge_edges ge)" using i wf(2) by simp
  qed
  have lt: "n < length L" if "n \<in> set ns" for n
    using that ns(2) nodes.reach_def reach_range [OF wf(1), of "{i}"] i wf(2) by auto
  have step: "(L ! a, L ! b) \<in> imports_paths ge L" if "(a, b) \<in> nodes.edge (ge_edges ge)" "a < length L" for a b
  proof -
    have "b \<in> set (ge_edges ge ! a)" using that wf(2) by (simp add: nodes.edge_def succs_def at_def)
    then show ?thesis using that(2) by (auto simp: imports_paths_def imports_path_def)
  qed
  have to: "(p, L ! n) \<in> (imports_paths ge L)\<^sup>*" if "n \<in> set ns" for n
  proof -
    from that ns(2) have "(i, n) \<in> (nodes.edge (ge_edges ge))\<^sup>*" by (simp add: nodes.reach_def)
    then show ?thesis
    proof (induction rule: rtrancl_induct)
      case base
      then show ?case using i by simp
    next
      case (step a b)
      have "a \<in> set ns" using step(1) ns(2) by (simp add: nodes.reach_def)
      with step show ?case using lt [of a] \<open>\<And>a b. _ \<Longrightarrow> _ \<Longrightarrow> (L ! a, L ! b) \<in> imports_paths ge L\<close>
        by (meson rtrancl_into_rtrancl)
    qed
  qed
  have from_p: "q \<in> (!) L ` set ns" if "(p, q) \<in> (imports_paths ge L)\<^sup>*" for q
    using that
  proof (induction rule: rtrancl_induct)
    case base
    have "i \<in> set ns" using ns(3) by (metis list.set_intros(1))
    then show ?case using i by force
  next
    case (step q r)
    then obtain n where n: "n \<in> set ns" "q = L ! n" by auto
    from step(2) obtain a b where ab: "a < length L" "b \<in> set (ge_edges ge ! a)" "L ! a = q" "L ! b = r"
      by (auto simp: imports_paths_def imports_path_def)
    have "a = n" using ab(1,3) n lt g by (auto simp: path_graph_def nth_eq_iff_index_eq)
    then have "b \<in> set ns" using n(1) ab ns(2) wf(2) nodes.reach_step [of n "ge_edges ge" "{i}" b] by (simp add: succs_def at_def)
    with ab show ?case by auto
  qed
  have e: "imports_of ge p = Some ((!) L ` set (drop 1 ns))"
  proof -
    have "\<forall>n \<in> set (drop 1 ns). n < length L" using lt by (meson in_set_dropD)
    from node_paths_map [OF g this] Some ns(1) show ?thesis by (simp add: imports_of_def all_imported_nodes_def)
  qed
  have "set ns = insert i (set (drop 1 ns))" using ns(3) by (metis list.simps(15))
  with i have "(!) L ` set ns = insert p ((!) L ` set (drop 1 ns))" by auto
  with e to from_p show ?thesis by (intro that [OF e]) (auto dest: in_set_dropD)
qed

lemma resolved_nth:
  assumes "gr_nodes g = map (graph_node po) ns" and "k < length ns"
  shows "nd_path (node g k) = pn_path (ns ! k) \<and> nd_source (node g k) = pn_source (ns ! k)"
  using assms by (simp add: node_def graph_node_def)

lemma resolved_node:
  assumes "parse_sources po (make_absolute (pc_root cfg) sources) = Some inputs"
    and "built po fs cfg inputs st" and "rb_unresolved st = []"
    and "gr_edges g = rb_edges st" and "gr_nodes g = map (graph_node po) (rb_nodes st)"
    and un_g: "ge_unresolved_imports ge = rb_unresolved_imports st"
    and parent: "\<forall>p. p \<in> fst ` set (make_absolute (pc_root cfg) sources) \<or> po_read po p \<noteq> None \<longrightarrow> path_parent p \<noteq> None"
    and imp: "\<forall>nd \<in> set (rb_nodes st). po_imports po (pn_data nd) \<noteq> None"
    and k: "k < length (rb_nodes st)"
  shows "\<exists>d imports cwd. po_parse po (nd_source (node g k)) (nd_path (node g k)) = Some d \<and>
     po_imports po d = Some imports \<and> path_parent (nd_path (node g k)) = Some cwd \<and>
     map (\<lambda>i. nd_path (node g i)) (gr_edges g ! k) =
       List.map_filter (import_target po fs cfg (fst ` set (make_absolute (pc_root cfg) sources)) cwd) imports \<and>
     (\<forall>imp. (imp, nd_path (node g k)) \<in> ge_unresolved_imports ge \<longleftrightarrow>
        imp \<in> set imports \<and> import_target po fs cfg (fst ` set (make_absolute (pc_root cfg) sources)) cwd imp = None)"
proof -
  let ?N = "rb_nodes st" and ?ins = "fst ` set (make_absolute (pc_root cfg) sources)"
  let ?path = "\<lambda>i. nd_path (node g i)" and ?T = "node_targets po fs cfg (fst ` set (make_absolute (pc_root cfg) sources))"
  note inp = assms(1) and b = assms(2) and u = assms(3) and g = assms(4) assms(5)
  note i = inputs_parsed [OF inp]
  note nth = resolved_nth [OF g(2)]
  have paths: "all_paths st = map pn_path ?N" using u by (simp add: all_paths_def)
  have ind: "distinct (map pn_path ?N)" using b by (simp add: built_def indexed_def paths)
  let ?nd = "?N ! k"
  have orig: "?nd \<in> set inputs \<or> node_read po (pn_path ?nd) = Some ?nd" using b k by (auto simp: built_def u)
  then have parsed: "po_parse po (pn_source ?nd) (pn_path ?nd) = Some (pn_data ?nd)"
    using parse_sources_nodes [OF inp] node_read_parsed by blast
  from orig have "pn_path ?nd \<in> ?ins \<or> po_read po (pn_path ?nd) \<noteq> None"
    using i(2) by (auto simp: node_read_def split: option.splits)
  with parent obtain cwd where cwd: "path_parent (pn_path ?nd) = Some cwd" by blast
  obtain imps where imps: "po_imports po (pn_data ?nd) = Some imps" using imp k by fastforce
  have T: "?T ?nd = List.map_filter (import_target po fs cfg ?ins cwd) imps"
    by (simp add: node_targets_def node_imports_def cwd imps map_filter_map comp_def)
  have "refers (map pn_path ?N) (gr_edges g ! k) (?T ?nd)"
    using b k i(2) by (simp add: built_def paths g(1))
  then have e: "list_all (\<lambda>j. j < length ?N) (gr_edges g ! k)" "map (\<lambda>j. map pn_path ?N ! j) (gr_edges g ! k) = ?T ?nd"
    by (simp_all add: refers_def)
  have "map ?path (gr_edges g ! k) = map (\<lambda>j. map pn_path ?N ! j) (gr_edges g ! k)"
    using e(1) nth by (auto simp: list_all_iff)
  then have m: "map ?path (gr_edges g ! k) = List.map_filter (import_target po fs cfg ?ins cwd) imps"
    using e(2) T by simp
  have same: "nd = ?nd" if "nd \<in> set ?N" "pn_path nd = pn_path ?nd" for nd
    using ind k that by (metis distinct_map inj_on_def nth_mem)
  have un: "(imp, pn_path ?nd) \<in> ge_unresolved_imports ge \<longleftrightarrow> (imp, pn_path ?nd) \<in> node_unresolved po fs cfg ?ins ?nd" for imp
  proof -
    have "ge_unresolved_imports ge = (\<Union>nd \<in> set ?N. node_unresolved po fs cfg ?ins nd)"
      using b i(2) by (simp add: built_def un_g)
    moreover have "nd = ?nd" if "nd \<in> set ?N" "(imp, pn_path ?nd) \<in> node_unresolved po fs cfg ?ins nd" for nd
      using that same by (auto simp: node_unresolved_def)
    ultimately show ?thesis using k by (auto intro: nth_mem)
  qed
  have "(imp, pn_path ?nd) \<in> node_unresolved po fs cfg ?ins ?nd \<longleftrightarrow>
      imp \<in> set imps \<and> import_target po fs cfg ?ins cwd imp = None" for imp
    by (auto simp: node_unresolved_def node_imports_def cwd imps)
  with un parsed imps cwd m nth [OF k] show ?thesis by simp
qed

lemma resolved_importer:
  assumes "parse_sources po (make_absolute (pc_root cfg) sources) = Some inputs"
    and "built po fs cfg inputs st" and "rb_unresolved st = []"
    and "gr_edges g = rb_edges st" and "gr_nodes g = map (graph_node po) (rb_nodes st)"
    and k: "k < length (rb_nodes st)" and new: "nd_path (node g k) \<notin> fst ` set (make_absolute (pc_root cfg) sources)"
  shows "\<exists>j < length (rb_nodes st). k \<in> set (gr_edges g ! j)"
proof -
  let ?N = "rb_nodes st" and ?ins = "fst ` set (make_absolute (pc_root cfg) sources)"
  let ?path = "\<lambda>i. nd_path (node g i)" and ?T = "node_targets po fs cfg (fst ` set (make_absolute (pc_root cfg) sources))"
  note inp = assms(1) and b = assms(2) and u = assms(3) and g = assms(4) assms(5)
  note i = inputs_parsed [OF inp]
  note nth = resolved_nth [OF g(2)]
  have paths: "all_paths st = map pn_path ?N" using u by (simp add: all_paths_def)
  have ind: "distinct (map pn_path ?N)" using b by (simp add: built_def indexed_def paths)
  from new have "pn_path (?N ! k) \<notin> input_paths inputs" using nth [OF k] i(2) by simp
  then obtain nd where nd: "nd \<in> set ?N" "pn_path (?N ! k) \<in> set (?T nd)"
    using b k i(2) by (auto simp: built_def paths)
  then obtain j where j: "j < length ?N" "?N ! j = nd" by (auto simp: in_set_conv_nth)
  have "refers (map pn_path ?N) (gr_edges g ! j) (?T nd)"
    using b j i(2) by (auto simp: built_def paths g(1))
  then have ts: "?T nd = map ((!) (map pn_path ?N)) (gr_edges g ! j)" "\<forall>l \<in> set (gr_edges g ! j). l < length ?N"
    by (simp_all add: refers_def list_all_iff)
  from nd(2) obtain l where "l \<in> set (gr_edges g ! j)" "map pn_path ?N ! l = pn_path (?N ! k)"
    unfolding ts(1) by auto
  moreover from this(1) ts(2) have "l < length ?N" by blast
  ultimately have "l \<in> set (gr_edges g ! j)" "l = k"
    using nth_eq_iff_index_eq [OF ind, of l k] k by simp_all
  then show ?thesis using j(1) by blast
qed

text \<open>What a user of the graph and its files relies on.\<close>

lemma resolved_files:
  assumes fin: "finite {p. po_read po p \<noteq> None}"
    and parent: "\<forall>p. p \<in> fst ` set (make_absolute (pc_root cfg) sources) \<or> po_read po p \<noteq> None \<longrightarrow> path_parent p \<noteq> None"
    and r: "resolve_sources po fs cfg sources = Some (Inr (g, ge))"
  obtains srcs L where "into_sources (g, ge) = (srcs, ge)" and "path_graph ge L" and "bt_wf srcs" and "fst ` set srcs = set L"
    and "\<And>p s. bt_get (make_absolute (pc_root cfg) sources) p = Some s \<Longrightarrow> bt_get srcs p = Some s"
    and "\<And>p s. bt_get srcs p = Some s \<Longrightarrow> \<exists>d imports cwd. po_parse po s p = Some d \<and> po_imports po d = Some imports \<and>
      path_parent p = Some cwd \<and> (\<forall>imp \<in> set imports. \<forall>q.
        import_target po fs cfg (fst ` set (make_absolute (pc_root cfg) sources)) cwd imp = Some q \<longrightarrow> imports_path ge L p q)"
proof -
  from resolve_spec [OF fin parent, of fs, unfolded r option.case sum.case prod.case]
  obtain inputs st where inp: "parse_sources po (make_absolute (pc_root cfg) sources) = Some inputs"
    and b: "built po fs cfg inputs st" and u: "rb_unresolved st = []"
    and imp: "\<forall>nd \<in> set (rb_nodes st). po_imports po (pn_data nd) \<noteq> None"
    and g: "gr_edges g = rb_edges st" "gr_nodes g = map (graph_node po) (rb_nodes st)"
      "ge_edges ge = gr_edges g" "ge_unresolved_imports ge = rb_unresolved_imports st"
      "path_graph ge (map nd_path (gr_nodes g))" by blast
  note i = inputs_parsed [OF inp]
  define es where "es = map (\<lambda>n. (nd_path n, nd_source n)) (gr_nodes g)"
  have keys: "map fst es = map nd_path (gr_nodes g)" by (simp add: es_def comp_def)
  have d: "distinct (map fst es)" using g(5) unfolding keys by (simp add: path_graph_def)
  have get: "bt_get (bt_of_list es) p = Some s \<longleftrightarrow> (p, s) \<in> set es" for p s
    by (simp add: bt_get_of_distinct [OF d] d)
  have into: "into_sources (g, ge) = (bt_of_list es, ge)" by (simp add: into_sources_def es_def)
  have fstset: "fst ` set (bt_of_list es) = set (map nd_path (gr_nodes g))"
  proof -
    have "fst ` set (bt_of_list es) = dom (bt_get (bt_of_list es))" by (simp add: dom_map_of_conv_image_fst)
    also have "\<dots> = fst ` set es" by (simp add: bt_get_of_distinct [OF d] dom_map_of_conv_image_fst)
    also have "\<dots> = set (map nd_path (gr_nodes g))" using keys by (metis list.set_map)
    finally show ?thesis .
  qed
  show ?thesis
  proof (rule that [OF into g(5) bt_wf_of_list fstset])
    fix p s assume "bt_get (make_absolute (pc_root cfg) sources) p = Some s"
    then have "(p, s) \<in> set (make_absolute (pc_root cfg) sources)" by (rule map_of_SomeD)
    moreover have "set (make_absolute (pc_root cfg) sources) \<subseteq> set es"
      using b u i(3) by (auto simp: built_def prefix_def g(2) es_def simp flip: i(3))
    ultimately show "bt_get (bt_of_list es) p = Some s" unfolding get by blast
  next
    fix p s assume "bt_get (bt_of_list es) p = Some s"
    then have "(p, s) \<in> set es" by (simp only: get)
    then obtain k where k: "k < length (rb_nodes st)" "nd_path (node g k) = p" "nd_source (node g k) = s"
      unfolding es_def g(2) using resolved_nth [OF g(2)] by (auto simp: in_set_conv_nth)
    from resolved_node [OF inp b u g(1,2,4) parent imp k(1)] obtain d imps cwd where
      n: "po_parse po s p = Some d" "po_imports po d = Some imps" "path_parent p = Some cwd"
        "map (\<lambda>i. nd_path (node g i)) (gr_edges g ! k) =
          List.map_filter (import_target po fs cfg (fst ` set (make_absolute (pc_root cfg) sources)) cwd) imps"
      unfolding k(2,3) by blast
    have "imports_path ge (map nd_path (gr_nodes g)) p q"
      if im: "im \<in> set imps" "import_target po fs cfg (fst ` set (make_absolute (pc_root cfg) sources)) cwd im = Some q" for im q
    proof -
      have "q \<in> set (map (\<lambda>i. nd_path (node g i)) (gr_edges g ! k))"
        unfolding n(4) map_filter_mem using im by blast
      then obtain j where j: "j \<in> set (ge_edges ge ! k)" "nd_path (node g j) = q" unfolding g(3) by auto
      have "k < length (map nd_path (gr_nodes g))" using k(1) g(2) by simp
      with edge_in_range [OF g(5) this j(1)] j k(2) show ?thesis
        unfolding imports_path_def by (intro exI [of "\<lambda>i. \<exists>j. _ i j" k], intro exI [of _ j]) (auto simp: node_def)
    qed
    with n show "\<exists>d imports cwd. po_parse po s p = Some d \<and> po_imports po d = Some imports \<and>
      path_parent p = Some cwd \<and> (\<forall>imp \<in> set imports. \<forall>q.
        import_target po fs cfg (fst ` set (make_absolute (pc_root cfg) sources)) cwd imp = Some q \<longrightarrow>
        imports_path ge (map nd_path (gr_nodes g)) p q)" by blast
  qed
qed

section \<open>Properties\<close>


text \<open>Two files of which the first imports the second.\<close>

definition file_a :: path where "file_a = [RootDir, Normal ''p'', Normal ''A.sol'']"
definition file_b :: path where "file_b = [RootDir, Normal ''p'', Normal ''B.sol'']"

definition sample_parser :: "(nat, string) parser_ops" where
  "sample_parser = \<lparr>po_read = (\<lambda>p. if p = file_a then Some ''A'' else if p = file_b then Some ''B'' else None),
     po_parse = (\<lambda>s p. Some s), po_version_req = (\<lambda>_. None),
     po_imports = (\<lambda>d. Some (if d = ''A'' then [[CurDir, Normal ''B.sol'']] else [])), po_includes = (\<lambda>_. {})\<rparr>"

definition sample_fs :: fs where
  "sample_fs = \<lparr>fs_exists = (\<lambda>p. p = file_a \<or> p = file_b), fs_simplified = (\<lambda>p. p)\<rparr>"




end
