(* ===== verification/Compiler_Cache.thy ===== *)
theory Compiler_Cache
  imports Import_Resolution
begin

text \<open>
  The compiler cache file, \<open>CompilerCache\<close> and \<open>CacheEntry\<close> in
  \<open>crates/compilers/crates/compilers/src/cache.rs\<close>, with \<open>ProjectPaths\<close> of \<open>config.rs\<close>.  A file is
  one entry, with its artifacts by contract name, version and profile.  Reading and writing JSON
  is a parameter.
\<close>

section \<open>\<open>ProjectPaths\<close>\<close>

record ProjectPaths =
  pp_artifacts :: path
  pp_build_infos :: path
  pp_sources :: path
  pp_tests :: path
  pp_scripts :: path
  pp_libraries :: "path set"

definition project_paths :: "ProjectPathsConfig \<Rightarrow> ProjectPaths" where
  "project_paths cfg = \<lparr>pp_artifacts = pc_artifacts cfg, pp_build_infos = pc_build_infos cfg,
     pp_sources = pc_sources cfg, pp_tests = pc_tests cfg, pp_scripts = pc_scripts cfg,
     pp_libraries = set (pc_libraries cfg)\<rparr>"

definition paths_join_all :: "path \<Rightarrow> ProjectPaths \<Rightarrow> ProjectPaths" where
  "paths_join_all root pp = \<lparr>pp_artifacts = path_join root (pp_artifacts pp),
     pp_build_infos = path_join root (pp_build_infos pp), pp_sources = path_join root (pp_sources pp),
     pp_tests = path_join root (pp_tests pp), pp_scripts = path_join root (pp_scripts pp),
     pp_libraries = path_join root ` pp_libraries pp\<rparr>"

definition paths_strip_prefix_all :: "path \<Rightarrow> ProjectPaths \<Rightarrow> ProjectPaths" where
  "paths_strip_prefix_all base pp = \<lparr>pp_artifacts = strip_prefix (pp_artifacts pp) base,
     pp_build_infos = strip_prefix (pp_build_infos pp) base, pp_sources = strip_prefix (pp_sources pp) base,
     pp_tests = strip_prefix (pp_tests pp) base, pp_scripts = strip_prefix (pp_scripts pp) base,
     pp_libraries = (\<lambda>p. strip_prefix p base) ` pp_libraries pp\<rparr>"

definition paths_relative :: "ProjectPathsConfig \<Rightarrow> ProjectPaths" where
  "paths_relative cfg = paths_strip_prefix_all (pc_root cfg) (project_paths cfg)"

definition path_starts_with_rooted :: "path \<Rightarrow> path \<Rightarrow> path \<Rightarrow> bool" where
  "path_starts_with_rooted a b root \<longleftrightarrow>
     starts_with a b \<or> (case path_strip_prefix b root of Some b' \<Rightarrow> starts_with a b' | None \<Rightarrow> False)"

definition is_test :: "ProjectPathsConfig \<Rightarrow> path \<Rightarrow> bool" where
  "is_test cfg p = path_starts_with_rooted p (pc_tests cfg) (pc_root cfg)"

definition is_script :: "ProjectPathsConfig \<Rightarrow> path \<Rightarrow> bool" where
  "is_script cfg p = path_starts_with_rooted p (pc_scripts cfg) (pc_root cfg)"

definition is_test_or_script :: "ProjectPathsConfig \<Rightarrow> path \<Rightarrow> bool" where
  "is_test_or_script cfg p \<longleftrightarrow> is_test cfg p \<or> is_script cfg p"

definition is_source_file :: "ProjectPathsConfig \<Rightarrow> path \<Rightarrow> bool" where
  "is_source_file cfg p \<longleftrightarrow> \<not> is_test_or_script cfg p"

section \<open>\<open>CacheEntry\<close>\<close>

record CachedArtifact =
  ca_path :: path
  ca_build_id :: string

type_synonym 'v CachedArtifacts = "(string, ('v, (string, CachedArtifact) btree) btree) btree"

record 'v CacheEntry =
  en_last_modification_date :: "64 word"
  en_content_hash :: string
  en_interface_repr_hash :: "string option"
  en_source_name :: path
  en_imports :: "path set"
  en_version_requirement :: "string option"
  en_artifacts :: "'v CachedArtifacts"
  en_seen_by_compiler :: bool

definition map_values :: "('b \<Rightarrow> 'c) \<Rightarrow> ('k, 'b) btree \<Rightarrow> ('k, 'c) btree" where
  "map_values f m = map (\<lambda>(k, v). (k, f v)) m"

definition entry_find_artifact_path :: "'v CacheEntry \<Rightarrow> string \<Rightarrow> path option" where
  "entry_find_artifact_path e name =
     (case bt_get (en_artifacts e) name of
        Some ((_, (_, a) # _) # _) \<Rightarrow> Some (ca_path a)
      | _ \<Rightarrow> None)"

definition entry_contains :: "'v CacheEntry \<Rightarrow> 'v \<Rightarrow> string \<Rightarrow> bool" where
  "entry_contains e version profile \<longleftrightarrow>
     list_ex (\<lambda>artifacts. case bt_get artifacts version of
         None \<Rightarrow> False | Some by_profile \<Rightarrow> bt_get by_profile profile \<noteq> None)
       (map snd (en_artifacts e))"

definition artifacts_versions :: "'v CacheEntry \<Rightarrow> ('v \<times> string \<times> CachedArtifact) list" where
  "artifacts_versions e =
     concat (map (\<lambda>(_, by_version). concat (map (\<lambda>(v, by_profile). map (\<lambda>(p, a). (v, p, a)) by_profile) by_version))
       (en_artifacts e))"

definition find_artifact :: "'v CacheEntry \<Rightarrow> string \<Rightarrow> 'v \<Rightarrow> string \<Rightarrow> CachedArtifact option" where
  "find_artifact e contract version profile =
     (case bt_get (en_artifacts e) contract of None \<Rightarrow> None
      | Some files \<Rightarrow> (case bt_get files version of None \<Rightarrow> None | Some by_profile \<Rightarrow> bt_get by_profile profile))"

definition artifacts_for_version :: "'v CacheEntry \<Rightarrow> 'v \<Rightarrow> CachedArtifact list" where
  "artifacts_for_version e version = map (\<lambda>(_, _, a). a) (filter (\<lambda>(v, _, _). v = version) (artifacts_versions e))"

definition entry_artifacts :: "'v CacheEntry \<Rightarrow> CachedArtifact list" where
  "entry_artifacts e = map (\<lambda>(_, _, a). a) (artifacts_versions e)"

definition entry_all_artifacts_exist :: "fs \<Rightarrow> 'v CacheEntry \<Rightarrow> bool" where
  "entry_all_artifacts_exist fs e = list_all (\<lambda>a. fs_exists fs (ca_path a)) (entry_artifacts e)"

definition artifacts_mut :: "(CachedArtifact \<Rightarrow> CachedArtifact) \<Rightarrow> 'v CacheEntry \<Rightarrow> 'v CacheEntry" where
  "artifacts_mut f e = e\<lparr>en_artifacts := map_values (map_values (map_values f)) (en_artifacts e)\<rparr>"

definition entry_join_artifacts_files :: "path \<Rightarrow> 'v CacheEntry \<Rightarrow> 'v CacheEntry" where
  "entry_join_artifacts_files base = artifacts_mut (\<lambda>a. a\<lparr>ca_path := path_join base (ca_path a)\<rparr>)"

definition entry_strip_artifact_files_prefixes :: "path \<Rightarrow> 'v CacheEntry \<Rightarrow> 'v CacheEntry" where
  "entry_strip_artifact_files_prefixes base =
     artifacts_mut (\<lambda>a. case path_strip_prefix (ca_path a) base of None \<Rightarrow> a | Some rem \<Rightarrow> a\<lparr>ca_path := rem\<rparr>)"

text \<open>\<open>ArtifactFile\<close> of \<open>artifact_output\<close>, and the merge of written artifacts into an entry.\<close>

record ('v, 'a) ArtifactFile =
  af_artifact :: 'a
  af_file :: path
  af_version :: 'v
  af_build_id :: string
  af_profile :: string

definition or_default :: "('k, ('l \<times> 'b) list) btree \<Rightarrow> 'k \<Rightarrow> ('l \<times> 'b) list" where
  "or_default m k = (case bt_get m k of None \<Rightarrow> [] | Some v \<Rightarrow> v)"

definition merge_artifact :: "string \<Rightarrow> ('v::linorder, 'a) ArtifactFile \<Rightarrow> 'v CachedArtifacts \<Rightarrow> 'v CachedArtifacts" where
  "merge_artifact name f m =
     (let by_version = or_default m name;
          by_profile = or_default by_version (af_version f);
          by_profile = bt_insert (af_profile f) \<lparr>ca_path = af_file f, ca_build_id = af_build_id f\<rparr> by_profile
      in bt_insert name (bt_insert (af_version f) by_profile by_version) m)"

definition merge_artifacts :: "(string \<times> ('v::linorder, 'a) ArtifactFile list) list \<Rightarrow> 'v CacheEntry \<Rightarrow> 'v CacheEntry" where
  "merge_artifacts artifacts e =
     e\<lparr>en_artifacts := fold (\<lambda>(name, fs). fold (merge_artifact name) fs) artifacts (en_artifacts e)\<rparr>"

section \<open>\<open>CompilerCache\<close>\<close>

record ('v, 's) CompilerCache =
  cc_format :: string
  cc_paths :: ProjectPaths
  cc_files :: "(path, 'v CacheEntry) btree"
  cc_builds :: "string set"
  cc_profiles :: "(string, 's) btree"
  cc_preprocessed :: bool
  cc_mocks :: "path set"

definition compiler_cache_new :: "string \<Rightarrow> ProjectPaths \<Rightarrow> bool \<Rightarrow> ('v, 's) CompilerCache" where
  "compiler_cache_new fmt paths preprocessed =
     \<lparr>cc_format = fmt, cc_paths = paths, cc_files = [], cc_builds = {}, cc_profiles = [],
      cc_preprocessed = preprocessed, cc_mocks = {}\<rparr>"

definition cc_is_empty :: "('v, 's) CompilerCache \<Rightarrow> bool" where
  "cc_is_empty c \<longleftrightarrow> cc_files c = []"

definition cc_entry :: "('v, 's) CompilerCache \<Rightarrow> path \<Rightarrow> 'v CacheEntry option" where
  "cc_entry c p = bt_get (cc_files c) p"

definition cc_remove :: "path \<Rightarrow> ('v, 's) CompilerCache \<Rightarrow> ('v, 's) CompilerCache" where
  "cc_remove p c = c\<lparr>cc_files := bt_remove p (cc_files c)\<rparr>"

definition cc_len :: "('v, 's) CompilerCache \<Rightarrow> nat" where
  "cc_len c = length (cc_files c)"

definition cc_entries :: "('v, 's) CompilerCache \<Rightarrow> 'v CacheEntry list" where
  "cc_entries c = map snd (cc_files c)"

definition artifacts_len :: "('v, 's) CompilerCache \<Rightarrow> nat" where
  "artifacts_len c = sum_list (map (\<lambda>e. length (entry_artifacts e)) (cc_entries c))"

text \<open>The second value: the build info files that are deleted.\<close>

definition remove_outdated_builds :: "('v, 's) CompilerCache \<Rightarrow> ('v, 's) CompilerCache \<times> path set" where
  "remove_outdated_builds c =
     (let used = set (map ca_build_id (concat (map entry_artifacts (cc_entries c))));
          outdated = cc_builds c - used
      in (c\<lparr>cc_builds := cc_builds c - outdated\<rparr>,
          (\<lambda>id. path_with_extension (path_join (pp_build_infos (cc_paths c)) (components id)) ''json'') ` outdated))"

definition map_entries :: "('v CacheEntry \<Rightarrow> 'v CacheEntry) \<Rightarrow> ('v, 's) CompilerCache \<Rightarrow> ('v, 's) CompilerCache" where
  "map_entries f c = c\<lparr>cc_files := map_values f (cc_files c)\<rparr>"

definition map_paths :: "(path \<Rightarrow> path) \<Rightarrow> ('v, 's) CompilerCache \<Rightarrow> ('v, 's) CompilerCache" where
  "map_paths f c = c\<lparr>cc_files := bt_of_list (map (\<lambda>(p, e). (f p, e)) (cc_files c))\<rparr>"

definition join_entries :: "path \<Rightarrow> ('v, 's) CompilerCache \<Rightarrow> ('v, 's) CompilerCache" where
  "join_entries root = map_paths (path_join root)"

definition strip_entries_prefix :: "path \<Rightarrow> ('v, 's) CompilerCache \<Rightarrow> ('v, 's) CompilerCache" where
  "strip_entries_prefix base = map_paths (\<lambda>p. case path_strip_prefix p base of Some q \<Rightarrow> q | None \<Rightarrow> p)"

definition join_artifacts_files :: "path \<Rightarrow> ('v, 's) CompilerCache \<Rightarrow> ('v, 's) CompilerCache" where
  "join_artifacts_files base = map_entries (entry_join_artifacts_files base)"

definition strip_artifact_files_prefixes :: "path \<Rightarrow> ('v, 's) CompilerCache \<Rightarrow> ('v, 's) CompilerCache" where
  "strip_artifact_files_prefixes base = map_entries (entry_strip_artifact_files_prefixes base)"

definition remove_missing_files :: "fs \<Rightarrow> ('v, 's) CompilerCache \<Rightarrow> ('v, 's) CompilerCache" where
  "remove_missing_files fs c = c\<lparr>cc_files := bt_retain (\<lambda>p _. fs_exists fs p) (cc_files c)\<rparr>"

definition all_artifacts_exist :: "fs \<Rightarrow> ('v, 's) CompilerCache \<Rightarrow> bool" where
  "all_artifacts_exist fs c = list_all (entry_all_artifacts_exist fs) (cc_entries c)"

definition with_stripped_file_prefixes :: "path \<Rightarrow> ('v, 's) CompilerCache \<Rightarrow> ('v, 's) CompilerCache" where
  "with_stripped_file_prefixes base = map_paths (\<lambda>p. source_name p base)"

definition find_artifact_path :: "('v, 's) CompilerCache \<Rightarrow> path \<Rightarrow> string \<Rightarrow> path option" where
  "find_artifact_path c p name = (case cc_entry c p of None \<Rightarrow> None | Some e \<Rightarrow> entry_find_artifact_path e name)"

text \<open>What \<open>consume\<close> writes, and \<open>read_joined\<close> on what was read.\<close>

definition prepare_write :: "path \<Rightarrow> path \<Rightarrow> ('v, 's) CompilerCache \<Rightarrow> ('v, 's) CompilerCache" where
  "prepare_write root artifacts c = strip_artifact_files_prefixes artifacts (strip_entries_prefix root c)"

definition read_joined :: "('v, 's) CompilerCache option \<Rightarrow> ProjectPathsConfig \<Rightarrow> ('v, 's) CompilerCache option" where
  "read_joined read cfg = map_option (\<lambda>c. join_artifacts_files (pc_artifacts cfg) (join_entries (pc_root cfg) c)) read"

section \<open>Facts\<close>

lemma map_values_keys [simp]: "map fst (map_values f m) = map fst m"
  by (induction m) (auto simp: map_values_def)

lemma bt_wf_map_values [wf_intros]: "bt_wf m \<Longrightarrow> bt_wf (map_values f m)"
  by (simp add: bt_wf_def)

lemma bt_get_map_values [simp]: "bt_get (map_values f m) k = map_option f (bt_get m k)"
  by (induction m) (auto simp: map_values_def)

lemma map_values_comp [simp]: "map_values f (map_values g m) = map_values (f \<circ> g) m"
  by (auto simp: map_values_def)

lemma map_values_id: "(\<And>k v. (k, v) \<in> set m \<Longrightarrow> f v = v) \<Longrightarrow> map_values f m = m"
  by (induction m) (auto simp: map_values_def)

text \<open>An absolute path comes back when a base is stripped and joined again, below the base or not.\<close>

definition absolute :: "path \<Rightarrow> bool" where
  "absolute p \<longleftrightarrow> path_wf p \<and> has_root p"

lemma strip_prefix_rel:
  assumes a: "absolute p"
  shows "path_join base (strip_prefix p base) = p"
proof (cases "path_strip_prefix p base")
  case None
  then show ?thesis using a by (simp add: strip_prefix_def absolute_def path_join_def)
next
  case (Some r)
  then have p: "p = base @ r" by (simp add: strip_prefix_iff)
  show ?thesis
  proof (cases "base = []")
    case True
    then show ?thesis using a by (simp add: strip_prefix_def absolute_def path_join_def)
  next
    case False
    then have "list_all body_component r" using a p by (cases base) (auto simp: absolute_def path_wf_def)
    then show ?thesis using False Some p by (simp add: strip_prefix_def join_relative)
  qed
qed

lemma entry_artifacts_mem:
  "a \<in> set (entry_artifacts e) \<longleftrightarrow>
     (\<exists>name by_version v by_profile prof. (name, by_version) \<in> set (en_artifacts e) \<and>
        (v, by_profile) \<in> set by_version \<and> (prof, a) \<in> set by_profile)"
  unfolding entry_artifacts_def artifacts_versions_def
  by (auto simp: image_iff) blast+

lemma artifacts_mut_comp: "artifacts_mut f (artifacts_mut g e) = artifacts_mut (f \<circ> g) e"
  by (simp add: artifacts_mut_def comp_def)

lemma artifacts_mut_id: "(\<And>a. a \<in> set (entry_artifacts e) \<Longrightarrow> f a = a) \<Longrightarrow> artifacts_mut f e = e"
proof -
  assume f: "\<And>a. a \<in> set (entry_artifacts e) \<Longrightarrow> f a = a"
  have "map_values (map_values (map_values f)) (en_artifacts e) = en_artifacts e"
    by (intro map_values_id f) (simp add: entry_artifacts_mem, blast)
  then show ?thesis by (simp add: artifacts_mut_def)
qed

lemma strip_entries_prefix_alt: "strip_entries_prefix base = map_paths (\<lambda>p. strip_prefix p base)"
  by (simp add: strip_entries_prefix_def strip_prefix_def)

lemma entry_strip_alt:
  "entry_strip_artifact_files_prefixes base = artifacts_mut (\<lambda>a. a\<lparr>ca_path := strip_prefix (ca_path a) base\<rparr>)"
  unfolding entry_strip_artifact_files_prefixes_def
  by (intro arg_cong [where f = artifacts_mut] ext) (simp add: strip_prefix_def split: option.split)

lemma entry_paths_roundtrip:
  assumes "\<And>a. a \<in> set (entry_artifacts e) \<Longrightarrow> absolute (ca_path a)"
  shows "entry_join_artifacts_files base (entry_strip_artifact_files_prefixes base e) = e"
  unfolding entry_join_artifacts_files_def entry_strip_alt artifacts_mut_comp
  by (rule artifacts_mut_id) (simp add: assms strip_prefix_rel)

text \<open>Renaming the keys of a map by an injection and back.\<close>

lemma bt_rename_roundtrip:
  assumes wf: "bt_wf m" and inv: "\<And>k. k \<in> fst ` set m \<Longrightarrow> g (f k) = k"
  shows "bt_of_list (map (\<lambda>(k, v). (g k, v)) (bt_of_list (map (\<lambda>(k, v). (f k, v)) m))) = m"
proof -
  let ?r = "bt_of_list (map (\<lambda>(k, v). (f k, v)) m)"
  have d: "distinct (map fst m)" using wf by (rule bt_wf_distinct)
  have "inj_on f (fst ` set m)" by (rule inj_on_inverseI [of _ g]) (rule inv)
  then have df: "distinct (map fst (map (\<lambda>(k, v). (f k, v)) m))"
    using d by (simp add: case_prod_beta comp_def distinct_map inj_on_def)
  have r: "bt_wf ?r" by (rule bt_wf_of_list)
  have sr: "set ?r = (\<lambda>(k, v). (f k, v)) ` set m"
    using map_of_inject_set [OF bt_wf_distinct [OF r] df] bt_get_of_distinct [OF df] by simp
  have set2: "set (map (\<lambda>(k, v). (g k, v)) ?r) = set m"
  proof -
    have "(\<lambda>(k, v). (g k, v)) ` (\<lambda>(k, v). (f k, v)) ` set m = (\<lambda>e. e) ` set m"
      unfolding image_image by (rule image_cong) (auto simp: inv rev_image_eqI)
    then show ?thesis by (simp add: sr)
  qed
  have dg: "distinct (map fst (map (\<lambda>(k, v). (g k, v)) ?r))"
  proof -
    have "inj_on g (fst ` set ?r)"
      unfolding sr by (auto simp: inj_on_def inv rev_image_eqI)
    then show ?thesis using bt_wf_distinct [OF r]
      by (simp add: case_prod_beta comp_def distinct_map inj_on_def)
  qed
  show ?thesis
  proof (rule bt_eqI [OF bt_wf_of_list wf])
    show "bt_get (bt_of_list (map (\<lambda>(k, v). (g k, v)) ?r)) = bt_get m"
      unfolding bt_get_of_distinct [OF dg] using map_of_inject_set [OF dg d] set2 by blast
  qed
qed

lemma map_values_simps [simp]: "map_values f [] = []" "map_values f ((k, v) # m) = (k, f v) # map_values f m"
  by (simp_all add: map_values_def)

lemma bt_insert_map_values: "bt_insert k (h v) (map_values h m) = map_values h (bt_insert k v m)"
  by (induction k v m rule: bt_insert.induct) simp_all

lemma bt_of_list_map_values:
  "bt_of_list (map (\<lambda>(k, v). (f k, v)) (map_values h m)) = map_values h (bt_of_list (map (\<lambda>(k, v). (f k, v)) m))"
proof -
  have "fold (\<lambda>(k, v). bt_insert k v) (map (\<lambda>(k, v). (f k, v)) (map_values h m)) (map_values h a) =
      map_values h (fold (\<lambda>(k, v). bt_insert k v) (map (\<lambda>(k, v). (f k, v)) m) a)" for a
    by (induction m arbitrary: a) (auto simp: bt_insert_map_values)
  from this [of "[]"] show ?thesis by (simp add: bt_of_list_def)
qed

section \<open>Properties\<close>


definition sample_entry :: "nat CacheEntry" where
  "sample_entry = \<lparr>en_last_modification_date = 0, en_content_hash = ''h'', en_interface_repr_hash = None,
     en_source_name = [Normal ''src'', Normal ''A.sol''], en_imports = {}, en_version_requirement = None,
     en_artifacts = [(''A'', [(8, [(''default'', \<lparr>ca_path = [RootDir, Normal ''out'', Normal ''A.json''], ca_build_id = ''b''\<rparr>)])])],
     en_seen_by_compiler = True\<rparr>"

definition sample_cache :: "(nat, unit) CompilerCache" where
  "sample_cache = (compiler_cache_new [] (project_paths sample_config) False)
     \<lparr>cc_files := [([RootDir, Normal ''p'', Normal ''src'', Normal ''A.sol''], sample_entry)]\<rparr>"


lemma find_artifact_merge_artifact:
  "find_artifact (e\<lparr>en_artifacts := merge_artifact n f m\<rparr>) name v profile =
     (if n = name \<and> af_version f = v \<and> af_profile f = profile
      then Some \<lparr>ca_path = af_file f, ca_build_id = af_build_id f\<rparr>
      else find_artifact (e\<lparr>en_artifacts := m\<rparr>) name v profile)"
  by (auto simp: find_artifact_def merge_artifact_def or_default_def Let_def split: option.splits)

lemma find_artifact_merge_fold:
  "find_artifact (e\<lparr>en_artifacts := fold (\<lambda>(n, f). merge_artifact n f) fs m\<rparr>) name v profile =
     (case find (\<lambda>(n, f). n = name \<and> af_version f = v \<and> af_profile f = profile) (rev fs) of
        Some (_, f) \<Rightarrow> Some \<lparr>ca_path = af_file f, ca_build_id = af_build_id f\<rparr>
      | None \<Rightarrow> find_artifact (e\<lparr>en_artifacts := m\<rparr>) name v profile)"
proof (induction fs rule: rev_induct)
  case (snoc x fs)
  then show ?case by (cases x) (simp add: find_artifact_merge_artifact)
qed simp

lemma find_artifact_same: "find_artifact (e\<lparr>en_artifacts := en_artifacts e\<rparr>) = find_artifact e"
  by (simp add: find_artifact_def fun_eq_iff)

lemma merge_artifacts_flat:
  "fold (\<lambda>(name, fs). fold (merge_artifact name) fs) arts m =
   fold (\<lambda>(n, f). merge_artifact n f) (concat (map (\<lambda>(n, fs). map (Pair n) fs) arts)) m"
  by (induction arts arbitrary: m) (auto simp: fold_map comp_def)

text \<open>
  Merging compiled artifacts into an entry: looking up a contract, version and profile finds
  the path and build id of the last merged artifact for exactly these three, and what the entry
  had before for every other triple.
\<close>

theorem merge_artifacts_find:
  "find_artifact (merge_artifacts arts e) name v profile =
     (case find (\<lambda>(n, f). n = name \<and> af_version f = v \<and> af_profile f = profile)
        (rev (concat (map (\<lambda>(n, fs). map (Pair n) fs) arts))) of
        Some (_, f) \<Rightarrow> Some \<lparr>ca_path = af_file f, ca_build_id = af_build_id f\<rparr>
      | None \<Rightarrow> find_artifact e name v profile)"
  unfolding merge_artifacts_def merge_artifacts_flat find_artifact_merge_fold find_artifact_same ..

end
