(* ===== verification/Compile_Output.thy ===== *)
theory Compile_Output
  imports Core_Utils Import_Resolution "HOL-Library.Multiset"
begin

text \<open>
  What the compilers returned: \<open>VersionedContracts\<close> and \<open>VersionedSourceFiles\<close>
  (\<open>compile/output/contracts.rs\<close>, \<open>sources.rs\<close>), the severity of messages (\<open>artifacts/solc/src/error.rs\<close>)
  and \<open>AggregatedCompilerOutput\<close> (\<open>compile/output/mod.rs\<close>), with the rules by which a run fails.
  A map from files to maps from names to lists is the type \<open>file_map\<close>; contracts, artifacts and
  sources of the code are instances of it.
\<close>

section \<open>Maps from files to named lists\<close>

type_synonym 'x file_map = "(path, (string, 'x list) btree) btree"

text \<open>All elements with their file and name, in iteration order.\<close>

definition fm_elements :: "'x file_map \<Rightarrow> (path \<times> string \<times> 'x) list" where
  "fm_elements m = concat (map (\<lambda>(file, by_name). concat (map (\<lambda>(name, xs). map (\<lambda>x. (file, name, x)) xs) by_name)) m)"

text \<open>\<open>remove_entry\<close>, \<open>remove(0)\<close>, and the rest put back unless it is empty.\<close>

definition pop_name :: "string \<Rightarrow> (string, 'x list) btree \<Rightarrow> 'x option \<times> (string, 'x list) btree" where
  "pop_name name m =
     (case bt_get m name of
        None \<Rightarrow> (None, m)
      | Some [] \<Rightarrow> (None, bt_remove name m)
      | Some (x # xs) \<Rightarrow> (Some x, if xs = [] then bt_remove name m else bt_insert name xs (bt_remove name m)))"

text \<open>\<open>find_map\<close> over the files that pass the filter: the first that gives a value stops the walk.\<close>

fun pop_find :: "(path \<Rightarrow> bool) \<Rightarrow> string \<Rightarrow> 'x file_map \<Rightarrow> 'x option \<times> 'x file_map" where
  "pop_find p name [] = (None, [])"
| "pop_find p name ((file, by_name) # m) =
     (if p file then
        (case pop_name name by_name of
           (Some x, by_name') \<Rightarrow> (Some x, (file, by_name') # m)
         | (None, by_name') \<Rightarrow> let (r, m') = pop_find p name m in (r, (file, by_name') # m'))
      else let (r, m') = pop_find p name m in (r, (file, by_name) # m'))"

definition fm_push :: "path \<Rightarrow> string \<Rightarrow> 'x \<Rightarrow> 'x file_map \<Rightarrow> 'x file_map" where
  "fm_push file name x m =
     (let by_name = (case bt_get m file of None \<Rightarrow> [] | Some b \<Rightarrow> b);
          xs = (case bt_get by_name name of None \<Rightarrow> [] | Some xs \<Rightarrow> xs)
      in bt_insert file (bt_insert name (xs @ [x]) by_name) m)"

text \<open>What holds of every such map: keys in order at both levels.\<close>

definition fm_wf :: "'x file_map \<Rightarrow> bool" where
  "fm_wf m \<longleftrightarrow> bt_wf m \<and> (\<forall>(file, by_name) \<in> set m. bt_wf by_name)"

section \<open>\<open>VersionedContracts\<close>\<close>

record ('k, 'v) VersionedContract =
  vc_contract :: 'k
  vc_version :: 'v
  vc_build_id :: string
  vc_profile :: string

type_synonym ('k, 'v) VersionedContracts = "('k, 'v) VersionedContract file_map"

definition vcs_is_empty :: "('k, 'v) VersionedContracts \<Rightarrow> bool" where
  "vcs_is_empty m \<longleftrightarrow> m = []"

definition vcs_len :: "('k, 'v) VersionedContracts \<Rightarrow> nat" where
  "vcs_len m = length m"

definition vcs_files :: "('k, 'v) VersionedContracts \<Rightarrow> path list" where
  "vcs_files m = map fst m"

definition vcs_contracts :: "('k, 'v) VersionedContracts \<Rightarrow> (string \<times> 'k) list" where
  "vcs_contracts m = map (\<lambda>(_, name, c). (name, vc_contract c)) (fm_elements m)"

definition contracts_with_files :: "('k, 'v) VersionedContracts \<Rightarrow> (path \<times> string \<times> 'k) list" where
  "contracts_with_files m = map (\<lambda>(file, name, c). (file, name, vc_contract c)) (fm_elements m)"

definition contracts_with_files_and_version :: "('k, 'v) VersionedContracts \<Rightarrow> (path \<times> string \<times> 'k \<times> 'v) list" where
  "contracts_with_files_and_version m = map (\<lambda>(file, name, c). (file, name, vc_contract c, vc_version c)) (fm_elements m)"

definition vcs_find_first :: "('k, 'v) VersionedContracts \<Rightarrow> string \<Rightarrow> 'k option" where
  "vcs_find_first m contract_name = map_option snd (find (\<lambda>(name, _). name = contract_name) (vcs_contracts m))"

definition vcs_find :: "('k, 'v) VersionedContracts \<Rightarrow> path \<Rightarrow> string \<Rightarrow> 'k option" where
  "vcs_find m contract_path contract_name =
     map_option (\<lambda>(_, _, c). c)
       (find (\<lambda>(p, name, _). p = contract_path \<and> name = contract_name) (contracts_with_files m))"

definition vcs_remove_first :: "string \<Rightarrow> ('k, 'v) VersionedContracts \<Rightarrow> 'k option \<times> ('k, 'v) VersionedContracts" where
  "vcs_remove_first contract_name m =
     (let (r, m') = pop_find (\<lambda>_. True) contract_name m in (map_option vc_contract r, m'))"

definition vcs_remove :: "path \<Rightarrow> string \<Rightarrow> ('k, 'v) VersionedContracts \<Rightarrow> 'k option \<times> ('k, 'v) VersionedContracts" where
  "vcs_remove p contract_name m =
     (case bt_get m p of
        None \<Rightarrow> (None, m)
      | Some all_contracts \<Rightarrow>
          let m0 = bt_remove p m;
              (contract, all') = pop_name contract_name all_contracts
          in (map_option vc_contract contract, if all' = [] then m0 else bt_insert p all' m0))"

definition vcs_get :: "('k, 'v) VersionedContracts \<Rightarrow> path \<Rightarrow> string \<Rightarrow> 'k option" where
  "vcs_get m p contract =
     (case bt_get m p of None \<Rightarrow> None | Some contracts \<Rightarrow>
        (case bt_get contracts contract of Some (c # _) \<Rightarrow> Some (vc_contract c) | _ \<Rightarrow> None))"

definition vcs_join_all :: "path \<Rightarrow> ('k, 'v) VersionedContracts \<Rightarrow> ('k, 'v) VersionedContracts" where
  "vcs_join_all root m = bt_of_list (map (\<lambda>(p, c). (path_join root p, c)) m)"

definition vcs_strip_prefix_all :: "path \<Rightarrow> ('k, 'v) VersionedContracts \<Rightarrow> ('k, 'v) VersionedContracts" where
  "vcs_strip_prefix_all base m = bt_of_list (map (\<lambda>(p, c). (strip_prefix p base, c)) m)"

section \<open>\<open>VersionedSourceFiles\<close>\<close>

text \<open>\<open>SourceFile\<close>: of the syntax tree, the types of its top-level nodes.\<close>

record 'n SourceFile =
  sf_id :: "32 word"
  sf_ast :: "'n list option"

definition contains_contract_definition :: "('n \<Rightarrow> bool) \<Rightarrow> 'n SourceFile \<Rightarrow> bool" where
  "contains_contract_definition is_contract f \<longleftrightarrow>
     (case sf_ast f of None \<Rightarrow> False | Some nodes \<Rightarrow> list_ex is_contract nodes)"

record ('n, 'v) VersionedSourceFile =
  vf_source_file :: "'n SourceFile"
  vf_version :: 'v
  vf_build_id :: string
  vf_profile :: string

type_synonym ('n, 'v) VersionedSourceFiles = "(path, ('n, 'v) VersionedSourceFile list) btree"

definition vsf_all :: "('n, 'v) VersionedSourceFiles \<Rightarrow> (path \<times> ('n, 'v) VersionedSourceFile) list" where
  "vsf_all m = concat (map (\<lambda>(p, sources). map (Pair p) sources) m)"

definition sources_list :: "('n, 'v) VersionedSourceFiles \<Rightarrow> (path \<times> 'n SourceFile) list" where
  "sources_list m = map (\<lambda>(p, s). (p, vf_source_file s)) (vsf_all m)"

definition sources_with_version :: "('n, 'v) VersionedSourceFiles \<Rightarrow> (path \<times> 'n SourceFile \<times> 'v) list" where
  "sources_with_version m = map (\<lambda>(p, s). (p, vf_source_file s, vf_version s)) (vsf_all m)"

definition find_file :: "('n, 'v) VersionedSourceFiles \<Rightarrow> path \<Rightarrow> 'n SourceFile option" where
  "find_file m p = map_option snd (find (\<lambda>(q, _). q = p) (sources_list m))"

definition find_file_and_version :: "('n, 'v) VersionedSourceFiles \<Rightarrow> path \<Rightarrow> 'v \<Rightarrow> 'n SourceFile option" where
  "find_file_and_version m p version =
     (case bt_get m p of None \<Rightarrow> None
      | Some sources \<Rightarrow> map_option vf_source_file (find (\<lambda>s. vf_version s = version) sources))"

definition find_id :: "('n, 'v) VersionedSourceFiles \<Rightarrow> 32 word \<Rightarrow> 'n SourceFile option" where
  "find_id m i = map_option snd (find (\<lambda>(_, s). sf_id s = i) (sources_list m))"

definition find_id_and_version :: "('n, 'v) VersionedSourceFiles \<Rightarrow> 32 word \<Rightarrow> 'v \<Rightarrow> 'n SourceFile option" where
  "find_id_and_version m i version =
     map_option (\<lambda>(_, s, _). s) (find (\<lambda>(_, s, v). sf_id s = i \<and> v = version) (sources_with_version m))"

definition into_ids :: "('n, 'v) VersionedSourceFiles \<Rightarrow> (32 word \<times> path) list" where
  "into_ids m = map (\<lambda>(p, s). (sf_id s, p)) (sources_list m)"

definition remove_by_path :: "path \<Rightarrow> ('n, 'v) VersionedSourceFiles \<Rightarrow> 'n SourceFile option \<times> ('n, 'v) VersionedSourceFiles" where
  "remove_by_path p m =
     (case bt_get m p of
        Some (s # rest) \<Rightarrow> (Some (vf_source_file s), bt_insert p rest m)
      | _ \<Rightarrow> (None, m))"

text \<open>\<open>position\<close> and \<open>remove\<close> in one list.\<close>

fun remove_pos :: "('x \<Rightarrow> bool) \<Rightarrow> 'x list \<Rightarrow> ('x \<times> 'x list) option" where
  "remove_pos p [] = None"
| "remove_pos p (x # xs) =
     (if p x then Some (x, xs) else map_option (\<lambda>(y, ys). (y, x # ys)) (remove_pos p xs))"

fun remove_by_id :: "32 word \<Rightarrow> ('n, 'v) VersionedSourceFiles \<Rightarrow> 'n SourceFile option \<times> ('n, 'v) VersionedSourceFiles" where
  "remove_by_id i [] = (None, [])"
| "remove_by_id i ((p, sources) # m) =
     (case remove_pos (\<lambda>s. sf_id (vf_source_file s) = i) sources of
        Some (s, rest) \<Rightarrow> (Some (vf_source_file s), (p, rest) # m)
      | None \<Rightarrow> let (r, m') = remove_by_id i m in (r, (p, sources) # m'))"

definition vsf_join_all :: "path \<Rightarrow> ('n, 'v) VersionedSourceFiles \<Rightarrow> ('n, 'v) VersionedSourceFiles" where
  "vsf_join_all root m = bt_of_list (map (\<lambda>(p, s). (path_join root p, s)) m)"

definition vsf_strip_prefix_all :: "path \<Rightarrow> ('n, 'v) VersionedSourceFiles \<Rightarrow> ('n, 'v) VersionedSourceFiles" where
  "vsf_strip_prefix_all base m = bt_of_list (map (\<lambda>(p, s). (strip_prefix p base, s)) m)"

section \<open>Messages and their severity\<close>

datatype Severity = Error | Warning | Info

text \<open>The derived order of the Rust enum, that of its constructors.\<close>

fun severity_rank :: "Severity \<Rightarrow> nat" where
  "severity_rank Error = 0" | "severity_rank Warning = 1" | "severity_rank Info = 2"

instantiation Severity :: linorder
begin

definition less_eq_Severity :: "Severity \<Rightarrow> Severity \<Rightarrow> bool" where
  "less_eq_Severity a b \<longleftrightarrow> severity_rank a \<le> severity_rank b"

definition less_Severity :: "Severity \<Rightarrow> Severity \<Rightarrow> bool" where
  "less_Severity a b \<longleftrightarrow> severity_rank a < severity_rank b"

instance
proof
  fix a b c :: Severity
  show "a < b \<longleftrightarrow> a \<le> b \<and> \<not> b \<le> a" by (auto simp: less_eq_Severity_def less_Severity_def)
  show "a \<le> a" by (simp add: less_eq_Severity_def)
  show "a \<le> b \<Longrightarrow> b \<le> c \<Longrightarrow> a \<le> c" by (simp add: less_eq_Severity_def)
  show "a \<le> b \<Longrightarrow> b \<le> a \<Longrightarrow> a = b" by (cases a; cases b) (simp_all add: less_eq_Severity_def)
  show "a \<le> b \<or> b \<le> a" by (auto simp: less_eq_Severity_def)
qed

end

fun severity_as_str :: "Severity \<Rightarrow> string" where
  "severity_as_str Error = ''Error''" | "severity_as_str Warning = ''Warning''" | "severity_as_str Info = ''Info''"

definition severity_from_str :: "string \<Rightarrow> (string, Severity) result" where
  "severity_from_str s =
     (if s = ''Error'' \<or> s = ''error'' then Inr Error
      else if s = ''Warning'' \<or> s = ''warning'' then Inr Warning
      else if s = ''Info'' \<or> s = ''info'' then Inr Info
      else Inl (''Invalid severity: '' @ s))"

record SourceLocation =
  sl_file :: string
  sl_start :: "32 word"
  sl_end :: "32 word"

text \<open>The solc error; the fields that only the formatting reads are in \<open>Error_Display\<close>.\<close>

record CompilationError =
  ce_source_location :: "SourceLocation option"
  ce_severity :: Severity
  ce_error_code :: "64 word option"
  ce_message :: string
  ce_formatted_message :: "string option"

definition is_error :: "CompilationError \<Rightarrow> bool" where
  "is_error e \<longleftrightarrow> ce_severity e = Error"

definition is_warning :: "CompilationError \<Rightarrow> bool" where
  "is_warning e \<longleftrightarrow> ce_severity e = Warning"

section \<open>\<open>AggregatedCompilerOutput\<close>\<close>

record ('k, 'n) CompilerOutput =
  co_errors :: "CompilationError list"
  co_contracts :: "(path, (string, 'k) btree) btree"
  co_sources :: "(path, 'n SourceFile) btree"

record 'l BuildContext =
  bc_source_id_to_path :: "(32 word, path) btree"
  bc_language :: 'l

record 'l RawBuildInfo =
  rbi_id :: string
  rbi_build_context :: "'l BuildContext"

record ('k, 'n, 'v, 'l) AggregatedCompilerOutput =
  ag_errors :: "CompilationError list"
  ag_sources :: "('n, 'v) VersionedSourceFiles"
  ag_contracts :: "('k, 'v) VersionedContracts"
  ag_build_infos :: "'l RawBuildInfo list"

definition build_context_new :: "path set \<Rightarrow> 'l \<Rightarrow> ('k, 'n) CompilerOutput \<Rightarrow> 'l BuildContext" where
  "build_context_new input_sources language output =
     \<lparr>bc_source_id_to_path = fold (\<lambda>(p, source) m. if p \<in> input_sources then bt_insert (sf_id source) p m else m)
        (co_sources output) [], bc_language = language\<rparr>"

definition build_context_join_all :: "path \<Rightarrow> 'l BuildContext \<Rightarrow> 'l BuildContext" where
  "build_context_join_all root b =
     b\<lparr>bc_source_id_to_path := map (\<lambda>(i, p). (i, path_join root p)) (bc_source_id_to_path b)\<rparr>"

text \<open>Paths are compared in lower case: solc does not always give back the exact file name.\<close>

definition retain_files :: "path list \<Rightarrow> ('k, 'n) CompilerOutput \<Rightarrow> ('k, 'n) CompilerOutput" where
  "retain_files files output =
     (let names = (\<lambda>p. to_lowercase (path_text p)) ` set files
      in output\<lparr>co_contracts := bt_retain (\<lambda>f _. to_lowercase (path_text f) \<in> names) (co_contracts output),
                co_sources := bt_retain (\<lambda>f _. to_lowercase (path_text f) \<in> names) (co_sources output)\<rparr>)"

definition bt_extend :: "('k::linorder, 'b) btree \<Rightarrow> ('k, 'b) btree \<Rightarrow> ('k, 'b) btree" where
  "bt_extend m other = fold (\<lambda>(k, v). bt_insert k v) other m"

definition output_merge :: "('k, 'n) CompilerOutput \<Rightarrow> ('k, 'n) CompilerOutput \<Rightarrow> ('k, 'n) CompilerOutput" where
  "output_merge output other =
     output\<lparr>co_errors := co_errors output @ co_errors other,
            co_contracts := bt_extend (co_contracts output) (co_contracts other),
            co_sources := bt_extend (co_sources output) (co_sources other)\<rparr>"

definition output_join_all :: "path \<Rightarrow> ('k, 'n) CompilerOutput \<Rightarrow> ('k, 'n) CompilerOutput" where
  "output_join_all root output =
     output\<lparr>co_contracts := bt_of_list (map (\<lambda>(p, c). (path_join root p, c)) (co_contracts output)),
            co_sources := bt_of_list (map (\<lambda>(p, s). (path_join root p, s)) (co_sources output))\<rparr>"

definition ag_is_empty :: "('k, 'n, 'v, 'l) AggregatedCompilerOutput \<Rightarrow> bool" where
  "ag_is_empty a \<longleftrightarrow> vcs_is_empty (ag_contracts a)"

definition ag_is_unchanged :: "('k, 'n, 'v, 'l) AggregatedCompilerOutput \<Rightarrow> bool" where
  "ag_is_unchanged a \<longleftrightarrow> vcs_is_empty (ag_contracts a) \<and> ag_errors a = []"

definition push_source :: "'v \<Rightarrow> string \<Rightarrow> string \<Rightarrow> path \<times> 'n SourceFile
    \<Rightarrow> ('n, 'v) VersionedSourceFiles \<Rightarrow> ('n, 'v) VersionedSourceFiles" where
  "push_source version build_id profile = (\<lambda>(p, f) m.
     bt_insert p ((case bt_get m p of None \<Rightarrow> [] | Some fs \<Rightarrow> fs) @
       [\<lparr>vf_source_file = f, vf_version = version, vf_build_id = build_id, vf_profile = profile\<rparr>]) m)"

definition versioned_contract :: "'v \<Rightarrow> string \<Rightarrow> string \<Rightarrow> 'k \<Rightarrow> ('k, 'v) VersionedContract" where
  "versioned_contract version build_id profile k =
     \<lparr>vc_contract = k, vc_version = version, vc_build_id = build_id, vc_profile = profile\<rparr>"

text \<open>A file is entered even when the output has no contract for it: \<open>entry(file).or_default()\<close>.\<close>

definition push_contracts :: "'v \<Rightarrow> string \<Rightarrow> string \<Rightarrow> path \<times> (string, 'k) btree
    \<Rightarrow> ('k, 'v) VersionedContracts \<Rightarrow> ('k, 'v) VersionedContracts" where
  "push_contracts version build_id profile = (\<lambda>(file, new_contracts) m.
     fold (\<lambda>(name, contract). fm_push file name (versioned_contract version build_id profile contract)) new_contracts
       (if bt_get m file = None then bt_insert file [] m else m))"

definition ag_extend :: "'v \<Rightarrow> 'l RawBuildInfo \<Rightarrow> string \<Rightarrow> ('k, 'n) CompilerOutput
    \<Rightarrow> ('k, 'n, 'v, 'l) AggregatedCompilerOutput \<Rightarrow> ('k, 'n, 'v, 'l) AggregatedCompilerOutput" where
  "ag_extend version build_info profile output a =
     a\<lparr>ag_build_infos := ag_build_infos a @ [build_info],
       ag_errors := ag_errors a @ co_errors output,
       ag_sources := fold (push_source version (rbi_id build_info) profile) (co_sources output) (ag_sources a),
       ag_contracts := fold (push_contracts version (rbi_id build_info) profile) (co_contracts output) (ag_contracts a)\<rparr>"

definition ag_join_all :: "path \<Rightarrow> ('k, 'n, 'v, 'l) AggregatedCompilerOutput \<Rightarrow> ('k, 'n, 'v, 'l) AggregatedCompilerOutput" where
  "ag_join_all root a = a\<lparr>ag_contracts := vcs_join_all root (ag_contracts a), ag_sources := vsf_join_all root (ag_sources a)\<rparr>"

definition ag_strip_prefix_all :: "path \<Rightarrow> ('k, 'n, 'v, 'l) AggregatedCompilerOutput \<Rightarrow> ('k, 'n, 'v, 'l) AggregatedCompilerOutput" where
  "ag_strip_prefix_all base a =
     a\<lparr>ag_contracts := vcs_strip_prefix_all base (ag_contracts a), ag_sources := vsf_strip_prefix_all base (ag_sources a)\<rparr>"

section \<open>When a run fails\<close>

text \<open>
  The lists of the configuration that silence messages.  Whether a contract's ABI has the function
  \<open>IS_TEST\<close> is the parameter \<open>abi_is_test\<close>.
\<close>

record ignored =
  ig_error_codes :: "64 word list"
  ig_error_codes_from :: "(path \<times> 64 word list) list"
  ig_file_paths :: "path list"

definition is_test_file :: "('k \<Rightarrow> bool) \<Rightarrow> ('k, 'n, 'v, 'l) AggregatedCompilerOutput \<Rightarrow> string \<Rightarrow> bool" where
  "is_test_file abi_is_test a contract_path \<longleftrightarrow>
     suffix ''.t.sol'' contract_path \<or>
     list_ex (\<lambda>(_, _, contract). abi_is_test contract)
       (filter (\<lambda>(p, _, _). p = components contract_path) (contracts_with_files (ag_contracts a)))"

definition should_ignore :: "('k \<Rightarrow> bool) \<Rightarrow> ('k, 'n, 'v, 'l) AggregatedCompilerOutput \<Rightarrow> ignored \<Rightarrow> CompilationError \<Rightarrow> bool" where
  "should_ignore abi_is_test a ig e =
     (if \<not> is_warning e then False
      else case ce_error_code e of
        None \<Rightarrow> False
      | Some code \<Rightarrow>
          code \<in> set (ig_error_codes ig) \<or>
          (case ce_source_location e of
             None \<Rightarrow> False
           | Some loc \<Rightarrow>
               let p = components (sl_file loc)
               in list_ex (\<lambda>ignored_path. starts_with p ignored_path) (ig_file_paths ig) \<or>
                  list_ex (\<lambda>(pre, codes). starts_with p pre \<and> code \<in> set codes) (ig_error_codes_from ig) \<or>
                  is_test_file abi_is_test a (sl_file loc) \<and> (code = 1878 \<or> code = 5574)))"

definition has_warning :: "('k \<Rightarrow> bool) \<Rightarrow> ('k, 'n, 'v, 'l) AggregatedCompilerOutput \<Rightarrow> ignored \<Rightarrow> bool" where
  "has_warning abi_is_test a ig \<longleftrightarrow> list_ex (\<lambda>e. \<not> should_ignore abi_is_test a ig e) (ag_errors a)"

definition has_error :: "('k \<Rightarrow> bool) \<Rightarrow> ('k, 'n, 'v, 'l) AggregatedCompilerOutput \<Rightarrow> ignored \<Rightarrow> Severity \<Rightarrow> bool" where
  "has_error abi_is_test a ig severity_filter \<longleftrightarrow>
     list_ex (\<lambda>e.
       if is_error e then True
       else if severity_filter \<ge> ce_severity e then
         (if severity_filter = Warning then has_warning abi_is_test a ig else True)
       else False) (ag_errors a)"

text \<open>The header line of \<open>OutputDiagnostics\<close>, without colours, and the messages it lists.\<close>

definition diagnostics_header :: "('k \<Rightarrow> bool) \<Rightarrow> ('k, 'n, 'v, 'l) AggregatedCompilerOutput \<Rightarrow> ignored \<Rightarrow> Severity \<Rightarrow> string" where
  "diagnostics_header abi_is_test a ig severity_filter =
     ''Compiler run '' @
     (if has_error abi_is_test a ig severity_filter then ''failed:''
      else if has_warning abi_is_test a ig then ''successful with warnings:''
      else ''successful!'')"

definition diagnostics_errors :: "('k \<Rightarrow> bool) \<Rightarrow> ('k, 'n, 'v, 'l) AggregatedCompilerOutput \<Rightarrow> ignored \<Rightarrow> CompilationError list" where
  "diagnostics_errors abi_is_test a ig = filter (\<lambda>e. \<not> should_ignore abi_is_test a ig e) (ag_errors a)"

section \<open>\<open>ContractInfo\<close>\<close>

record ContractInfo =
  ci_path :: "string option"
  ci_name :: string

record FullContractInfo =
  fi_path :: string
  fi_name :: string

text \<open>
  \<open>rsplit(':')\<close> yields the segments from the last; the first two are read.  \<open>name.contains('/')\<close>
  and a name that is a file name are errors.
\<close>

definition contract_info_from_str :: "string \<Rightarrow> (string, ContractInfo) result" where
  "contract_info_from_str s =
     (let segments = rev (split_on CHR '':'' s); name = trim (hd segments);
          p = (case tl segments of [] \<Rightarrow> None | q # _ \<Rightarrow> Some q)
      in if suffix ''.sol'' name \<or> CHR ''/'' \<in> set name
         then Inl ''contract source info format must be `<path>:<contractname>` or `<contractname>`''
         else Inr \<lparr>ci_path = p, ci_name = name\<rparr>)"

definition contract_info_new :: "string \<Rightarrow> ContractInfo" where
  "contract_info_new info = (case contract_info_from_str info of Inr i \<Rightarrow> i | Inl _ \<Rightarrow> \<lparr>ci_path = None, ci_name = info\<rparr>)"

definition contract_info_display :: "ContractInfo \<Rightarrow> string" where
  "contract_info_display i = (case ci_path i of None \<Rightarrow> [] | Some p \<Rightarrow> p @ '':'') @ ci_name i"

definition full_contract_info_display :: "FullContractInfo \<Rightarrow> string" where
  "full_contract_info_display i = fi_path i @ '':'' @ fi_name i"

definition full_contract_info_from_str :: "string \<Rightarrow> (string, FullContractInfo) result" where
  "full_contract_info_from_str s =
     (case split_once CHR '':'' s of
        None \<Rightarrow> Inl ''Expected `<path>:<contractname>`, got `{s}`''
      | Some (p, name) \<Rightarrow> Inr \<lparr>fi_path = p, fi_name = trim name\<rparr>)"

definition full_from_contract_info :: "ContractInfo \<Rightarrow> (string, FullContractInfo) result" where
  "full_from_contract_info i =
     (case ci_path i of
        None \<Rightarrow> Inl ''path to contract must be present''
      | Some p \<Rightarrow> Inr \<lparr>fi_path = p, fi_name = ci_name i\<rparr>)"

definition contract_info_from_full :: "FullContractInfo \<Rightarrow> ContractInfo" where
  "contract_info_from_full i = \<lparr>ci_path = Some (fi_path i), ci_name = fi_name i\<rparr>"

text \<open>\<open>remove_contract\<close> takes an info: with a path it removes there, without one the first of the name.\<close>

definition ag_remove_contract :: "ContractInfo \<Rightarrow> ('k, 'n, 'v, 'l) AggregatedCompilerOutput
    \<Rightarrow> 'k option \<times> ('k, 'n, 'v, 'l) AggregatedCompilerOutput" where
  "ag_remove_contract info a =
     (let (r, m) = (case ci_path info of
          Some p \<Rightarrow> vcs_remove (components p) (ci_name info) (ag_contracts a)
        | None \<Rightarrow> vcs_remove_first (ci_name info) (ag_contracts a))
      in (r, a\<lparr>ag_contracts := m\<rparr>))"

section \<open>Facts\<close>

lemma fm_elements_Cons:
  "fm_elements ((file, by_name) # m) = concat (map (\<lambda>(name, xs). map (\<lambda>x. (file, name, x)) xs) by_name) @ fm_elements m"
  by (simp add: fm_elements_def)

lemma fm_elements_Nil [simp]: "fm_elements [] = []"
  by (simp add: fm_elements_def)

abbreviation named :: "path \<Rightarrow> (string, 'x list) btree \<Rightarrow> (path \<times> string \<times> 'x) list" where
  "named file by_name \<equiv> concat (map (\<lambda>(name, xs). map (\<lambda>x. (file, name, x)) xs) by_name)"

text \<open>
  The elements of a map as a multiset: putting a value under a key replaces what was there.  Every
  operation on nested maps is a few uses of these two facts.
\<close>

lemma sum_mset_insert:
  fixes g :: "'b \<Rightarrow> 'c multiset"
  assumes "bt_wf m"
  shows "(\<Sum>(k', v') \<leftarrow> bt_insert k v m. f k' v') + (case bt_get m k of None \<Rightarrow> {#} | Some w \<Rightarrow> f k w) =
         (\<Sum>(k', v') \<leftarrow> m. f k' v') + (f k v :: 'c multiset)"
  using assms
proof (induction k v m rule: bt_insert.induct)
  case (2 k v k' v' m)
  then have "bt_get m k = None" if "k \<le> k'"
    using that by (auto simp: bt_wf_Cons map_of_eq_None_iff)
  with 2 show ?case by (auto simp: bt_wf_Cons ac_simps)
qed simp

lemma sum_mset_remove:
  assumes "bt_wf m"
  shows "(\<Sum>(k', v') \<leftarrow> bt_remove k m. f k' v') + (case bt_get m k of None \<Rightarrow> {#} | Some w \<Rightarrow> f k w) =
         (\<Sum>(k', v') \<leftarrow> m. (f k' v' :: 'c multiset))"
  using assms
proof (induction m)
  case (Cons e m)
  obtain k' v' where e: "e = (k', v')" by (cases e)
  have "bt_remove k m = m" if "k = k'"
    using Cons.prems that unfolding e bt_wf_Cons bt_remove_def by (force simp: filter_id_conv)
  with Cons show ?case
    by (auto simp: e bt_wf_Cons bt_remove_def ac_simps map_of_eq_None_iff split: option.splits)
qed (simp add: bt_remove_def)

lemma mset_named: "mset (named file b) = (\<Sum>(name, xs) \<leftarrow> b. image_mset (\<lambda>x. (file, name, x)) (mset xs))"
  by (induction b) auto

lemma mset_elements: "mset (fm_elements m) = (\<Sum>(file, b) \<leftarrow> m. mset (named file b))"
  by (induction m) (auto simp: fm_elements_Cons)

lemma named_name: "z \<in> set (named file b) \<Longrightarrow> fst z = file"
  by auto

lemma pop_name_spec:
  assumes "bt_wf b"
  shows "case pop_name name b of
     (None, b') \<Rightarrow> bt_wf b' \<and> mset (named fl b') = mset (named fl b) \<and> (bt_get b name = None \<or> bt_get b name = Some [])
   | (Some x, b') \<Rightarrow> bt_wf b' \<and> mset (named fl b) = add_mset (fl, name, x) (mset (named fl b')) \<and>
       (\<exists>xs. bt_get b name = Some (x # xs))"
proof -
  let ?f = "\<lambda>name xs. image_mset (\<lambda>x. (fl, name, x)) (mset xs)"
  have rem: "mset (named fl (bt_remove name b)) + (case bt_get b name of None \<Rightarrow> {#} | Some w \<Rightarrow> ?f name w) = mset (named fl b)"
    unfolding mset_named by (rule sum_mset_remove [OF assms])
  have ins: "mset (named fl (bt_insert name xs (bt_remove name b))) = mset (named fl (bt_remove name b)) + ?f name xs" for xs
    using sum_mset_insert [where k = name and v = xs and f = ?f, OF bt_wf_remove [OF assms, of name]] unfolding mset_named by simp
  show ?thesis
  proof (cases "bt_get b name")
    case None
    then show ?thesis by (simp add: pop_name_def assms)
  next
    case (Some xs)
    show ?thesis
    proof (cases xs)
      case Nil
      with Some rem show ?thesis by (simp add: pop_name_def bt_wf_remove [OF assms])
    next
      case (Cons x ys)
      with Some rem ins [of ys] show ?thesis
        by (auto simp: pop_name_def bt_wf_remove [OF assms] bt_wf_insert)
    qed
  qed
qed

lemma find_append: "find p (xs @ ys) = (case find p xs of None \<Rightarrow> find p ys | Some x \<Rightarrow> Some x)"
  by (induction xs) auto

lemma find_named:
  assumes "bt_wf b"
  shows "find (\<lambda>(f, n, _). q f \<and> n = name) (named fl b) =
     (if q fl then case bt_get b name of Some (x # _) \<Rightarrow> Some (fl, name, x) | _ \<Rightarrow> None else None)"
  using assms
proof (induction b)
  case (Cons e b)
  obtain n xs where e: "e = (n, xs)" by (cases e)
  have hd: "find (\<lambda>(f, n, _). q f \<and> n = name) (map (\<lambda>x. (fl, n, x)) xs) =
      (if q fl \<and> n = name then case xs of [] \<Rightarrow> None | x # _ \<Rightarrow> Some (fl, name, x) else None)"
    by (induction xs) auto
  have "bt_get b name = None" if "n = name"
    using Cons.prems that by (auto simp: e bt_wf_Cons map_of_eq_None_iff)
  with Cons hd show ?case by (auto simp: e bt_wf_Cons find_append split: list.splits)
qed simp

lemma pop_find_spec:
  assumes "fm_wf m"
  shows "case pop_find q name m of (r, m') \<Rightarrow> fm_wf m' \<and> map fst m' = map fst m \<and>
     r = map_option (snd \<circ> snd) (find (\<lambda>(f, n, _). q f \<and> n = name) (fm_elements m)) \<and>
     (case r of None \<Rightarrow> mset (fm_elements m') = mset (fm_elements m)
      | Some x \<Rightarrow> \<exists>file. q file \<and> mset (fm_elements m) = add_mset (file, name, x) (mset (fm_elements m')))"
  using assms
proof (induction m)
  case (Cons e m)
  obtain fl b where e: "e = (fl, b)" by (cases e)
  have b: "bt_wf b" and m: "fm_wf m" and k: "\<forall>k \<in> fst ` set m. fl < k"
    using Cons.prems by (auto simp: e fm_wf_def bt_wf_Cons)
  obtain r m' where rest: "pop_find q name m = (r, m')" by (cases "pop_find q name m")
  note ih = Cons.IH [OF m, unfolded rest prod.case]
  then have keys: "fst ` set m' = fst ` set m" by (metis list.set_map)
  have wf: "fm_wf ((fl, c) # m')" if "bt_wf c" for c
    using ih k that by (auto simp: fm_wf_def bt_wf_Cons keys)
  have wf0: "fm_wf ((fl, c) # m)" if "bt_wf c" for c
    using m k that by (auto simp: fm_wf_def bt_wf_Cons)
  obtain x c where pop: "pop_name name b = (x, c)" by (cases "pop_name name b")
  note p = pop_name_spec [where name = name and fl = fl, OF b, unfolded pop prod.case]
  note fn = find_named [where q = q and name = name and fl = fl, OF b]
  show ?case
  proof (cases "q fl")
    case False
    with ih rest wf [OF b] fn show ?thesis
      by (auto simp: e fm_elements_Cons find_append split: option.splits)
  next
    case True
    show ?thesis
    proof (cases x)
      case None
      with True ih rest p pop wf [of c] fn show ?thesis
        by (auto simp: e fm_elements_Cons find_append split: option.splits)
    next
      case (Some y)
      with True p pop wf0 [of c] fn show ?thesis
        by (auto simp: e fm_elements_Cons find_append)
    qed
  qed
qed (simp add: fm_wf_def)

lemma fm_push_spec:
  assumes "fm_wf m"
  shows "fm_wf (fm_push fl name x m)"
    and "mset (fm_elements (fm_push fl name x m)) = add_mset (fl, name, x) (mset (fm_elements m))"
proof -
  let ?b = "case bt_get m fl of None \<Rightarrow> [] | Some b \<Rightarrow> b"
  let ?xs = "case bt_get ?b name of None \<Rightarrow> [] | Some xs \<Rightarrow> xs"
  let ?f = "\<lambda>name xs. image_mset (\<lambda>x. (fl, name, x)) (mset xs)"
  have wf: "bt_wf m" using assms by (simp add: fm_wf_def)
  have b: "bt_wf ?b"
    using assms bt_get_mem [OF wf, of fl] by (auto simp: fm_wf_def split: option.splits)
  show "fm_wf (fm_push fl name x m)"
    unfolding fm_wf_def
  proof
    show w: "bt_wf (fm_push fl name x m)" unfolding fm_push_def Let_def by (rule bt_wf_insert [OF wf])
    show "\<forall>(file, by_name) \<in> set (fm_push fl name x m). bt_wf by_name"
    proof clarify
      fix k c assume "(k, c) \<in> set (fm_push fl name x m)"
      then have "bt_get (fm_push fl name x m) k = Some c" using w by (simp add: bt_get_mem)
      then have "c = bt_insert name (?xs @ [x]) ?b \<or> bt_get m k = Some c"
        unfolding fm_push_def Let_def by (auto split: if_splits)
      then show "bt_wf c"
        using b assms bt_get_mem [OF wf, of k c] by (auto simp: fm_wf_def intro: bt_wf_insert)
    qed
  qed
  have i: "mset (named fl (bt_insert name (?xs @ [x]) ?b)) = add_mset (fl, name, x) (mset (named fl ?b))"
    using sum_mset_insert [where f = ?f and k = name and v = "?xs @ [x]", OF b]
    unfolding mset_named by (cases "bt_get ?b name") simp_all
  have old: "(case bt_get m fl of None \<Rightarrow> {#} | Some w \<Rightarrow> mset (named fl w)) = mset (named fl ?b)"
    by (cases "bt_get m fl") simp_all
  define new where "new = bt_insert name (?xs @ [x]) ?b"
  have "(\<Sum>(f, b) \<leftarrow> bt_insert fl new m. mset (named f b)) + mset (named fl ?b) =
      (\<Sum>(f, b) \<leftarrow> m. mset (named f b)) + add_mset (fl, name, x) (mset (named fl ?b))"
    using sum_mset_insert [where f = "\<lambda>f b. mset (named f b)" and k = fl and v = new, OF wf] i old
    unfolding new_def by simp
  then show "mset (fm_elements (fm_push fl name x m)) = add_mset (fl, name, x) (mset (fm_elements m))"
    unfolding mset_elements fm_push_def Let_def new_def [symmetric] by simp
qed

lemma fm_entry_spec:
  assumes "fm_wf m" and n: "bt_get m fl = None"
  shows "fm_wf (bt_insert fl [] m)" and "mset (fm_elements (bt_insert fl [] m)) = mset (fm_elements m)"
proof -
  have wf: "bt_wf m" using assms by (simp add: fm_wf_def)
  note w = bt_wf_insert [OF wf, of fl "[]"]
  show "fm_wf (bt_insert fl [] m)"
    unfolding fm_wf_def
  proof
    show "bt_wf (bt_insert fl [] m)" by (rule w)
    show "\<forall>(f, b) \<in> set (bt_insert fl [] m). bt_wf b"
    proof clarify
      fix k c assume "(k, c) \<in> set (bt_insert fl [] m)"
      then have "c = [] \<or> bt_get m k = Some c" using bt_get_mem [OF w, of k c] by (auto split: if_splits)
      then show "bt_wf c" using assms bt_get_mem [OF wf, of k c] by (auto simp: fm_wf_def)
    qed
  qed
  show "mset (fm_elements (bt_insert fl [] m)) = mset (fm_elements m)"
    using sum_mset_insert [where f = "\<lambda>f b. mset (named f b)" and k = fl and v = "[]", OF wf] n
    unfolding mset_elements by simp
qed

lemma push_contracts_spec:
  assumes "fm_wf m"
  shows "fm_wf (push_contracts version build profile (fl, cs) m) \<and>
    mset (fm_elements (push_contracts version build profile (fl, cs) m)) =
      mset (map (\<lambda>(name, k). (fl, name, versioned_contract version build profile k)) cs) + mset (fm_elements m)"
proof -
  let ?m = "if bt_get m fl = None then bt_insert fl [] m else m"
  have m: "fm_wf ?m" "mset (fm_elements ?m) = mset (fm_elements m)"
    using assms fm_entry_spec [of m fl] by simp_all
  have "fm_wf (fold (\<lambda>(name, k). fm_push fl name (versioned_contract version build profile k)) cs a) \<and>
     mset (fm_elements (fold (\<lambda>(name, k). fm_push fl name (versioned_contract version build profile k)) cs a)) =
       mset (map (\<lambda>(name, k). (fl, name, versioned_contract version build profile k)) cs) + mset (fm_elements a)"
    if "fm_wf a" for a
    using that
  proof (induction cs arbitrary: a)
    case (Cons c cs)
    obtain name k where c: "c = (name, k)" by (cases c)
    note p = fm_push_spec [OF Cons.prems, of fl name "versioned_contract version build profile k"]
    from Cons.IH [OF p(1)] p(2) show ?case by (simp add: c)
  qed simp
  from this [OF m(1)] m(2) show ?thesis by (simp add: push_contracts_def)
qed

section \<open>Properties\<close>


text \<open>An info message and an ignored warning together fail a run whose filter is \<open>Warning\<close>.\<close>

lemma info_fails_run:
  assumes "ag_errors a = [w, i]" and "ce_severity w = Warning" and "should_ignore abi_is_test a ig w"
    and "ce_severity i = Info"
  shows "has_error abi_is_test a ig Warning" and "\<not> has_error abi_is_test (a\<lparr>ag_errors := [i]\<rparr>) ig Warning"
  using assms
  by (auto simp: has_error_def has_warning_def should_ignore_def is_error_def is_warning_def less_eq_Severity_def)

text \<open>
  C22: Collecting the output of a compiler run adds exactly the contracts of that output, each once,
  under its file and name and tagged with the version, build and profile of the run; what was
  collected before stays.  The same holds for the source files, errors and build infos.
\<close>

theorem extend_adds_output:
  assumes "fm_wf (ag_contracts a)" and "bt_wf (ag_sources a)"
  shows "let a' = ag_extend version build_info profile output a; build = rbi_id build_info in
    fm_wf (ag_contracts a') \<and>
    mset (fm_elements (ag_contracts a')) = mset (fm_elements (ag_contracts a)) +
      mset (concat (map (\<lambda>(fl, cs). map (\<lambda>(name, k). (fl, name, versioned_contract version build profile k)) cs) (co_contracts output))) \<and>
    mset (vsf_all (ag_sources a')) = mset (vsf_all (ag_sources a)) +
      mset (map (\<lambda>(p, f). (p, \<lparr>vf_source_file = f, vf_version = version, vf_build_id = build, vf_profile = profile\<rparr>)) (co_sources output)) \<and>
    ag_errors a' = ag_errors a @ co_errors output \<and> ag_build_infos a' = ag_build_infos a @ [build_info]"
proof -
  let ?b = "rbi_id build_info"
  have cs: "fm_wf (fold (push_contracts version ?b profile) os m) \<and>
      mset (fm_elements (fold (push_contracts version ?b profile) os m)) = mset (fm_elements m) +
        mset (concat (map (\<lambda>(fl, cs). map (\<lambda>(name, k). (fl, name, versioned_contract version ?b profile k)) cs) os))"
    if "fm_wf m" for os and m :: "('a, 'b) VersionedContracts"
    using that
  proof (induction os arbitrary: m)
    case (Cons c os)
    obtain fl cs where c: "c = (fl, cs)" by (cases c)
    from push_contracts_spec [OF Cons.prems, of version ?b profile fl cs] Cons.IH
    show ?case by (simp add: c)
  qed simp
  have src: "mset (vsf_all (fold (push_source version ?b profile) ss m)) = mset (vsf_all m) +
      mset (map (\<lambda>(p, f). (p, \<lparr>vf_source_file = f, vf_version = version, vf_build_id = ?b, vf_profile = profile\<rparr>)) ss)"
    if "bt_wf m" for ss and m :: "('c, 'b) VersionedSourceFiles"
    using that
  proof (induction ss arbitrary: m)
    case (Cons s ss)
    obtain p f where s: "s = (p, f)" by (cases s)
    have all: "mset (vsf_all m') = (\<Sum>(p, fs) \<leftarrow> m'. image_mset (Pair p) (mset fs))" for m' :: "('c, 'b) VersionedSourceFiles"
      by (induction m') (auto simp: vsf_all_def)
    let ?s = "\<lparr>vf_source_file = f, vf_version = version, vf_build_id = ?b, vf_profile = profile\<rparr>"
    define old where "old = (case bt_get m p of None \<Rightarrow> [] | Some fs \<Rightarrow> fs)"
    have "mset (vsf_all (bt_insert p (old @ [?s]) m)) + image_mset (Pair p) (mset old) =
        mset (vsf_all m) + image_mset (Pair p) (mset (old @ [?s]))"
      using sum_mset_insert [where f = "\<lambda>p fs. image_mset (Pair p) (mset fs)" and k = p and v = "old @ [?s]", OF Cons.prems]
      unfolding all old_def by (cases "bt_get m p") simp_all
    then have "mset (vsf_all (push_source version ?b profile (p, f) m)) = add_mset (p, ?s) (mset (vsf_all m))"
      unfolding push_source_def prod.case old_def [symmetric] by simp
    moreover have "bt_wf (push_source version ?b profile (p, f) m)"
      using Cons.prems by (simp add: push_source_def bt_wf_insert)
    ultimately show ?case using Cons.IH by (simp add: s)
  qed simp
  show ?thesis
    using cs [OF assms(1)] src [OF assms(2)] by (simp add: Let_def ag_extend_def)
qed

definition sample_output :: "(nat, unit) CompilerOutput" where
  "sample_output = \<lparr>co_errors = [], co_contracts = [([Normal ''A.sol''], [(''A'', 1), (''B'', 2)])],
     co_sources = [([Normal ''A.sol''], \<lparr>sf_id = 0, sf_ast = None\<rparr>)]\<rparr>"

definition sample_aggregate :: "(nat, unit, nat, unit) AggregatedCompilerOutput" where
  "sample_aggregate = \<lparr>ag_errors = [], ag_sources = [],
     ag_contracts = [([Normal ''A.sol''], [(''A'', [versioned_contract 7 ''x'' ''default'' 5])])], ag_build_infos = []\<rparr>"

definition sample_build :: "unit RawBuildInfo" where
  "sample_build = \<lparr>rbi_id = ''y'', rbi_build_context = \<lparr>bc_source_id_to_path = [], bc_language = ()\<rparr>\<rparr>"

theorem extend_adds_output_witness:
  "mset (fm_elements (ag_contracts (ag_extend 8 sample_build ''default'' sample_output sample_aggregate))) =
     {#([Normal ''A.sol''], ''A'', versioned_contract 7 ''x'' ''default'' 5),
       ([Normal ''A.sol''], ''A'', versioned_contract 8 ''y'' ''default'' 1),
       ([Normal ''A.sol''], ''B'', versioned_contract 8 ''y'' ''default'' 2)#}"
proof -
  have "fm_wf (ag_contracts sample_aggregate)" "bt_wf (ag_sources sample_aggregate)"
    by (simp_all add: sample_aggregate_def fm_wf_def bt_wf_def)
  from extend_adds_output [OF this, of 8 sample_build "''default''" sample_output]
  show ?thesis by (simp add: Let_def sample_aggregate_def sample_output_def sample_build_def fm_elements_def)
qed

text \<open>
  C36: Removing a contract by file and name gives what a lookup would have given, and takes exactly
  one contract, the one found, out of the collection; if there is none the collection keeps its contents.
\<close>

theorem remove_takes_one:
  assumes "fm_wf m"
  shows "case vcs_remove p name m of (r, m') \<Rightarrow> r = vcs_get m p name \<and> fm_wf m' \<and>
    (case r of
       None \<Rightarrow> mset (fm_elements m') = mset (fm_elements m)
     | Some k \<Rightarrow> \<exists>c. vc_contract c = k \<and> mset (fm_elements m) = add_mset (p, name, c) (mset (fm_elements m')))"
proof (cases "bt_get m p")
  case None
  then show ?thesis using assms by (simp add: vcs_remove_def vcs_get_def)
next
  case (Some b)
  have wf: "bt_wf m" using assms by (simp add: fm_wf_def)
  have b: "bt_wf b" using assms Some bt_get_mem [OF wf, of p b] by (auto simp: fm_wf_def)
  obtain r b' where pop: "pop_name name b = (r, b')" by (cases "pop_name name b")
  note s = pop_name_spec [where name = name and fl = p, OF b, unfolded pop prod.case]
  then have b': "bt_wf b'" by (cases r) simp_all
  define m' where "m' = (if b' = [] then bt_remove p m else bt_insert p b' (bt_remove p m))"
  have e: "vcs_remove p name m = (map_option vc_contract r, m')"
    by (simp add: vcs_remove_def Some pop Let_def m'_def)
  have "fm_wf (bt_remove p m)" using assms by (auto simp: fm_wf_def bt_remove_def intro: bt_wf_filter)
  moreover have "fm_wf (bt_insert p b' (bt_remove p m))"
    unfolding fm_wf_def
  proof
    note w = bt_wf_insert [OF bt_wf_remove [OF wf, of p], of p b']
    show "bt_wf (bt_insert p b' (bt_remove p m))" by (rule w)
    show "\<forall>(f, c) \<in> set (bt_insert p b' (bt_remove p m)). bt_wf c"
    proof clarify
      fix f c assume "(f, c) \<in> set (bt_insert p b' (bt_remove p m))"
      then have "c = b' \<or> bt_get m f = Some c" using bt_get_mem [OF w, of f c] by (auto split: if_splits)
      then show "bt_wf c" using assms b' bt_get_mem [OF wf, of f c] by (auto simp: fm_wf_def)
    qed
  qed
  ultimately have m': "fm_wf m'" by (simp add: m'_def)
  have e1: "mset (fm_elements (bt_remove p m)) + mset (named p b) = mset (fm_elements m)"
    using sum_mset_remove [where f = "\<lambda>f b. mset (named f b)" and k = p, OF wf] Some
    unfolding mset_elements by simp
  have e2: "mset (fm_elements m') = mset (fm_elements (bt_remove p m)) + mset (named p b')"
    using sum_mset_insert [where f = "\<lambda>f b. mset (named f b)" and k = p and v = b', OF bt_wf_remove [OF wf, of p]]
    unfolding mset_elements m'_def by auto
  have el: "mset (fm_elements m') + mset (named p b) = mset (fm_elements m) + mset (named p b')"
    unfolding e2 e1 [symmetric] by (simp only: ac_simps)
  show ?thesis
  proof (cases r)
    case None
    with s have g: "mset (named p b') = mset (named p b)" "bt_get b name = None \<or> bt_get b name = Some []" by simp_all
    have "vcs_get m p name = None" using g(2) \<open>bt_get m p = Some b\<close> by (auto simp: vcs_get_def)
    moreover have "mset (fm_elements m') = mset (fm_elements m)" using el unfolding g(1) by (rule add_right_imp_eq)
    ultimately show ?thesis using m' None unfolding e by simp
  next
    case (Some c)
    with s have g: "mset (named p b) = add_mset (p, name, c) (mset (named p b'))" "\<exists>xs. bt_get b name = Some (c # xs)"
      by simp_all
    have "vcs_get m p name = Some (vc_contract c)" using g(2) \<open>bt_get m p = Some b\<close> by (auto simp: vcs_get_def)
    moreover have "mset (fm_elements m) = add_mset (p, name, c) (mset (fm_elements m'))"
      using el unfolding g(1) by (simp add: union_commute)
    ultimately show ?thesis using m' Some unfolding e by auto
  qed
qed

theorem remove_takes_one_witness:
  "vcs_remove [Normal ''A.sol''] ''A'' (ag_contracts sample_aggregate) = (Some 5, []) \<and>
   vcs_get (ag_contracts sample_aggregate) [Normal ''A.sol''] ''A'' = Some 5"
proof -
  have w: "fm_wf (ag_contracts sample_aggregate)" by (simp add: sample_aggregate_def fm_wf_def bt_wf_def)
  have r: "vcs_remove [Normal ''A.sol''] ''A'' (ag_contracts sample_aggregate) = (Some 5, [])"
    by (simp add: vcs_remove_def sample_aggregate_def pop_name_def bt_remove_def versioned_contract_def)
  from remove_takes_one [OF w, of "[Normal ''A.sol'']" "''A''"] r show ?thesis by simp
qed

lemma split_on_none: "sep \<notin> set s \<Longrightarrow> split_on sep s = [s]"
  by (induction s) auto

lemma split_on_append: "sep \<notin> set b \<Longrightarrow> split_on sep (a @ sep # b) = split_on sep a @ [b]"
proof (induction a)
  case (Cons x a)
  have "split_on sep a \<noteq> []" by (cases a) (auto split: list.splits)
  with Cons show ?case by (auto split: list.splits simp: Cons_eq_append_conv)
qed (simp add: split_on_none)



end
