(* ===== verification/Artifact_Output.thy ===== *)
theory Artifact_Output
  imports Compiler_Cache Compile_Output
begin

text \<open>
  Artifacts and where they are written, \<open>artifact_output/mod.rs\<close>: the collection \<open>Artifacts\<close>, the
  names and paths of artifact files, and \<open>output_to_artifacts\<close>, which gives every compiled contract a
  path of its own.  A path is its components; the sets of taken paths hold their lower-case text.
  The version of a compiler is a parameter type; its three numbers are read by \<open>numbers\<close>.
\<close>

section \<open>\<open>Artifacts\<close>\<close>

type_synonym ('v, 'a) Artifacts = "('v, 'a) ArtifactFile file_map"

definition artifact_join :: "path \<Rightarrow> ('v, 'a) ArtifactFile \<Rightarrow> ('v, 'a) ArtifactFile" where
  "artifact_join root f = f\<lparr>af_file := path_join root (af_file f)\<rparr>"

definition artifact_strip_prefix :: "path \<Rightarrow> ('v, 'a) ArtifactFile \<Rightarrow> ('v, 'a) ArtifactFile" where
  "artifact_strip_prefix base f =
     (case path_strip_prefix (af_file f) base of None \<Rightarrow> f | Some stripped \<Rightarrow> f\<lparr>af_file := stripped\<rparr>)"

definition map_artifact_files :: "(('v, 'a) ArtifactFile \<Rightarrow> ('v, 'a) ArtifactFile) \<Rightarrow> ('v, 'a) Artifacts \<Rightarrow> ('v, 'a) Artifacts" where
  "map_artifact_files f m = map_values (map_values (map f)) m"

definition artifacts_join_all :: "path \<Rightarrow> ('v, 'a) Artifacts \<Rightarrow> ('v, 'a) Artifacts" where
  "artifacts_join_all root = map_artifact_files (artifact_join root)"

definition artifacts_strip_prefix_all :: "path \<Rightarrow> ('v, 'a) Artifacts \<Rightarrow> ('v, 'a) Artifacts" where
  "artifacts_strip_prefix_all base = map_artifact_files (artifact_strip_prefix base)"

definition artifact_files :: "('v, 'a) Artifacts \<Rightarrow> ('v, 'a) ArtifactFile list" where
  "artifact_files m = map (\<lambda>(_, _, f). f) (fm_elements m)"

definition get_contract_artifact_files :: "('v, 'a) Artifacts \<Rightarrow> string \<Rightarrow> ('v, 'a) ArtifactFile list option" where
  "get_contract_artifact_files m contract_name =
     (case List.map_filter (\<lambda>(_, by_name). bt_get by_name contract_name) m of [] \<Rightarrow> None | fs # _ \<Rightarrow> Some fs)"

definition artifacts_of :: "('v, 'a) Artifacts \<Rightarrow> path \<Rightarrow> string \<Rightarrow> ('v, 'a) ArtifactFile list" where
  "artifacts_of m p contract_name =
     (case bt_get m p of None \<Rightarrow> [] | Some contracts \<Rightarrow>
       (case bt_get contracts contract_name of None \<Rightarrow> [] | Some fs \<Rightarrow> fs))"

definition find_artifact_file :: "('v, 'a) Artifacts \<Rightarrow> path \<Rightarrow> string \<Rightarrow> 'v \<Rightarrow> ('v, 'a) ArtifactFile option" where
  "find_artifact_file m p contract_name version = find (\<lambda>f. af_version f = version) (artifacts_of m p contract_name)"

definition find_artifact_with_profile :: "('v, 'a) Artifacts \<Rightarrow> path \<Rightarrow> string \<Rightarrow> 'v \<Rightarrow> string \<Rightarrow> ('v, 'a) ArtifactFile option" where
  "find_artifact_with_profile m p contract_name version profile =
     find (\<lambda>f. af_version f = version \<and> af_profile f = profile) (artifacts_of m p contract_name)"

definition has_contract_artifact :: "('v, 'a) Artifacts \<Rightarrow> string \<Rightarrow> path \<Rightarrow> bool" where
  "has_contract_artifact m contract_name artifact_path =
     (case get_contract_artifact_files m contract_name of
        None \<Rightarrow> False | Some fs \<Rightarrow> list_ex (\<lambda>f. af_file f = artifact_path) fs)"

definition has_artifact :: "('v, 'a) Artifacts \<Rightarrow> path \<Rightarrow> bool" where
  "has_artifact m artifact_path = list_ex (\<lambda>f. af_file f = artifact_path) (artifact_files m)"

definition artifacts_with_files :: "('v, 'a) Artifacts \<Rightarrow> (path \<times> string \<times> 'a) list" where
  "artifacts_with_files m = map (\<lambda>(p, name, f). (p, name, af_artifact f)) (fm_elements m)"

definition into_stripped_file_prefixes :: "path \<Rightarrow> ('v, 'a) Artifacts \<Rightarrow> ('v, 'a) Artifacts" where
  "into_stripped_file_prefixes base m = bt_of_list (map (\<lambda>(p, c). (strip_prefix p base, c)) m)"

text \<open>The first file that has the name and an artifact under it.\<close>

definition first_of :: "string \<Rightarrow> (string, ('v, 'a) ArtifactFile list) btree \<Rightarrow> 'a option" where
  "first_of contract_name contracts =
     (case bt_get contracts contract_name of Some (f # _) \<Rightarrow> Some (af_artifact f) | _ \<Rightarrow> None)"

definition find_first_artifact :: "('v, 'a) Artifacts \<Rightarrow> string \<Rightarrow> 'a option" where
  "find_first_artifact m contract_name =
     (case List.map_filter (\<lambda>(_, contracts). first_of contract_name contracts) m of [] \<Rightarrow> None | a # _ \<Rightarrow> Some a)"

definition find_artifact_in :: "('v, 'a) Artifacts \<Rightarrow> path \<Rightarrow> string \<Rightarrow> 'a option" where
  "find_artifact_in m contract_path contract_name =
     (case List.map_filter (\<lambda>(_, contracts). first_of contract_name contracts) (filter (\<lambda>(p, _). p = contract_path) m) of
        [] \<Rightarrow> None | a # _ \<Rightarrow> Some a)"

definition remove_artifact :: "path \<Rightarrow> string \<Rightarrow> ('v, 'a) Artifacts \<Rightarrow> 'a option \<times> ('v, 'a) Artifacts" where
  "remove_artifact contract_path contract_name m =
     (let (r, m') = pop_find (\<lambda>p. p = contract_path) contract_name m in (map_option af_artifact r, m'))"

definition remove_first_artifact :: "string \<Rightarrow> ('v, 'a) Artifacts \<Rightarrow> 'a option \<times> ('v, 'a) Artifacts" where
  "remove_first_artifact contract_name m =
     (let (r, m') = pop_find (\<lambda>_. True) contract_name m in (map_option af_artifact r, m'))"

section \<open>\<open>ArtifactId\<close>\<close>

record 'v ArtifactId =
  ai_path :: path
  ai_name :: string
  ai_source :: path
  ai_version :: 'v
  ai_build_id :: string
  ai_profile :: string

definition file_stem :: "path \<Rightarrow> string option" where
  "file_stem p = map_option (\<lambda>n. fst (split_extension n)) (path_file_name p)"

definition id_strip_file_prefixes :: "path \<Rightarrow> 'v ArtifactId \<Rightarrow> 'v ArtifactId" where
  "id_strip_file_prefixes base i = i\<lparr>ai_source := strip_prefix (ai_source i) base\<rparr>"

text \<open>\<open>slug\<close> panics when the path has no file stem: \<open>None\<close>.\<close>

definition slug :: "'v ArtifactId \<Rightarrow> string option" where
  "slug i = map_option (\<lambda>stem. stem @ ''.json:'' @ ai_name i) (file_stem (ai_path i))"

definition artifact_identifier :: "'v ArtifactId \<Rightarrow> string" where
  "artifact_identifier i = path_text (ai_source i) @ '':'' @ ai_name i"

definition version_text :: "nat \<times> nat \<times> nat \<Rightarrow> string" where
  "version_text = (\<lambda>(major, minor, patch). show_nat major @ ''.'' @ show_nat minor @ ''.'' @ show_nat patch)"

definition slug_versioned :: "('v \<Rightarrow> nat \<times> nat \<times> nat) \<Rightarrow> 'v ArtifactId \<Rightarrow> string option" where
  "slug_versioned numbers i =
     map_option (\<lambda>stem. stem @ ''.'' @ version_text (numbers (ai_version i)) @ ''.json:'' @ ai_name i) (file_stem (ai_path i))"

definition contract_name :: "path \<Rightarrow> string option" where
  "contract_name p = file_stem p"

text \<open>\<open>artifacts()\<close>: every artifact with its id; a file without a stem is skipped.\<close>

definition artifact_ids :: "('v, 'a) Artifacts \<Rightarrow> ('v ArtifactId \<times> 'a) list" where
  "artifact_ids m = List.map_filter (\<lambda>(source, _, f).
     map_option (\<lambda>name. (\<lparr>ai_path = af_file f, ai_name = name, ai_source = source, ai_version = af_version f,
       ai_build_id = af_build_id f, ai_profile = af_profile f\<rparr>, af_artifact f)) (contract_name (af_file f)))
     (fm_elements m)"

section \<open>The path of an artifact\<close>

definition output_file_name :: "('v \<Rightarrow> nat \<times> nat \<times> nat) \<Rightarrow> string \<Rightarrow> 'v \<Rightarrow> string \<Rightarrow> bool \<Rightarrow> bool \<Rightarrow> string" where
  "output_file_name numbers name version profile with_version with_profile =
     name @ (if with_version then ''.'' @ version_text (numbers version) else [])
          @ (if with_profile then ''.'' @ profile else []) @ ''.json''"

definition output_file :: "('v \<Rightarrow> nat \<times> nat \<times> nat) \<Rightarrow> path \<Rightarrow> string \<Rightarrow> 'v \<Rightarrow> string \<Rightarrow> bool \<Rightarrow> bool \<Rightarrow> path" where
  "output_file numbers contract_file name version profile with_version with_profile =
     (let out = components (output_file_name numbers name version profile with_version with_profile)
      in case path_file_name contract_file of
           None \<Rightarrow> out
         | Some p \<Rightarrow> path_join [Normal p] out)"

definition lower_path :: "path \<Rightarrow> string" where
  "lower_path p = to_lowercase (path_text p)"

definition taken :: "string set \<Rightarrow> path \<Rightarrow> bool" where
  "taken already_taken p \<longleftrightarrow> lower_path p \<in> already_taken"

text \<open>The walk up the directories of the contract file, each put in front of the candidate.\<close>

function parent_candidates :: "string set \<Rightarrow> path \<Rightarrow> path \<Rightarrow> path option \<Rightarrow> path option" where
  "parent_candidates already_taken artifacts_folder candidate current_parent =
     (case current_parent of
        None \<Rightarrow> None
      | Some f \<Rightarrow>
          (case path_file_name f of
             None \<Rightarrow> None
           | Some parent_name \<Rightarrow>
               let candidate' = path_join [Normal parent_name] candidate;
                   out_path = path_join artifacts_folder candidate'
               in if \<not> taken already_taken out_path then Some out_path
                  else parent_candidates already_taken artifacts_folder candidate' (path_parent f)))"
  by pat_completeness auto

termination
  by (relation "measure (\<lambda>(_, _, _, p). case p of None \<Rightarrow> 0 | Some f \<Rightarrow> Suc (length f))")
    (auto split: option.splits dest: parent_length)

declare parent_candidates.simps [simp del]

text \<open>
  The numbered candidates: the first component gets a suffix.  An empty path is a panic, and a
  search that never ends has no value; both are \<open>None\<close>.
\<close>

definition numbered :: "path \<Rightarrow> nat \<Rightarrow> path" where
  "numbered p num = path_join (components (component_text (hd p) @ ''_'' @ show_nat num)) (tl p)"

partial_function (option) number_candidates :: "string set \<Rightarrow> path \<Rightarrow> nat \<Rightarrow> path option" where
  "number_candidates already_taken rel_candidate num =
     (if rel_candidate = [] then None
      else if \<not> taken already_taken (numbered rel_candidate num) then Some (numbered rel_candidate num)
      else number_candidates already_taken rel_candidate (num + 1))"

declare number_candidates.simps [code]

definition conflict_free_output_file :: "string set \<Rightarrow> path \<Rightarrow> path \<Rightarrow> path \<Rightarrow> path option" where
  "conflict_free_output_file already_taken conflict contract_file artifacts_folder =
     (let rel_candidate = strip_prefix conflict artifacts_folder
      in case parent_candidates already_taken artifacts_folder rel_candidate (path_parent contract_file) of
           Some p \<Rightarrow> Some p
         | None \<Rightarrow> number_candidates already_taken rel_candidate 1)"

section \<open>Output to artifacts\<close>

type_synonym 'v OutputContext = "(path, 'v CachedArtifacts) btree"

definition output_context :: "('v, 's) CompilerCache \<Rightarrow> 'v OutputContext" where
  "output_context c = map_values en_artifacts (cc_files c)"

definition existing_artifact :: "'v OutputContext \<Rightarrow> path \<Rightarrow> string \<Rightarrow> 'v \<Rightarrow> string \<Rightarrow> path option" where
  "existing_artifact ctx p contract version profile =
     (case bt_get ctx p of None \<Rightarrow> None | Some contracts \<Rightarrow>
       (case bt_get contracts contract of None \<Rightarrow> None | Some versions \<Rightarrow>
         (case bt_get versions version of None \<Rightarrow> None | Some profiles \<Rightarrow>
           map_option ca_path (bt_get profiles profile))))"

definition get_artifact_path :: "('v \<Rightarrow> nat \<times> nat \<times> nat) \<Rightarrow> 'v OutputContext \<Rightarrow> string set \<Rightarrow> path \<Rightarrow> string \<Rightarrow> path
    \<Rightarrow> 'v \<Rightarrow> string \<Rightarrow> bool \<Rightarrow> bool \<Rightarrow> path option" where
  "get_artifact_path numbers ctx already_taken p name artifacts_folder version profile with_version with_profile =
     (case existing_artifact ctx p name version profile of
        Some existing \<Rightarrow> Some existing
      | None \<Rightarrow>
          let out = path_join artifacts_folder (output_file numbers p name version profile with_version with_profile)
          in if taken already_taken out
             then conflict_free_output_file already_taken out p artifacts_folder
             else Some out)"

text \<open>
  A contract or standalone source that gets an artifact.  \<open>artifact_ops\<close> are the methods of the
  artifact handler: the artifact of a contract, that of a source without contracts, and the test
  for contract definitions among the nodes of a syntax tree.
\<close>

record ('k, 'n, 'v, 'a) artifact_ops =
  ao_contract_to_artifact :: "path \<Rightarrow> string \<Rightarrow> 'k \<Rightarrow> 'n SourceFile option \<Rightarrow> 'a"
  ao_standalone :: "path \<Rightarrow> ('n, 'v) VersionedSourceFile \<Rightarrow> 'a option"
  ao_is_contract :: "'n \<Rightarrow> bool"
  ao_numbers :: "'v \<Rightarrow> nat \<times> nat \<times> nat"

record ('v, 'a) job =
  jb_file :: path
  jb_name :: string
  jb_version :: 'v
  jb_build_id :: string
  jb_profile :: string
  jb_with_version :: bool
  jb_with_profile :: bool
  jb_artifact :: 'a

text \<open>Top-most files first; the keys of the map are in order already and the sort is stable.\<close>

definition contract_jobs :: "('k, 'n, 'v, 'a) artifact_ops \<Rightarrow> ('k, 'v) VersionedContracts \<Rightarrow> ('n, 'v) VersionedSourceFiles
    \<Rightarrow> (path \<Rightarrow> string option) \<Rightarrow> ('v, 'a) job list" where
  "contract_jobs ao contracts sources primary_profiles =
     concat (map (\<lambda>(p, by_name). concat (map (\<lambda>(name, versioned).
       let unique_versions = card (set (map vc_version versioned));
           unique_profiles = card (set (map vc_profile versioned))
       in map (\<lambda>c. \<lparr>jb_file = p, jb_name = name, jb_version = vc_version c, jb_build_id = vc_build_id c,
            jb_profile = vc_profile c, jb_with_version = unique_versions > 1,
            jb_with_profile = unique_profiles > 1 \<and> primary_profiles p \<noteq> Some (vc_profile c),
            jb_artifact = ao_contract_to_artifact ao p name (vc_contract c) (find_file_and_version sources p (vc_version c))\<rparr>)
            versioned) by_name))
       (sort_key (\<lambda>(p, _). length p) contracts))"

definition standalone_jobs :: "('k, 'n, 'v, 'a) artifact_ops \<Rightarrow> path set \<Rightarrow> ('n, 'v) VersionedSourceFiles \<Rightarrow> ('v, 'a) job list" where
  "standalone_jobs ao non_standalone sources =
     concat (map (\<lambda>(p, fs).
       let unique_versions = card (set (map vf_version fs)); unique_profiles = card (set (map vf_profile fs))
       in List.map_filter (\<lambda>source.
            if p \<in> non_standalone \<or> sf_ast (vf_source_file source) = None
               \<or> contains_contract_definition (ao_is_contract ao) (vf_source_file source)
            then None
            else case (file_stem p, ao_standalone ao p source) of
                (Some name, Some artifact) \<Rightarrow> Some \<lparr>jb_file = p, jb_name = name, jb_version = vf_version source,
                   jb_build_id = vf_build_id source, jb_profile = vf_profile source,
                   jb_with_version = unique_versions > 1, jb_with_profile = unique_profiles > 1, jb_artifact = artifact\<rparr>
              | _ \<Rightarrow> None) fs) sources)"

fun place_jobs :: "('v \<Rightarrow> nat \<times> nat \<times> nat) \<Rightarrow> 'v OutputContext \<Rightarrow> path \<Rightarrow> ('v, 'a) job list
    \<Rightarrow> ('v, 'a) Artifacts \<times> string set \<Rightarrow> (('v, 'a) Artifacts \<times> string set) option" where
  "place_jobs numbers ctx folder [] st = Some st"
| "place_jobs numbers ctx folder (j # js) (artifacts, already_taken) =
     (case get_artifact_path numbers ctx already_taken (jb_file j) (jb_name j) folder (jb_version j) (jb_profile j)
             (jb_with_version j) (jb_with_profile j) of
        None \<Rightarrow> None
      | Some p \<Rightarrow> place_jobs numbers ctx folder js
          (fm_push (jb_file j) (jb_name j) \<lparr>af_artifact = jb_artifact j, af_file = p, af_version = jb_version j,
             af_build_id = jb_build_id j, af_profile = jb_profile j\<rparr> artifacts,
           insert (lower_path p) already_taken))"

text \<open>The paths of all cached artifacts.\<close>

definition context_paths :: "'v OutputContext \<Rightarrow> path list" where
  "context_paths ctx = concat (map (\<lambda>(_, by_name). concat (map (\<lambda>(_, by_version).
     concat (map (\<lambda>(_, by_profile). map (\<lambda>(_, a). ca_path a) by_profile) by_version)) by_name)) ctx)"

definition output_jobs :: "('k, 'n, 'v, 'a) artifact_ops \<Rightarrow> ('k, 'v) VersionedContracts \<Rightarrow> ('n, 'v) VersionedSourceFiles
    \<Rightarrow> (path \<Rightarrow> string option) \<Rightarrow> ('v, 'a) job list" where
  "output_jobs ao contracts sources primary_profiles =
     (let jobs = contract_jobs ao contracts sources primary_profiles
      in jobs @ standalone_jobs ao (set (map jb_file jobs)) sources)"

definition output_to_artifacts :: "('k, 'n, 'v, 'a) artifact_ops \<Rightarrow> ('k, 'v) VersionedContracts \<Rightarrow> ('n, 'v) VersionedSourceFiles
    \<Rightarrow> 'v OutputContext \<Rightarrow> path \<Rightarrow> (path \<Rightarrow> string option) \<Rightarrow> ('v, 'a) Artifacts option" where
  "output_to_artifacts ao contracts sources ctx folder primary_profiles =
     map_option fst (place_jobs (ao_numbers ao) ctx folder (output_jobs ao contracts sources primary_profiles)
       ([], lower_path ` set (context_paths ctx)))"

text \<open>\<open>on_output\<close> joins the artifacts with the folder before it writes them.\<close>

definition on_output :: "('k, 'n, 'v, 'a) artifact_ops \<Rightarrow> ('k, 'v) VersionedContracts \<Rightarrow> ('n, 'v) VersionedSourceFiles
    \<Rightarrow> 'v OutputContext \<Rightarrow> path \<Rightarrow> (path \<Rightarrow> string option) \<Rightarrow> ('v, 'a) Artifacts option" where
  "on_output ao contracts sources ctx folder primary_profiles =
     map_option (artifacts_join_all folder) (output_to_artifacts ao contracts sources ctx folder primary_profiles)"

section \<open>Facts\<close>

lemma components_plain:
  assumes "name_ok s"
  shows "components s = [Normal s]"
proof -
  have "split_on CHR ''/'' s = [s]" using assms by (intro split_on_none) (simp add: name_ok_def)
  then show ?thesis
    using assms by (cases s) (auto simp: components_def name_ok_def segment_component_def List.map_filter_simps)
qed

text \<open>The text of a path that goes on after a name.\<close>

lemma text_body:
  assumes "list_all body_component rest" and "acc \<noteq> []" and "last acc \<noteq> CHR ''/''"
  shows "foldl (\<lambda>acc c. raw_push acc (component_text c)) acc rest = acc @ concat (map (\<lambda>c. CHR ''/'' # component_text c) rest)"
  using assms
proof (induction rest arbitrary: acc)
  case (Cons c rest)
  have t: "component_text c \<noteq> [] \<and> CHR ''/'' \<notin> set (component_text c)"
    using Cons.prems(1) by (cases c) (auto simp: name_ok_def)
  then have "raw_push acc (component_text c) = acc @ CHR ''/'' # component_text c"
    using Cons.prems(2,3) by (auto simp: raw_push_def raw_has_root_def dest: hd_in_set)
  moreover have "last (acc @ CHR ''/'' # component_text c) \<noteq> CHR ''/''"
    using t by (simp add: last_append) (metis last_in_set)
  ultimately show ?case using Cons by simp
qed simp

text \<open>The numbered candidates of a path differ, also in lower case, so one of them is free.\<close>

lemma numbered_normal:
  assumes "name_ok s" and "list_all body_component r"
  shows "numbered (Normal s # r) num = Normal (s @ ''_'' @ show_nat num) # r"
    and "path_text (numbered (Normal s # r) num) =
      s @ ''_'' @ show_nat num @ concat (map (\<lambda>c. CHR ''/'' # component_text c) r)"
proof -
  let ?t = "s @ ''_'' @ show_nat num"
  have d: "CHR ''/'' \<notin> set (show_nat num)" "CHR ''.'' \<notin> set (show_nat num)"
    using show_nat_digits [of num] by (auto simp: is_ascii_digit_def)
  have "3 \<le> length ?t" using assms(1) by (cases s; cases "show_nat num") (auto simp: name_ok_def)
  then have "?t \<noteq> ''.''" "?t \<noteq> ''..''" by (auto dest!: arg_cong [where f = length])
  then have ok: "name_ok ?t" using assms(1) d by (simp add: name_ok_def)
  have last: "last ?t \<noteq> CHR ''/''" using d by (simp add: last_append) (metis last_in_set show_nat_nonempty)
  show n: "numbered (Normal s # r) num = Normal ?t # r"
    using components_plain [OF ok] assms(2) by (simp add: numbered_def join_relative)
  have "raw_push [] ?t = ?t" using ok by (simp add: raw_push_def)
  with text_body [OF assms(2), of ?t] ok last n
  show "path_text (numbered (Normal s # r) num) = s @ ''_'' @ show_nat num @ concat (map (\<lambda>c. CHR ''/'' # component_text c) r)"
    by (simp add: path_text_def name_ok_def)
qed

lemma lower_digits: "map lower_char (show_nat n) = show_nat n"
  using show_nat_digits [of n]
  by (intro map_idI) (auto simp: lower_char_def is_ascii_digit_def Let_def)

lemma numbered_inj:
  assumes "name_ok s" and "list_all body_component r"
  shows "inj (\<lambda>num. to_lowercase (path_text (numbered (Normal s # r) num)))"
proof (rule injI)
  fix n m
  assume "to_lowercase (path_text (numbered (Normal s # r) n)) = to_lowercase (path_text (numbered (Normal s # r) m))"
  then have "show_nat n = show_nat m"
    unfolding numbered_normal(2) [OF assms] by (simp add: to_lowercase_def lower_digits)
  then show "n = m" by (metis digits_value_show_nat)
qed

lemma number_candidates_free:
  assumes s: "name_ok s" and r: "list_all body_component r" and fin: "finite already_taken"
  shows "\<exists>p. number_candidates already_taken (Normal s # r) num = Some p \<and> \<not> taken already_taken p"
proof -
  let ?p = "\<lambda>k. numbered (Normal s # r) k"
  have "\<not> (\<forall>k \<ge> num. taken already_taken (?p k))"
  proof
    assume "\<forall>k \<ge> num. taken already_taken (?p k)"
    then have "(\<lambda>k. to_lowercase (path_text (?p k))) ` {num..} \<subseteq> already_taken" by (auto simp: taken_def lower_path_def)
    then have "finite ((\<lambda>k. to_lowercase (path_text (?p k))) ` {num..})" using fin by (rule finite_subset)
    then have "finite {num..}" using numbered_inj [OF s r] by (simp add: finite_image_iff inj_on_subset)
    then show False by (simp add: infinite_Ici)
  qed
  then obtain k where "k \<ge> num" "\<not> taken already_taken (?p k)" by blast
  then show ?thesis
  proof (induction "k - num" arbitrary: num)
    case 0
    then show ?case by (subst number_candidates.simps) auto
  next
    case (Suc d)
    show ?case
    proof (cases "taken already_taken (?p num)")
      case False
      then show ?thesis by (subst number_candidates.simps) auto
    next
      case True
      with Suc have "Suc num \<le> k" by simp
      with Suc True show ?thesis by (subst number_candidates.simps) auto
    qed
  qed
qed

lemma parent_candidates_free:
  "parent_candidates already_taken folder candidate parent = Some p \<Longrightarrow> \<not> taken already_taken p"
proof (induction already_taken folder candidate parent rule: parent_candidates.induct)
  case (1 already_taken folder candidate parent)
  note s = parent_candidates.simps [of already_taken folder candidate parent]
  from 1(2) obtain f where f: "parent = Some f" unfolding s by (cases parent) simp_all
  from 1(2) obtain n where n: "path_file_name f = Some n"
    unfolding s [unfolded f] f by (cases "path_file_name f") simp_all
  let ?c = "path_join [Normal n] candidate"
  show ?case
  proof (cases "taken already_taken (path_join folder ?c)")
    case True
    with 1(2) have "parent_candidates already_taken folder ?c (path_parent f) = Some p" unfolding f s [unfolded f] by (simp add: n Let_def)
    with 1(1) [OF f n refl refl] True show ?thesis by simp
  next
    case False
    with 1(2) show ?thesis unfolding f s [unfolded f] by (simp add: n Let_def)
  qed
qed

lemma map_filter_no_root: "RootDir \<notin> set (List.map_filter segment_component ws)"
  by (auto simp: map_filter_mem segment_component_def split: if_splits)

lemma components_relative: "\<not> raw_has_root s \<Longrightarrow> \<not> has_root (components s)"
  using map_filter_no_root [of "split_on CHR ''/'' s"]
  by (auto simp: components_def has_root_def raw_has_root_def split: list.splits component.splits)

lemma body_after_CurDir:
  assumes "path_wf p" and "\<not> has_root p"
  shows "list_all body_component (dropWhile (\<lambda>c. c = CurDir) p)"
proof (cases p)
  case (Cons c cs)
  with assms have "c = CurDir \<or> body_component c" "list_all body_component cs"
    by (auto simp: path_wf_def has_root_def split: component.splits)
  with Cons show ?thesis by (cases "c = CurDir") (auto simp: body_not_CurDir)
qed simp

lemma output_file_shape:
  assumes "path_wf p" and "path_file_name p = Some fn" and "\<not> raw_has_root name"
  shows "name_ok fn \<and> (\<exists>r. output_file numbers p name version profile wv wp = Normal fn # r \<and> list_all body_component r)"
proof -
  let ?n = "output_file_name numbers name version profile wv wp"
  from assms(2) have p: "p = butlast p @ [Normal fn]"
    by (auto simp: path_file_name_def split: if_splits component.splits) (metis append_butlast_last_id)
  with assms(1) have "path_wf (butlast p @ [Normal fn])" by simp
  then have fn: "name_ok fn" by (cases "butlast p") (auto simp: path_wf_def)
  have "\<not> raw_has_root ?n" using assms(3) by (cases name) (auto simp: output_file_name_def raw_has_root_def)
  then have r: "\<not> has_root (components ?n)" by (rule components_relative)
  have "output_file numbers p name version profile wv wp = Normal fn # dropWhile (\<lambda>c. c = CurDir) (components ?n)"
    using r by (simp add: output_file_def assms(2) path_join_def)
  then show ?thesis using fn body_after_CurDir [OF components_wf r] by blast
qed

lemma get_artifact_path_spec:
  assumes "finite already_taken" and f: "path_wf p" "path_file_name p = Some fn" "\<not> raw_has_root name"
  shows "\<exists>q. get_artifact_path numbers ctx already_taken p name folder version profile wv wp = Some q \<and>
    (case existing_artifact ctx p name version profile of Some q' \<Rightarrow> q = q' | None \<Rightarrow> \<not> taken already_taken q)"
proof (cases "existing_artifact ctx p name version profile")
  case (Some q)
  then show ?thesis by (simp add: get_artifact_path_def)
next
  case None
  obtain r where fn: "name_ok fn" and of: "output_file numbers p name version profile wv wp = Normal fn # r"
    and r: "list_all body_component r"
    using output_file_shape [where numbers = numbers and version = version and profile = profile and wv = wv and wp = wp, OF f] by blast
  have rel: "strip_prefix (path_join folder (Normal fn # r)) folder = Normal fn # r"
    by (cases "folder = []") (simp_all add: strip_prefix_def path_join_def has_root_def)
  from number_candidates_free [OF fn r assms(1)] obtain q where
    q: "number_candidates already_taken (Normal fn # r) 1 = Some q" "\<not> taken already_taken q" by blast
  show ?thesis
    using None q parent_candidates_free [of already_taken folder "Normal fn # r" "path_parent p"]
    by (auto simp: get_artifact_path_def Let_def of conflict_free_output_file_def rel split: option.splits)
qed

lemma mem_concat_map:
  assumes "e \<in> set es" and "x \<in> set (case e of (a, b) \<Rightarrow> f a b)"
  shows "x \<in> set (concat (map (\<lambda>(a, b). f a b) es))"
  using assms by auto

lemma existing_in_context:
  "existing_artifact ctx p name version profile = Some q \<Longrightarrow> q \<in> set (context_paths ctx)"
proof -
  assume "existing_artifact ctx p name version profile = Some q"
  then obtain by_name by_version by_profile a where
    "(p, by_name) \<in> set ctx" "(name, by_version) \<in> set by_name" "(version, by_profile) \<in> set by_version"
    "(profile, a) \<in> set by_profile" "q = ca_path a"
    by (auto simp: existing_artifact_def split: option.splits dest!: map_of_SomeD)
  then have "q \<in> set (map (\<lambda>(_, a). ca_path a) by_profile)" by force
  then have "q \<in> set (concat (map (\<lambda>(_, by_profile). map (\<lambda>(_, a). ca_path a) by_profile) by_version))"
    using \<open>(version, by_profile) \<in> set by_version\<close> by (force intro: mem_concat_map)
  then have "q \<in> set (concat (map (\<lambda>(_, by_version). concat (map (\<lambda>(_, by_profile). map (\<lambda>(_, a). ca_path a) by_profile) by_version)) by_name))"
    by (rule mem_concat_map [OF \<open>(name, by_version) \<in> set by_name\<close>, unfolded prod.case])
  then show ?thesis
    unfolding context_paths_def by (rule mem_concat_map [OF \<open>(p, by_name) \<in> set ctx\<close>, unfolded prod.case])
qed

section \<open>Properties\<close>

definition job_key :: "('v, 'a) job \<Rightarrow> path \<times> string \<times> 'v \<times> string" where
  "job_key j = (jb_file j, jb_name j, jb_version j, jb_profile j)"

definition element_key :: "path \<times> string \<times> ('v, 'a) ArtifactFile \<Rightarrow> path \<times> string \<times> 'v \<times> string" where
  "element_key = (\<lambda>(p, name, f). (p, name, af_version f, af_profile f))"

text \<open>Where an artifact goes: to its cached path if there is one, else to a path no cached artifact has.\<close>

definition well_placed :: "'v OutputContext \<Rightarrow> path \<times> string \<times> ('v, 'a) ArtifactFile \<Rightarrow> bool" where
  "well_placed ctx = (\<lambda>(p, name, f).
     case existing_artifact ctx p name (af_version f) (af_profile f) of
       Some q \<Rightarrow> af_file f = q
     | None \<Rightarrow> lower_path (af_file f) \<notin> lower_path ` set (context_paths ctx))"

definition element_path :: "path \<times> string \<times> ('v, 'a) ArtifactFile \<Rightarrow> string" where
  "element_path = (\<lambda>(_, _, f). lower_path (af_file f))"

definition cached_apart :: "'v OutputContext \<Rightarrow> bool" where
  "cached_apart ctx \<longleftrightarrow> (\<forall>p name v prof p' name' v' prof' q q'.
     existing_artifact ctx p name v prof = Some q \<and> existing_artifact ctx p' name' v' prof' = Some q' \<and>
     lower_path q = lower_path q' \<longrightarrow> (p, name, v, prof) = (p', name', v', prof'))"

definition outputs_ok :: "'v OutputContext \<Rightarrow> ('v, 'a) Artifacts \<times> string set \<Rightarrow> bool" where
  "outputs_ok ctx = (\<lambda>(artifacts, tk). fm_wf artifacts \<and> finite tk \<and> lower_path ` set (context_paths ctx) \<subseteq> tk \<and>
     distinct (map element_path (fm_elements artifacts)) \<and> element_path ` set (fm_elements artifacts) \<subseteq> tk \<and>
     (\<forall>e \<in> set (fm_elements artifacts). well_placed ctx e))"

lemma distinct_by_mset: "mset xs = add_mset x (mset ys) \<Longrightarrow> distinct (map g xs) \<longleftrightarrow> g x \<notin> g ` set ys \<and> distinct (map g ys)"
proof -
  assume "mset xs = add_mset x (mset ys)"
  then have "mset (map g xs) = mset (map g (x # ys))" by simp
  then have "distinct (map g xs) = distinct (map g (x # ys))" by (rule mset_eq_imp_distinct_iff)
  then show ?thesis by simp
qed

lemma set_by_mset: "mset xs = add_mset x (mset ys) \<Longrightarrow> set xs = insert x (set ys)"
  by (metis set_mset_add_mset_insert set_mset_mset)

lemma fresh_element:
  assumes "cached_apart ctx" and sub: "lower_path ` set (context_paths ctx) \<subseteq> tk"
    and els: "element_path ` set es \<subseteq> tk" and placed: "\<forall>e \<in> set es. well_placed ctx e"
    and key: "element_key (p, name, a) \<notin> element_key ` set es"
    and path: "case existing_artifact ctx p name (af_version a) (af_profile a) of
      Some q \<Rightarrow> af_file a = q | None \<Rightarrow> \<not> taken tk (af_file a)"
  shows "element_path (p, name, a) \<notin> element_path ` set es \<and> well_placed ctx (p, name, a)"
proof (cases "existing_artifact ctx p name (af_version a) (af_profile a)")
  case None
  then have "element_path (p, name, a) \<notin> tk" using path by (simp add: taken_def element_path_def)
  then show ?thesis using els sub None by (auto simp: well_placed_def element_path_def)
next
  case (Some q)
  then have q: "af_file a = q" using path by simp
  have "element_path (p, name, a) \<noteq> element_path e" if e: "e \<in> set es" for e
  proof
    assume same: "element_path (p, name, a) = element_path e"
    obtain p' name' b where b: "e = (p', name', b)" by (cases e)
    have pl: "well_placed ctx (p', name', b)" using placed e b by blast
    show False
    proof (cases "existing_artifact ctx p' name' (af_version b) (af_profile b)")
      case None
      with pl b have "lower_path (af_file b) \<notin> lower_path ` set (context_paths ctx)" by (simp add: well_placed_def)
      moreover have "lower_path q \<in> lower_path ` set (context_paths ctx)"
        using existing_in_context [OF \<open>existing_artifact ctx p name (af_version a) (af_profile a) = Some q\<close>] by (rule imageI)
      ultimately show False using same b q by (simp add: element_path_def)
    next
      case (Some q')
      with pl same b q have "lower_path q = lower_path q'" by (simp add: well_placed_def element_path_def)
      with assms(1) Some \<open>existing_artifact ctx p name (af_version a) (af_profile a) = Some q\<close>
      have "element_key (p, name, a) = element_key e"
        unfolding cached_apart_def element_key_def b prod.case by blast
      with key e show False by blast
    qed
  qed
  then show ?thesis using Some q by (auto simp: well_placed_def)
qed

lemma place_jobs_spec:
  assumes "cached_apart ctx" and "outputs_ok ctx st" and "distinct (map job_key js)"
    and "job_key ` set js \<inter> element_key ` set (fm_elements (fst st)) = {}"
    and "\<forall>j \<in> set js. path_wf (jb_file j) \<and> path_file_name (jb_file j) \<noteq> None \<and> \<not> raw_has_root (jb_name j)"
  shows "\<exists>st'. place_jobs numbers ctx folder js st = Some st' \<and> outputs_ok ctx st' \<and>
    image_mset (\<lambda>(p, n, f). (p, n, af_version f, af_profile f, af_build_id f, af_artifact f)) (mset (fm_elements (fst st'))) =
    image_mset (\<lambda>(p, n, f). (p, n, af_version f, af_profile f, af_build_id f, af_artifact f)) (mset (fm_elements (fst st))) +
    mset (map (\<lambda>j. (jb_file j, jb_name j, jb_version j, jb_profile j, jb_build_id j, jb_artifact j)) js)"
  using assms(2-5)
proof (induction js arbitrary: st)
  case Nil
  then show ?case by simp
next
  case (Cons j js)
  obtain arts tk where st: "st = (arts, tk)" by (cases st)
  let ?E = "fm_elements arts"
  have ok: "fm_wf arts" "finite tk" "lower_path ` set (context_paths ctx) \<subseteq> tk" "distinct (map element_path ?E)"
    "element_path ` set ?E \<subseteq> tk" "\<forall>e \<in> set ?E. well_placed ctx e"
    using Cons.prems(1) by (auto simp: st outputs_ok_def)
  obtain fn where f: "path_wf (jb_file j)" "path_file_name (jb_file j) = Some fn" "\<not> raw_has_root (jb_name j)"
    using Cons.prems(4) by auto
  from get_artifact_path_spec [where numbers = numbers and ctx = ctx and folder = folder and version = "jb_version j" and
      profile = "jb_profile j" and wv = "jb_with_version j" and wp = "jb_with_profile j", OF ok(2) f]
  obtain q where q: "get_artifact_path numbers ctx tk (jb_file j) (jb_name j) folder (jb_version j) (jb_profile j)
      (jb_with_version j) (jb_with_profile j) = Some q"
    and cq: "case existing_artifact ctx (jb_file j) (jb_name j) (jb_version j) (jb_profile j) of
      Some q' \<Rightarrow> q = q' | None \<Rightarrow> \<not> taken tk q" by blast
  define a where "a = \<lparr>af_artifact = jb_artifact j, af_file = q, af_version = jb_version j, af_build_id = jb_build_id j, af_profile = jb_profile j\<rparr>"
  define arts' where "arts' = fm_push (jb_file j) (jb_name j) a arts"
  let ?e = "(jb_file j, jb_name j, a)"
  note push = fm_push_spec [OF ok(1), of "jb_file j" "jb_name j" a, folded arts'_def]
  have key: "element_key ?e = job_key j" by (simp add: element_key_def job_key_def a_def)
  have fresh: "element_path ?e \<notin> element_path ` set ?E \<and> well_placed ctx ?e"
  proof (rule fresh_element [OF assms(1) ok(3,5,6)])
    show "element_key ?e \<notin> element_key ` set ?E" using Cons.prems(3) unfolding key st by auto
    show "case existing_artifact ctx (jb_file j) (jb_name j) (af_version a) (af_profile a) of
        Some q \<Rightarrow> af_file a = q | None \<Rightarrow> \<not> taken tk (af_file a)"
      using cq by (simp add: a_def split: option.splits)
  qed
  have set': "set (fm_elements arts') = insert ?e (set ?E)" using push(2) by (rule set_by_mset)
  have ok': "outputs_ok ctx (arts', insert (lower_path q) tk)"
    using ok push(1) fresh distinct_by_mset [OF push(2), of element_path]
    by (auto simp: outputs_ok_def set' element_path_def a_def)
  have "job_key ` set js \<inter> element_key ` set (fm_elements (fst (arts', insert (lower_path q) tk))) = {}"
    using Cons.prems(2,3) by (auto simp: set' key st)
  from Cons.IH [OF ok' _ this] Cons.prems(2,4) obtain st' where
    r: "place_jobs numbers ctx folder js (arts', insert (lower_path q) tk) = Some st'" "outputs_ok ctx st'"
    "image_mset (\<lambda>(p, n, f). (p, n, af_version f, af_profile f, af_build_id f, af_artifact f)) (mset (fm_elements (fst st'))) =
     image_mset (\<lambda>(p, n, f). (p, n, af_version f, af_profile f, af_build_id f, af_artifact f)) (mset (fm_elements arts')) +
     mset (map (\<lambda>j. (jb_file j, jb_name j, jb_version j, jb_profile j, jb_build_id j, jb_artifact j)) js)" by auto
  have "place_jobs numbers ctx folder (j # js) st = Some st'"
    using r(1) by (simp add: st q a_def [symmetric] arts'_def [symmetric])
  with r(2,3) show ?case by (auto simp: push(2) st a_def)
qed


text \<open>Two contracts of one name in two files of one name, with a cached artifact for the first.\<close>

definition sample_ops :: "(nat, unit, nat, nat) artifact_ops" where
  "sample_ops = \<lparr>ao_contract_to_artifact = (\<lambda>_ _ k _. k), ao_standalone = (\<lambda>_ _. None), ao_is_contract = (\<lambda>_. True),
     ao_numbers = (\<lambda>v. (0, 8, v))\<rparr>"

definition sample_contracts :: "(nat, nat) VersionedContracts" where
  "sample_contracts =
     [(components ''/p/x/a.sol'', [(''A'', [versioned_contract 1 ''b'' ''default'' 5])]),
      (components ''/p/y/a.sol'', [(''A'', [versioned_contract 1 ''b'' ''default'' 6])])]"

definition sample_context :: "nat OutputContext" where
  "sample_context = [(components ''/p/x/a.sol'',
     [(''A'', [(1, [(''default'', \<lparr>ca_path = components ''/o/a.sol/A.json'', ca_build_id = ''b''\<rparr>)])])])]"


text \<open>
  The numbered candidates are the only ones that are not joined with the artifacts folder, yet they
  are compared with the paths of cached artifacts, which are.  The path is joined afterwards and can
  then be that of a cached artifact.
\<close>

lemma numbered_candidate_collides:
  "conflict_free_output_file {''/o/a.sol/a.json'', ''/o/p/a.sol/a.json'', ''/o/a.sol_1/a.json''}
     (components ''/o/a.sol/a.json'') (components ''/p/a.sol'') (components ''/o'') = Some (components ''a.sol_1/a.json'')"
  "taken {''/o/a.sol/a.json'', ''/o/p/a.sol/a.json'', ''/o/a.sol_1/a.json''}
     (path_join (components ''/o'') (components ''a.sol_1/a.json''))"
  by code_simp+

end
