(* ===== verification/Artifact_Cache.thy ===== *)
theory Artifact_Cache
  imports Graph_Resolve Artifact_Output
begin

text \<open>
  \<open>ArtifactsCacheInner\<close> and \<open>ArtifactsCache\<close> of \<open>cache.rs\<close>: what has to be compiled again and which
  cached artifacts are kept.  The record \<open>cache_project\<close> holds the parts of \<open>Project\<close> that are read
  and the functions outside the cache: the parser, the file system, hashes, times, and the reading of
  JSON files.  A map that is looked up and extended is a function to \<open>option\<close>.
\<close>

section \<open>The state\<close>

datatype SourceCompilationKind = Complete | Optimized

record Source =
  so_content :: string
  so_kind :: SourceCompilationKind

record ('c, 'd, 'v, 's, 'a, 'l) cache_project =
  cp_paths :: ProjectPathsConfig
  cp_parser :: "('c, 'd) parser_ops"
  cp_fs :: fs
  cp_cached :: bool
  cp_settings_profiles :: "(string \<times> 's) list"
  cp_can_use_cached :: "'s \<Rightarrow> 's \<Rightarrow> bool"
  cp_content_hash :: "string \<Rightarrow> string"
  cp_interface_repr :: "string \<Rightarrow> path \<Rightarrow> string option"
  cp_last_modification :: "path \<Rightarrow> 64 word option"
  cp_version_req_text :: "'c list \<Rightarrow> string"
  cp_artifact_dirty :: "('v, 'a) ArtifactFile \<Rightarrow> bool option"
  cp_read_cache :: "path \<Rightarrow> ('v, 's) CompilerCache option"
  cp_read_artifact :: "path \<Rightarrow> 'a option"
  cp_read_build :: "path \<Rightarrow> 'l BuildContext option"

type_synonym 'v GroupedSources = "path \<Rightarrow> 'v set option"

definition grouped_insert :: "path \<Rightarrow> 'v \<Rightarrow> 'v GroupedSources \<Rightarrow> 'v GroupedSources" where
  "grouped_insert p version g = g(p \<mapsto> (case g p of Some versions \<Rightarrow> insert version versions | None \<Rightarrow> {version}))"

definition grouped_contains :: "'v GroupedSources \<Rightarrow> path \<Rightarrow> 'v \<Rightarrow> bool" where
  "grouped_contains g p version \<longleftrightarrow> (case g p of None \<Rightarrow> False | Some versions \<Rightarrow> version \<in> versions)"

record ('c, 'd, 'v, 's, 'a, 'l) ArtifactsCacheInner =
  ac_cache :: "('v, 's) CompilerCache"
  ac_cached_artifacts :: "('v, 'a) Artifacts"
  ac_cached_builds :: "(string, 'l BuildContext) btree"
  ac_edges :: "('c, 'd) GraphEdges"
  ac_dirty_sources :: "path set"
  ac_sources_in_scope :: "'v GroupedSources"
  ac_content_hashes :: "path \<Rightarrow> string option"
  ac_interface_repr_hashes :: "path \<Rightarrow> string option"

section \<open>Hashes and entries\<close>

definition set_content_hash :: "('c, 'd, 'v, 's, 'a, 'l) cache_project \<Rightarrow> string \<Rightarrow> path
    \<Rightarrow> ('c, 'd, 'v, 's, 'a, 'l) ArtifactsCacheInner \<Rightarrow> string \<times> ('c, 'd, 'v, 's, 'a, 'l) ArtifactsCacheInner" where
  "set_content_hash cp content p st =
     (case ac_content_hashes st p of
        Some h \<Rightarrow> (h, st)
      | None \<Rightarrow> let h = cp_content_hash cp content in (h, st\<lparr>ac_content_hashes := (ac_content_hashes st)(p \<mapsto> h)\<rparr>))"

definition set_interface_repr_hash :: "('c, 'd, 'v, 's, 'a, 'l) cache_project \<Rightarrow> string \<Rightarrow> path
    \<Rightarrow> ('c, 'd, 'v, 's, 'a, 'l) ArtifactsCacheInner \<Rightarrow> string \<times> ('c, 'd, 'v, 's, 'a, 'l) ArtifactsCacheInner" where
  "set_interface_repr_hash cp content p st =
     (case ac_interface_repr_hashes st p of
        Some h \<Rightarrow> (h, st)
      | None \<Rightarrow>
          let (h, st') = (case cp_interface_repr cp content p of
              Some r \<Rightarrow> (r, st) | None \<Rightarrow> set_content_hash cp content p st)
          in (h, st'\<lparr>ac_interface_repr_hashes := (ac_interface_repr_hashes st')(p \<mapsto> h)\<rparr>))"

text \<open>An index out of range in the edges is a panic, the value \<open>None\<close>.\<close>

definition create_cache_entry :: "('c, 'd, 'v, 's, 'a, 'l) cache_project \<Rightarrow> path \<Rightarrow> string
    \<Rightarrow> ('c, 'd, 'v, 's, 'a, 'l) ArtifactsCacheInner \<Rightarrow> ('c, 'd, 'v, 's, 'a, 'l) ArtifactsCacheInner option" where
  "create_cache_entry cp p content st =
     (case imports_of (ac_edges st) p of
        None \<Rightarrow> None
      | Some imports \<Rightarrow>
          let root = pc_root (cp_paths cp);
              (interface_repr_hash, st') =
                (if cc_preprocessed (ac_cache st) \<and> is_source_file (cp_paths cp) p
                 then (let (h, st1) = set_interface_repr_hash cp content p st in (Some h, st1)) else (None, st));
              entry = \<lparr>en_last_modification_date = (case cp_last_modification cp p of Some d \<Rightarrow> d | None \<Rightarrow> 0),
                 en_content_hash = cp_content_hash cp content, en_interface_repr_hash = interface_repr_hash,
                 en_source_name = strip_prefix p root, en_imports = (\<lambda>i. strip_prefix i root) ` imports,
                 en_version_requirement = map_option (cp_version_req_text cp) (file_version_requirement (ac_edges st) p),
                 en_artifacts = [], en_seen_by_compiler = False\<rparr>
          in Some (st'\<lparr>ac_cache := (ac_cache st')\<lparr>cc_files := bt_insert p entry (cc_files (ac_cache st'))\<rparr>\<rparr>))"

section \<open>Filtering the sources\<close>

definition missing_extra_files :: "('c, 'd, 'v, 's, 'a, 'l) cache_project \<Rightarrow> ('c, 'd, 'v, 's, 'a, 'l) ArtifactsCacheInner \<Rightarrow> bool" where
  "missing_extra_files cp st =
     list_ex (\<lambda>f. case cp_artifact_dirty cp f of Some d \<Rightarrow> d | None \<Rightarrow> True) (artifact_files (ac_cached_artifacts st))"

definition is_missing_artifacts_impl :: "('c, 'd, 'v, 's, 'a, 'l) cache_project \<Rightarrow> ('c, 'd, 'v, 's, 'a, 'l) ArtifactsCacheInner
    \<Rightarrow> path \<Rightarrow> 'v \<Rightarrow> string \<Rightarrow> (string, unit) result" where
  "is_missing_artifacts_impl cp st p version profile =
     (case cc_entry (ac_cache st) p of
        None \<Rightarrow> Inl ''missing cache entry''
      | Some entry \<Rightarrow>
          if en_seen_by_compiler entry \<and> en_artifacts entry = [] then Inr ()
          else if \<not> entry_contains entry version profile then Inl ''missing linked artifacts''
          else if list_ex (\<lambda>a. \<not> has_artifact (ac_cached_artifacts st) (ca_path a)) (artifacts_for_version entry version)
               then Inl ''missing artifact''
          else if missing_extra_files cp st then Inl ''missing extra files''
          else Inr ())"

definition is_missing_artifacts :: "('c, 'd, 'v, 's, 'a, 'l) cache_project \<Rightarrow> ('c, 'd, 'v, 's, 'a, 'l) ArtifactsCacheInner
    \<Rightarrow> path \<Rightarrow> 'v \<Rightarrow> string \<Rightarrow> bool" where
  "is_missing_artifacts cp st p version profile \<longleftrightarrow> \<not> is_ok (is_missing_artifacts_impl cp st p version profile)"

fun filter_loop :: "('c, 'd, 'v, 's, 'a, 'l) cache_project \<Rightarrow> 'v \<Rightarrow> string \<Rightarrow> (path \<times> Source) list
    \<Rightarrow> path list \<times> ('c, 'd, 'v, 's, 'a, 'l) ArtifactsCacheInner
    \<Rightarrow> (path list \<times> ('c, 'd, 'v, 's, 'a, 'l) ArtifactsCacheInner) option" where
  "filter_loop cp version profile [] acc = Some acc"
| "filter_loop cp version profile ((p, source) # rest) (complete, st) =
     (let st1 = st\<lparr>ac_sources_in_scope := grouped_insert p version (ac_sources_in_scope st)\<rparr>;
          complete' = (if is_missing_artifacts cp st1 p version profile then complete @ [p] else complete)
      in case (if cc_entry (ac_cache st1) p \<noteq> None then Some st1 else create_cache_entry cp p (so_content source) st1) of
           None \<Rightarrow> None
         | Some st2 \<Rightarrow> filter_loop cp version profile rest (complete', st2))"

text \<open>The imports of the files that are compiled, as far as they are not compiled themselves.\<close>

fun imports_of_all :: "('c, 'd) GraphEdges \<Rightarrow> path list \<Rightarrow> path set option" where
  "imports_of_all g [] = Some {}"
| "imports_of_all g (p # ps) =
     (case (imports_of g p, imports_of_all g ps) of (Some a, Some b) \<Rightarrow> Some (a \<union> b) | _ \<Rightarrow> None)"

definition mark_sources :: "path set \<Rightarrow> path set \<Rightarrow> (path, Source) btree \<Rightarrow> (path, Source) btree" where
  "mark_sources complete optimized sources = bt_filter_map (\<lambda>p source.
     if p \<in> complete then Some (source\<lparr>so_kind := Complete\<rparr>)
     else if p \<in> optimized then Some (source\<lparr>so_kind := Optimized\<rparr>)
     else None) sources"

definition cache_filter :: "('c, 'd, 'v, 's, 'a, 'l) cache_project \<Rightarrow> (path, Source) btree \<Rightarrow> 'v \<Rightarrow> string
    \<Rightarrow> ('c, 'd, 'v, 's, 'a, 'l) ArtifactsCacheInner
    \<Rightarrow> ((path, Source) btree \<times> ('c, 'd, 'v, 's, 'a, 'l) ArtifactsCacheInner) option" where
  "cache_filter cp sources version profile st =
     (case filter_loop cp version profile sources ([], st) of
        None \<Rightarrow> None
      | Some (complete, st') \<Rightarrow>
          (case imports_of_all (ac_edges st') complete of
             None \<Rightarrow> None
           | Some imports \<Rightarrow> Some (mark_sources (set complete) (imports - set complete) sources, st')))"

section \<open>Dirty sources\<close>

definition is_dirty_impl :: "('c, 'd, 'v, 's, 'a, 'l) ArtifactsCacheInner \<Rightarrow> path \<Rightarrow> bool \<Rightarrow> (string, unit) result" where
  "is_dirty_impl st p use_interface_repr =
     (case cc_entry (ac_cache st) p of
        None \<Rightarrow> Inl ''missing cache entry''
      | Some entry \<Rightarrow>
          if use_interface_repr \<and> cc_preprocessed (ac_cache st) then
            (case ac_interface_repr_hashes st p of
               None \<Rightarrow> Inl ''missing interface hash''
             | Some h \<Rightarrow> if en_interface_repr_hash entry \<noteq> Some h then Inl ''interface hash changed'' else Inr ())
          else
            (case ac_content_hashes st p of
               None \<Rightarrow> Inl ''missing content hash''
             | Some h \<Rightarrow> if en_content_hash entry \<noteq> h then Inl ''content hash changed'' else Inr ()))"

definition is_dirty :: "('c, 'd, 'v, 's, 'a, 'l) ArtifactsCacheInner \<Rightarrow> path \<Rightarrow> bool \<Rightarrow> bool" where
  "is_dirty st p use_interface_repr \<longleftrightarrow> \<not> is_ok (is_dirty_impl st p use_interface_repr)"

fun fill_hashes :: "('c, 'd, 'v, 's, 'a, 'l) cache_project \<Rightarrow> (path \<times> string) list
    \<Rightarrow> ('c, 'd, 'v, 's, 'a, 'l) ArtifactsCacheInner \<Rightarrow> ('c, 'd, 'v, 's, 'a, 'l) ArtifactsCacheInner" where
  "fill_hashes cp [] st = st"
| "fill_hashes cp ((p, content) # rest) st =
     (let st1 = snd (set_content_hash cp content p st);
          st2 = (if cc_preprocessed (ac_cache st1) \<and> is_source_file (cp_paths cp) p
                 then snd (set_interface_repr_hash cp content p st1) else st1)
      in fill_hashes cp rest st2)"

text \<open>Entries that had artifacts and lose all of them to a dirty profile are dropped.\<close>

definition retain_profiles_entry :: "string set \<Rightarrow> 'v CacheEntry \<Rightarrow> 'v CacheEntry" where
  "retain_profiles_entry dirty e =
     e\<lparr>en_artifacts := filter (\<lambda>(_, by_version). by_version \<noteq> [])
        (map_values (\<lambda>by_version. filter (\<lambda>(_, by_profile). by_profile \<noteq> [])
           (map_values (filter (\<lambda>(profile, _). profile \<notin> dirty)) by_version)) (en_artifacts e))\<rparr>"

definition retain_entries :: "string set \<Rightarrow> (path, 'v CacheEntry) btree \<Rightarrow> (path, 'v CacheEntry) btree" where
  "retain_entries dirty m = bt_filter_map (\<lambda>_ e.
     if en_artifacts e = [] then Some e
     else let e' = retain_profiles_entry dirty e in if en_artifacts e' = [] then None else Some e') m"

definition update_profiles :: "('c, 'd, 'v, 's, 'a, 'l) cache_project \<Rightarrow> ('v, 's) CompilerCache \<Rightarrow> ('v, 's) CompilerCache" where
  "update_profiles cp c =
     (let existing = bt_of_list (cp_settings_profiles cp);
          dirty = set (map fst (filter (\<lambda>(profile, settings).
             \<not> (case bt_get existing profile of None \<Rightarrow> False | Some p \<Rightarrow> cp_can_use_cached cp p settings)) (cc_profiles c)));
          kept = filter (\<lambda>(profile, _). profile \<notin> dirty) (cc_profiles c);
          profiles = fold (\<lambda>(profile, settings) m. if bt_get m profile = None then bt_insert profile settings m else m) existing kept
      in c\<lparr>cc_profiles := profiles, cc_files := retain_entries dirty (cc_files c)\<rparr>)"

text \<open>
  \<open>populate_dirty_files\<close>: its loop over the importers of a file with the recursion as a stack, the
  files still to look at.  A file is entered once, so the walk ends.
\<close>

definition importers_list :: "('c, 'd) GraphEdges \<Rightarrow> path \<Rightarrow> path list option" where
  "importers_list g p = map_option sorted_list_of_set (importers g p)"

definition unmarked :: "('c, 'd) GraphEdges \<Rightarrow> path set \<Rightarrow> nat" where
  "unmarked g dirty = card (fst ` set (ge_indices g) - dirty)"

lemma importers_none: "p \<notin> fst ` set (ge_indices g) \<Longrightarrow> importers_list g p = Some []"
  by (simp add: importers_list_def importers_def map_of_eq_None_iff [symmetric])

lemma unmarked_insert:
  "p \<in> fst ` set (ge_indices g) \<Longrightarrow> p \<notin> dirty \<Longrightarrow> unmarked g (insert p dirty) < unmarked g dirty"
proof -
  assume a: "p \<in> fst ` set (ge_indices g)" "p \<notin> dirty"
  then have "fst ` set (ge_indices g) - insert p dirty \<subset> fst ` set (ge_indices g) - dirty" by auto
  then show ?thesis unfolding unmarked_def by (intro psubset_card_mono) auto
qed

lemma unmarked_outside: "p \<notin> fst ` set (ge_indices g) \<Longrightarrow> unmarked g (insert p dirty) = unmarked g dirty"
  unfolding unmarked_def by (intro arg_cong [where f = card]) auto

function mark_importers :: "('c, 'd) GraphEdges \<Rightarrow> path list \<Rightarrow> path set \<Rightarrow> path set option" where
  "mark_importers g [] dirty = Some dirty"
| "mark_importers g (p # stack) dirty =
     (if p \<in> dirty then mark_importers g stack dirty
      else case importers_list g p of
             None \<Rightarrow> None
           | Some ps \<Rightarrow> mark_importers g (ps @ stack) (insert p dirty))"
  by pat_completeness auto

termination
proof (relation "measures [\<lambda>(g, stack, dirty). unmarked g dirty, \<lambda>(g, stack, dirty). length stack]")
  fix g :: "('c, 'd) GraphEdges" and p ps stack dirty
  assume n: "p \<notin> dirty" and ps: "importers_list g p = Some ps"
  show "((g, ps @ stack, insert p dirty), (g, p # stack, dirty)) \<in> measures [\<lambda>(g, stack, dirty). unmarked g dirty, \<lambda>(g, stack, dirty). length stack]"
  proof (cases "p \<in> fst ` set (ge_indices g)")
    case True
    then show ?thesis using unmarked_insert [OF True n] by simp
  next
    case False
    then show ?thesis using importers_none [OF False] ps unmarked_outside [OF False] by simp
  qed
qed auto

definition populate_dirty_files :: "('c, 'd) GraphEdges \<Rightarrow> path \<Rightarrow> path set \<Rightarrow> path set option" where
  "populate_dirty_files g p dirty =
     (case importers_list g p of None \<Rightarrow> None | Some ps \<Rightarrow> mark_importers g ps dirty)"

fun populate_all :: "('c, 'd) GraphEdges \<Rightarrow> path list \<Rightarrow> path set \<Rightarrow> path set option" where
  "populate_all g [] dirty = Some dirty"
| "populate_all g (p # ps) dirty =
     (case populate_dirty_files g p dirty of None \<Rightarrow> None | Some dirty' \<Rightarrow> populate_all g ps dirty')"

text \<open>
  With preprocessing, a source file is dirty when it imports a dirty file; a test or script when it
  imports a dirty test or script, or a source file whose interface changed, or is a mock.
\<close>

fun mark_by_imports :: "('c, 'd, 'v, 's, 'a, 'l) cache_project \<Rightarrow> ('c, 'd, 'v, 's, 'a, 'l) ArtifactsCacheInner
    \<Rightarrow> ('c, 'd) GraphEdges \<Rightarrow> path \<Rightarrow> path list \<Rightarrow> path set \<Rightarrow> path set option" where
  "mark_by_imports cp st edges p [] dirty = Some dirty"
| "mark_by_imports cp st edges p (i # rest) dirty =
     (let is_src = is_source_file (cp_paths cp) p; mock = p \<in> cc_mocks (ac_cache st)
      in if is_src \<and> i \<in> dirty then Some (insert p dirty)
         else if \<not> is_src \<and> i \<in> dirty \<and>
                 (\<not> is_source_file (cp_paths cp) i \<or> is_dirty st i True \<or> mock)
         then (case (if mock then populate_dirty_files edges p dirty else Some dirty) of
                 None \<Rightarrow> None
               | Some dirty' \<Rightarrow> mark_by_imports cp st edges p rest (insert p dirty'))
         else mark_by_imports cp st edges p rest dirty)"

fun mark_preprocessed :: "('c, 'd, 'v, 's, 'a, 'l) cache_project \<Rightarrow> ('c, 'd, 'v, 's, 'a, 'l) ArtifactsCacheInner
    \<Rightarrow> ('c, 'd) GraphEdges \<Rightarrow> path list \<Rightarrow> path set \<Rightarrow> path set option" where
  "mark_preprocessed cp st edges [] dirty = Some dirty"
| "mark_preprocessed cp st edges (p # ps) dirty =
     (if p \<in> dirty then mark_preprocessed cp st edges ps dirty
      else case imports_of edges p of
             None \<Rightarrow> None
           | Some imports \<Rightarrow>
               (case mark_by_imports cp st edges p (sorted_list_of_set imports) dirty of
                  None \<Rightarrow> None
                | Some dirty' \<Rightarrow> mark_preprocessed cp st edges ps dirty'))"

text \<open>The sources that could be read, with their content.\<close>

definition read_files :: "(path \<Rightarrow> string option) \<Rightarrow> path list \<Rightarrow> string sources" where
  "read_files read ps = bt_of_list (List.map_filter (\<lambda>p. map_option (Pair p) (read p)) ps)"

text \<open>The files whose entries cannot be kept, from the files and edges of the graph.\<close>

definition dirty_in_graph :: "('c, 'd, 'v, 's, 'a, 'l) cache_project \<Rightarrow> ('c, 'd, 'v, 's, 'a, 'l) ArtifactsCacheInner
    \<Rightarrow> path set \<Rightarrow> string sources \<Rightarrow> ('c, 'd) GraphEdges \<Rightarrow> path set option" where
  "dirty_in_graph cp st unreadable sources edges =
     (let keys = map fst sources; dirty = unreadable \<union> set (filter (\<lambda>p. is_dirty st p False) keys)
      in if cc_preprocessed (ac_cache st) then mark_preprocessed cp st edges keys dirty
         else populate_all edges (sorted_list_of_set dirty) dirty)"

definition dirty_files :: "('c, 'd, 'v, 's, 'a, 'l) cache_project \<Rightarrow> ('c, 'd, 'v, 's, 'a, 'l) ArtifactsCacheInner
    \<Rightarrow> (path set \<times> ('c, 'd, 'v, 's, 'a, 'l) ArtifactsCacheInner) option" where
  "dirty_files cp st =
     (let keys = map fst (cc_files (ac_cache st)); read = po_read (cp_parser cp);
          unreadable = ac_dirty_sources st \<union> set (filter (\<lambda>p. read p = None) keys)
      in case resolve_sources (cp_parser cp) (cp_fs cp) (cp_paths cp) (read_files read keys) of
           None \<Rightarrow> None
         | Some (Inl EdgePanic) \<Rightarrow> None
         | Some (Inl _) \<Rightarrow> Some (unreadable \<union> set keys, st)
         | Some (Inr graph) \<Rightarrow>
             let (sources, edges) = into_sources graph; st' = fill_hashes cp sources st
             in map_option (\<lambda>d. (d, st')) (dirty_in_graph cp st' unreadable sources edges))"

definition remove_dirty_sources :: "('c, 'd, 'v, 's, 'a, 'l) cache_project \<Rightarrow> ('c, 'd, 'v, 's, 'a, 'l) ArtifactsCacheInner
    \<Rightarrow> ('c, 'd, 'v, 's, 'a, 'l) ArtifactsCacheInner option" where
  "remove_dirty_sources cp st =
     (case dirty_files cp (st\<lparr>ac_cache := update_profiles cp (ac_cache st)\<rparr>) of
        None \<Rightarrow> None
      | Some (dirty, st') \<Rightarrow> Some (st'\<lparr>ac_dirty_sources := dirty,
          ac_cache := (ac_cache st')\<lparr>cc_files := bt_retain (\<lambda>p _. p \<notin> dirty) (cc_files (ac_cache st'))\<rparr>\<rparr>))"

section \<open>\<open>ArtifactsCache\<close>\<close>

datatype ('c, 'd, 'v, 's, 'a, 'l) ArtifactsCache =
    Ephemeral "('c, 'd) GraphEdges"
  | Cached "('c, 'd, 'v, 's, 'a, 'l) ArtifactsCacheInner"

definition get_cache :: "('c, 'd, 'v, 's, 'a, 'l) cache_project \<Rightarrow> bool \<Rightarrow> bool \<Rightarrow> ('v, 's) CompilerCache" where
  "get_cache cp invalidate_cache preprocessed =
     (let paths = paths_relative (cp_paths cp);
          empty = compiler_cache_new [] paths preprocessed
      in if \<not> invalidate_cache \<and> fs_exists (cp_fs cp) (pc_cache (cp_paths cp))
         then (case read_joined (cp_read_cache cp (pc_cache (cp_paths cp))) (cp_paths cp) of
                 None \<Rightarrow> empty
               | Some cache \<Rightarrow> if cc_paths cache = paths \<and> preprocessed = cc_preprocessed cache then cache else empty)
         else empty)"

definition read_artifact_files :: "(path \<Rightarrow> 'a option) \<Rightarrow> 'v CacheEntry \<Rightarrow> (string, ('v, 'a) ArtifactFile list) btree option" where
  "read_artifact_files read e =
     (let read_one = (\<lambda>(version, profile, a). map_option (\<lambda>artifact.
            \<lparr>af_artifact = artifact, af_file = ca_path a, af_version = version, af_build_id = ca_build_id a, af_profile = profile\<rparr>)
            (read (ca_path a)));
          files = map (\<lambda>(name, by_version). (name, map read_one
            (concat (map (\<lambda>(version, by_profile). map (\<lambda>(profile, a). (version, profile, a)) by_profile) by_version)))) (en_artifacts e)
      in if list_all (\<lambda>(_, fs). None \<notin> set fs) files then Some (map (\<lambda>(name, fs). (name, map the fs)) files) else None)"

definition read_artifacts :: "(path \<Rightarrow> 'a option) \<Rightarrow> ('v, 's) CompilerCache \<Rightarrow> ('v, 'a) Artifacts option" where
  "read_artifacts read c =
     (let files = map (\<lambda>(p, e). (p, read_artifact_files read e)) (cc_files c)
      in if list_all (\<lambda>(_, fs). fs \<noteq> None) files then Some (map (\<lambda>(p, fs). (p, the fs)) files) else None)"

text \<open>The build ids are a set; the file of each is read, and all must be readable.\<close>

definition build_info_path :: "path \<Rightarrow> string \<Rightarrow> path" where
  "build_info_path dir build_id = path_with_extension (path_join dir (components build_id)) ''json''"

definition read_builds :: "(path \<Rightarrow> 'l BuildContext option) \<Rightarrow> path \<Rightarrow> ('v, 's) CompilerCache \<Rightarrow> (string, 'l BuildContext) btree option" where
  "read_builds read dir c =
     (let ids = sorted_list_of_set (cc_builds c)
      in if list_all (\<lambda>i. read (build_info_path dir i) \<noteq> None) ids
         then Some (map (\<lambda>i. (i, the (read (build_info_path dir i)))) ids) else None)"

text \<open>The retain over artifacts that drops emptied levels.\<close>

definition retain_artifacts :: "(path \<Rightarrow> string \<Rightarrow> ('v, 'a) ArtifactFile \<Rightarrow> bool) \<Rightarrow> ('v, 'a) Artifacts \<Rightarrow> ('v, 'a) Artifacts" where
  "retain_artifacts keep m =
     filter (\<lambda>(_, by_name). by_name \<noteq> []) (map (\<lambda>(p, by_name).
       (p, filter (\<lambda>(_, fs). fs \<noteq> []) (map (\<lambda>(name, fs). (name, filter (keep p name) fs)) by_name))) m)"

definition artifacts_cache_new :: "('c, 'd, 'v, 's, 'a, 'l) cache_project \<Rightarrow> ('c, 'd) GraphEdges \<Rightarrow> bool
    \<Rightarrow> ('c, 'd, 'v, 's, 'a, 'l) ArtifactsCache" where
  "artifacts_cache_new cp edges preprocessed =
     (if \<not> cp_cached cp then Ephemeral edges
      else
        let invalidate_cache = ge_unresolved_imports edges \<noteq> {};
            cache = remove_missing_files (cp_fs cp) (get_cache cp invalidate_cache preprocessed);
            cached_artifacts = (if fs_exists (cp_fs cp) (pc_artifacts (cp_paths cp))
              then (case read_artifacts (cp_read_artifact cp) cache of Some a \<Rightarrow> a | None \<Rightarrow> []) else []);
            cached_builds = (case read_builds (cp_read_build cp) (pc_build_infos (cp_paths cp)) cache of Some b \<Rightarrow> b | None \<Rightarrow> [])
        in Cached \<lparr>ac_cache = cache,
             ac_cached_artifacts = retain_artifacts (\<lambda>_ _ f. bt_get cached_builds (af_build_id f) \<noteq> None) cached_artifacts,
             ac_cached_builds = cached_builds, ac_edges = edges, ac_dirty_sources = {},
             ac_sources_in_scope = (\<lambda>_. None), ac_content_hashes = (\<lambda>_. None), ac_interface_repr_hashes = (\<lambda>_. None)\<rparr>)"

definition cache_graph :: "('c, 'd, 'v, 's, 'a, 'l) ArtifactsCache \<Rightarrow> ('c, 'd) GraphEdges" where
  "cache_graph c = (case c of Ephemeral g \<Rightarrow> g | Cached st \<Rightarrow> ac_edges st)"

definition output_ctx :: "('c, 'd, 'v, 's, 'a, 'l) ArtifactsCache \<Rightarrow> 'v OutputContext" where
  "output_ctx c = (case c of Ephemeral _ \<Rightarrow> [] | Cached st \<Rightarrow> output_context (ac_cache st))"

definition update_mocks :: "path set \<Rightarrow> ('c, 'd, 'v, 's, 'a, 'l) ArtifactsCache \<Rightarrow> ('c, 'd, 'v, 's, 'a, 'l) ArtifactsCache" where
  "update_mocks mocks c = (case c of Ephemeral g \<Rightarrow> Ephemeral g
     | Cached st \<Rightarrow> Cached (st\<lparr>ac_cache := (ac_cache st)\<lparr>cc_mocks := mocks\<rparr>\<rparr>))"

definition mocks_of :: "('c, 'd, 'v, 's, 'a, 'l) ArtifactsCache \<Rightarrow> path set" where
  "mocks_of c = (case c of Ephemeral _ \<Rightarrow> {} | Cached st \<Rightarrow> cc_mocks (ac_cache st))"

definition compiler_seen :: "path \<Rightarrow> ('c, 'd, 'v, 's, 'a, 'l) ArtifactsCache \<Rightarrow> ('c, 'd, 'v, 's, 'a, 'l) ArtifactsCache" where
  "compiler_seen p c = (case c of Ephemeral g \<Rightarrow> Ephemeral g
     | Cached st \<Rightarrow> Cached (st\<lparr>ac_cache := (ac_cache st)\<lparr>cc_files :=
         map (\<lambda>(q, e). (q, if q = p then e\<lparr>en_seen_by_compiler := True\<rparr> else e)) (cc_files (ac_cache st))\<rparr>\<rparr>))"

text \<open>
  The values that \<open>consume\<close> returns: the cached artifacts that stay, the cached builds and the edges;
  and the cache as it is written to disk when \<open>write_to_disk\<close> is set, with the build info files deleted.
\<close>

definition keep_cached :: "('v, 'a) Artifacts \<Rightarrow> ('c, 'd, 'v, 's, 'a, 'l) ArtifactsCacheInner
    \<Rightarrow> path \<Rightarrow> string \<Rightarrow> ('v, 'a) ArtifactFile \<Rightarrow> bool" where
  "keep_cached written st p name f \<longleftrightarrow>
     (if \<not> grouped_contains (ac_sources_in_scope st) p (af_version f) then False
      else if p \<in> ac_dirty_sources st then False
      else if find_artifact_file written p name (af_version f) \<noteq> None then False
      else True)"

definition merge_written :: "('v::linorder, 'a) Artifacts \<Rightarrow> (path, 'v CacheEntry) btree \<Rightarrow> (path, 'v CacheEntry) btree" where
  "merge_written written entries =
     fold (\<lambda>(p, artifacts) m. case bt_get m p of None \<Rightarrow> m | Some e \<Rightarrow> bt_insert p (merge_artifacts artifacts e) m) written entries"

definition cache_consume :: "('c, 'd, 'v::linorder, 's, 'a, 'l) cache_project \<Rightarrow> ('v, 'a) Artifacts \<Rightarrow> string list \<Rightarrow> bool
    \<Rightarrow> ('c, 'd, 'v, 's, 'a, 'l) ArtifactsCache
    \<Rightarrow> (('v, 'a) Artifacts \<times> (string, 'l BuildContext) btree \<times> ('c, 'd) GraphEdges) \<times> (('v, 's) CompilerCache \<times> path set) option" where
  "cache_consume cp written written_build_ids write_to_disk c =
     (case c of
        Ephemeral g \<Rightarrow> (([], [], g), None)
      | Cached st \<Rightarrow>
          let cache = (ac_cache st)\<lparr>cc_files := merge_written written (cc_files (ac_cache st)),
                cc_builds := cc_builds (ac_cache st) \<union> set written_build_ids\<rparr>
          in ((retain_artifacts (keep_cached written st) (ac_cached_artifacts st), ac_cached_builds st, ac_edges st),
              if write_to_disk
              then let (cache', deleted) = remove_outdated_builds cache
                   in Some (prepare_write (pc_root (cp_paths cp)) (pc_artifacts (cp_paths cp)) cache', deleted)
              else None))"

section \<open>The walk over the importers\<close>

definition listed :: "(path \<Rightarrow> path set option) \<Rightarrow> path \<Rightarrow> path list" where
  "listed f p = (case f p of None \<Rightarrow> [] | Some ps \<Rightarrow> sorted_list_of_set ps)"

interpretation importing: import_graph "listed f" for f .

abbreviation importing :: "('c, 'd) GraphEdges \<Rightarrow> path \<Rightarrow> path list" where
  "importing g \<equiv> listed (importers g)"

lemma importing_list: "importers_list g p = Some ps \<Longrightarrow> importing g p = ps"
  by (auto simp: importers_list_def listed_def)

lemma mark_importers_spec:
  assumes "\<forall>p. importers_list g p \<noteq> None"
  shows "\<exists>dirty'. mark_importers g stack dirty = Some dirty' \<and> dirty \<union> set stack \<subseteq> dirty' \<and>
    dirty' \<subseteq> dirty \<union> importing.reach (importers g) (set stack) \<and> (\<forall>x \<in> dirty'. x \<in> dirty \<or> set (importing g x) \<subseteq> dirty')"
  using assms
proof (induction g stack dirty rule: mark_importers.induct)
  case (1 g dirty)
  then show ?case by simp
next
  case (2 g p stack dirty)
  obtain ps where ps: "importers_list g p = Some ps" using 2(3) by auto
  then have i: "importing g p = ps" by (rule importing_list)
  show ?case
  proof (cases "p \<in> dirty")
    case True
    have "importing.reach (importers g) (set stack) \<subseteq> importing.reach (importers g) (set (p # stack))" by (rule importing.reach_mono) auto
    moreover from 2(1) [OF True 2(3)] obtain d where "mark_importers g stack dirty = Some d"
      "dirty \<union> set stack \<subseteq> d" "d \<subseteq> dirty \<union> importing.reach (importers g) (set stack)"
      "\<forall>x \<in> d. x \<in> dirty \<or> set (importing g x) \<subseteq> d" by blast
    ultimately show ?thesis using True by (intro exI [of _ d]) auto
  next
    case False
    from 2(2) [OF False ps 2(3)] obtain dirty' where d: "mark_importers g (ps @ stack) (insert p dirty) = Some dirty'"
      "insert p dirty \<union> set (ps @ stack) \<subseteq> dirty'" "dirty' \<subseteq> insert p dirty \<union> importing.reach (importers g) (set (ps @ stack))"
      "\<forall>x \<in> dirty'. x \<in> insert p dirty \<or> set (importing g x) \<subseteq> dirty'" by blast
    have p: "p \<in> importing.reach (importers g) (set (p # stack))" using importing.reach_superset [of "set (p # stack)" "importers g"] by auto
    have "set (ps @ stack) \<subseteq> importing.reach (importers g) (set (p # stack))"
      using importing.reach_step [OF p] importing.reach_superset [of "set (p # stack)" "importers g"] by (auto simp: i)
    then have "importing.reach (importers g) (set (ps @ stack)) \<subseteq> importing.reach (importers g) (set (p # stack))" by (rule importing.reach_trans)
    with d(3) p have "dirty' \<subseteq> dirty \<union> importing.reach (importers g) (set (p # stack))" by blast
    moreover have "\<forall>x \<in> dirty'. x \<in> dirty \<or> set (importing g x) \<subseteq> dirty'"
      using d(2,4) i by (metis Un_subset_iff insert_iff set_append)
    moreover have "mark_importers g (p # stack) dirty = Some dirty'" using False ps d(1) by simp
    ultimately show ?thesis using d(2) by auto
  qed
qed

lemma populate_all_spec:
  assumes "\<forall>p. importers_list g p \<noteq> None"
  shows "\<exists>dirty'. populate_all g ps dirty = Some dirty' \<and> dirty \<subseteq> dirty' \<and> dirty' \<subseteq> dirty \<union> importing.reach (importers g) (set ps) \<and>
    (\<forall>x \<in> dirty'. x \<in> dirty - set ps \<or> set (importing g x) \<subseteq> dirty')"
proof (induction ps arbitrary: dirty)
  case (Cons p ps)
  obtain us where i: "importers_list g p = Some us" using assms by auto
  then have imp: "importing g p = us" by (rule importing_list)
  from mark_importers_spec [OF assms, of us dirty] obtain d1 where
    d1: "mark_importers g us dirty = Some d1" "dirty \<union> set us \<subseteq> d1" "d1 \<subseteq> dirty \<union> importing.reach (importers g) (set us)"
      "\<forall>x \<in> d1. x \<in> dirty \<or> set (importing g x) \<subseteq> d1" by blast
  from Cons.IH [of d1] obtain d2 where
    d2: "populate_all g ps d1 = Some d2" "d1 \<subseteq> d2" "d2 \<subseteq> d1 \<union> importing.reach (importers g) (set ps)"
      "\<forall>x \<in> d2. x \<in> d1 - set ps \<or> set (importing g x) \<subseteq> d2" by blast
  have p: "p \<in> importing.reach (importers g) (set (p # ps))" using importing.reach_superset [of "set (p # ps)" "importers g"] by auto
  have "set us \<subseteq> importing.reach (importers g) (set (p # ps))" using importing.reach_step [OF p] by (auto simp: imp)
  then have "importing.reach (importers g) (set us) \<subseteq> importing.reach (importers g) (set (p # ps))" by (rule importing.reach_trans)
  moreover have "importing.reach (importers g) (set ps) \<subseteq> importing.reach (importers g) (set (p # ps))" by (rule importing.reach_mono) auto
  ultimately have "d2 \<subseteq> dirty \<union> importing.reach (importers g) (set (p # ps))" using d1(3) d2(3) by blast
  moreover have "\<forall>x \<in> d2. x \<in> dirty - set (p # ps) \<or> set (importing g x) \<subseteq> d2"
    using d1(2,4) d2(2,4) imp by (metis DiffD1 DiffD2 DiffI set_ConsD subset_trans Un_subset_iff)
  moreover have "populate_all g (p # ps) dirty = Some d2"
    using i d1(1) d2(1) by (simp add: populate_dirty_files_def)
  ultimately show ?case using d1(2) d2(2) by auto
qed simp

text \<open>Started from all dirty files, the walk marks exactly what imports a dirty file, directly or not.\<close>

lemma populate_all_exact:
  assumes "\<forall>p. importers_list g p \<noteq> None"
  shows "populate_all g (sorted_list_of_set dirty) dirty = Some (importing.reach (importers g) dirty) \<or> infinite dirty"
proof (cases "finite dirty")
  case True
  from populate_all_spec [OF assms, of "sorted_list_of_set dirty" dirty] True obtain d where
    d: "populate_all g (sorted_list_of_set dirty) dirty = Some d" "dirty \<subseteq> d" "d \<subseteq> dirty \<union> importing.reach (importers g) dirty"
      "\<forall>x \<in> d. set (importing g x) \<subseteq> d" by auto
  have "d = importing.reach (importers g) dirty"
    using d(2,3,4) importing.reach_superset [of dirty "importers g"]
    by (intro importing.traversal_exact) (auto simp: importing.closed_def)
  with d(1) show ?thesis by simp
qed simp

section \<open>Facts about the hashes\<close>

lemma set_content_hash_spec:
  "ac_cache (snd (set_content_hash cp c p st)) = ac_cache st"
  "ac_content_hashes (snd (set_content_hash cp c p st)) =
     (ac_content_hashes st)(p \<mapsto> (case ac_content_hashes st p of Some h \<Rightarrow> h | None \<Rightarrow> cp_content_hash cp c))"
  "ac_dirty_sources (snd (set_content_hash cp c p st)) = ac_dirty_sources st"
  by (auto simp: set_content_hash_def Let_def fun_upd_idem split: option.split)

lemma set_interface_repr_hash_spec:
  assumes "ac_content_hashes st p = Some h"
  shows "ac_cache (snd (set_interface_repr_hash cp c p st)) = ac_cache st"
    and "ac_content_hashes (snd (set_interface_repr_hash cp c p st)) = ac_content_hashes st"
    and "ac_dirty_sources (snd (set_interface_repr_hash cp c p st)) = ac_dirty_sources st"
  using assms by (auto simp: set_interface_repr_hash_def set_content_hash_def Let_def split: option.split)

lemma fill_hashes_spec:
  assumes "distinct (map fst es)"
  shows "ac_cache (fill_hashes cp es st) = ac_cache st \<and> ac_dirty_sources (fill_hashes cp es st) = ac_dirty_sources st \<and>
    (\<forall>p. ac_content_hashes (fill_hashes cp es st) p =
       (case ac_content_hashes st p of Some h \<Rightarrow> Some h | None \<Rightarrow> map_option (cp_content_hash cp) (map_of es p)))"
  using assms
proof (induction cp es st rule: fill_hashes.induct)
  case (2 cp p c rest st)
  let ?s1 = "snd (set_content_hash cp c p st)"
  let ?s2 = "if cc_preprocessed (ac_cache ?s1) \<and> is_source_file (cp_paths cp) p
     then snd (set_interface_repr_hash cp c p ?s1) else ?s1"
  note s1 = set_content_hash_spec [of cp c p st]
  have h: "ac_content_hashes ?s1 p = Some (case ac_content_hashes st p of Some h \<Rightarrow> h | None \<Rightarrow> cp_content_hash cp c)"
    unfolding s1(2) by simp
  have s2: "ac_cache ?s2 = ac_cache st" "ac_content_hashes ?s2 = ac_content_hashes ?s1" "ac_dirty_sources ?s2 = ac_dirty_sources st"
    using set_interface_repr_hash_spec [OF h] s1 by simp_all
  have "fill_hashes cp ((p, c) # rest) st = fill_hashes cp rest ?s2" by (simp add: Let_def)
  with 2(1) [OF refl refl] 2(2) s2 s1(2) show ?case
    by (auto simp: map_of_eq_None_iff split: option.splits)
qed (simp split: option.split)

lemma retain_entries_get:
  assumes "bt_wf m"
  shows "bt_wf (retain_entries dirty m)" and "fst ` set (retain_entries dirty m) \<subseteq> fst ` set m"
    and "bt_get (retain_entries dirty m) p = Some e \<Longrightarrow> \<exists>e0. bt_get m p = Some e0 \<and> en_content_hash e = en_content_hash e0"
proof -
  show "bt_wf (retain_entries dirty m)" "fst ` set (retain_entries dirty m) \<subseteq> fst ` set m"
    unfolding retain_entries_def by (rule bt_wf_filter_map [OF assms], rule bt_filter_map_keys)
  show "bt_get (retain_entries dirty m) p = Some e \<Longrightarrow> \<exists>e0. bt_get m p = Some e0 \<and> en_content_hash e = en_content_hash e0"
    by (auto simp: retain_entries_def bt_get_filter_map [OF assms] retain_profiles_entry_def Let_def split: option.splits if_splits)
qed

section \<open>What is left is clean\<close>

lemma update_profiles_cache:
  assumes "bt_wf (cc_files c)"
  shows "bt_wf (cc_files (update_profiles cp c))" and "fst ` set (cc_files (update_profiles cp c)) \<subseteq> fst ` set (cc_files c)"
    and "cc_preprocessed (update_profiles cp c) = cc_preprocessed c" and "cc_mocks (update_profiles cp c) = cc_mocks c"
    and "bt_get (cc_files (update_profiles cp c)) p = Some e \<Longrightarrow> \<exists>e0. bt_get (cc_files c) p = Some e0 \<and> en_content_hash e = en_content_hash e0"
  using retain_entries_get [OF assms] by (simp_all add: update_profiles_def Let_def)

lemma read_files_get:
  assumes "distinct ps"
  shows "bt_get (read_files read ps) p = (if p \<in> set ps then read p else None)" and "bt_wf (read_files read ps)"
proof -
  let ?es = "List.map_filter (\<lambda>p. map_option (Pair p) (read p)) ps"
  have "map fst ?es = filter (\<lambda>p. read p \<noteq> None) ps"
    by (induction ps) (auto simp: List.map_filter_simps split: option.splits)
  then have d: "distinct (map fst ?es)" using assms by simp
  have "map_of ?es p = (if p \<in> set ps then read p else None)"
    using assms by (induction ps) (auto simp: List.map_filter_simps split: option.splits)
  then show "bt_get (read_files read ps) p = (if p \<in> set ps then read p else None)"
    unfolding read_files_def bt_get_of_distinct [OF d] .
  show "bt_wf (read_files read ps)" unfolding read_files_def by (rule bt_wf_of_list)
qed

lemma make_absolute_rooted:
  assumes "bt_wf m" and "\<forall>p \<in> fst ` set m. has_root p"
  shows "make_absolute root m = m"
proof -
  have "map (\<lambda>(p, s). (path_join root p, s)) m = m"
    using assms(2) by (intro map_idI) (auto simp: path_join_def)
  then show ?thesis using assms(1) by (simp add: make_absolute_def bt_of_list_wf)
qed

text \<open>The importers of a graph of paths, as the walk lists them.\<close>

lemma importers_listed:
  assumes "path_graph ge L"
  shows "importers_list ge q \<noteq> None" and "set (importing ge q) = {p. imports_path ge L p q}"
proof -
  have "{p. imports_path ge L p q} \<subseteq> set L" by (auto simp: imports_path_def)
  then have "finite {p. imports_path ge L p q}" by (rule finite_subset) simp
  then show "importers_list ge q \<noteq> None" "set (importing ge q) = {p. imports_path ge L p q}"
    by (simp_all add: importers_list_def listed_def importers_exact [OF assms])
qed

text \<open>What the closure under importers gives for an unmarked file of the graph.\<close>

lemma unmarked_clean:
  assumes g: "path_graph ge L" and fin: "finite dirty"
    and d: "populate_all ge (sorted_list_of_set dirty) dirty = Some dirty'"
  shows "dirty \<subseteq> dirty'" and "imports_path ge L p q \<Longrightarrow> p \<notin> dirty' \<Longrightarrow> q \<notin> dirty' \<and> q \<in> set L"
proof -
  have r: "dirty' = importing.reach (importers ge) dirty"
    using populate_all_exact [of ge dirty] importers_listed(1) [OF g] d fin by simp
  show "dirty \<subseteq> dirty'" unfolding r by (rule importing.reach_superset)
  assume i: "imports_path ge L p q" and p: "p \<notin> dirty'"
  have "p \<in> dirty'" if "q \<in> dirty'"
    using importing.reach_step [of q "importers ge" dirty p] that i importers_listed(2) [OF g, of q] by (simp add: r)
  moreover have "q \<in> set L" using i edge_in_range [OF g] by (auto simp: imports_path_def)
  ultimately show "q \<notin> dirty' \<and> q \<in> set L" using p by blast
qed

text \<open>
  What holds of a cached file that is not dirty: it can be read, its content hash is unchanged, it
  parses, and what its imports resolve to is cached and not dirty either.
\<close>

definition clean_file :: "('c, 'd, 'v, 's, 'a, 'l) cache_project \<Rightarrow> (path, 'v CacheEntry) btree \<Rightarrow> path set \<Rightarrow> path \<Rightarrow> bool" where
  "clean_file cp m dirty p \<longleftrightarrow> (\<exists>e content d imps cwd. bt_get m p = Some e \<and> po_read (cp_parser cp) p = Some content \<and>
     en_content_hash e = cp_content_hash cp content \<and> po_parse (cp_parser cp) content p = Some d \<and>
     po_imports (cp_parser cp) d = Some imps \<and> path_parent p = Some cwd \<and>
     (\<forall>imp \<in> set imps. \<forall>q. resolve_import (cp_fs cp) (cp_paths cp) cwd imp = Inr q \<and> node_read (cp_parser cp) q \<noteq> None \<longrightarrow>
        q \<notin> dirty \<and> bt_get m q \<noteq> None))"

lemma dirty_in_graph_spec:
  assumes L: "path_graph ge L" and ws: "bt_wf srcs" and sL: "fst ` set srcs = set L"
    and input: "\<And>p s. p \<in> fst ` set (cc_files (ac_cache st)) \<Longrightarrow> po_read (cp_parser cp) p = Some s \<Longrightarrow> bt_get srcs p = Some s"
    and node: "\<And>p s. bt_get srcs p = Some s \<Longrightarrow> \<exists>d imports cwd. po_parse (cp_parser cp) s p = Some d \<and>
      po_imports (cp_parser cp) d = Some imports \<and> path_parent p = Some cwd \<and>
      (\<forall>imp \<in> set imports. \<forall>q. import_target (cp_parser cp) (cp_fs cp) (cp_paths cp) ins cwd imp = Some q \<longrightarrow> imports_path ge L p q)"
    and np: "\<not> cc_preprocessed (ac_cache st)" and fin: "finite unreadable"
    and un: "\<And>p. p \<in> fst ` set (cc_files (ac_cache st)) \<Longrightarrow> po_read (cp_parser cp) p = None \<Longrightarrow> p \<in> unreadable"
    and hashes: "ac_content_hashes st = (\<lambda>p. map_option (cp_content_hash cp) (bt_get srcs p))"
  shows "\<exists>dirty. dirty_in_graph cp st unreadable srcs ge = Some dirty \<and>
    (\<forall>p. bt_get (cc_files (ac_cache st)) p \<noteq> None \<and> p \<notin> dirty \<longrightarrow> clean_file cp (cc_files (ac_cache st)) dirty p)"
proof -
  let ?po = "cp_parser cp" and ?m = "cc_files (ac_cache st)"
  let ?dirty = "unreadable \<union> set (filter (\<lambda>p. is_dirty st p False) (map fst srcs))"
  have fd: "finite ?dirty" using fin by simp
  obtain dirty where d: "populate_all ge (sorted_list_of_set ?dirty) ?dirty = Some dirty"
    using populate_all_exact [of ge ?dirty] importers_listed(1) [OF L] fd by auto
  note clean = unmarked_clean [OF L fd d]
  have entry: "\<exists>e s. bt_get ?m q = Some e \<and> bt_get srcs q = Some s \<and> en_content_hash e = cp_content_hash cp s"
    if q: "q \<in> set L" "q \<notin> dirty" for q
  proof -
    have "q \<in> fst ` set srcs" using q(1) sL by simp
    then obtain s where s: "bt_get srcs q = Some s" by (metis map_of_eq_None_iff not_None_eq)
    have "\<not> is_dirty st q False" using clean(1) q(2) \<open>q \<in> fst ` set srcs\<close> by auto
    then show ?thesis using s
      by (auto simp: is_dirty_def is_dirty_impl_def cc_entry_def hashes split: option.splits if_splits)
  qed
  have "clean_file cp ?m dirty p" if p: "bt_get ?m p \<noteq> None" "p \<notin> dirty" for p
  proof -
    have k: "p \<in> fst ` set ?m" using p(1) by (metis map_of_eq_None_iff)
    have "p \<notin> unreadable" using clean(1) p(2) by blast
    then obtain s where s: "po_read ?po p = Some s" using un [OF k] by (cases "po_read ?po p") auto
    note src = input [OF k s]
    have pL: "p \<in> set L" using sL map_of_SomeD [OF src] by (metis fst_conv image_eqI)
    from node [OF src] obtain d imps cwd where n: "po_parse ?po s p = Some d" "po_imports ?po d = Some imps"
      "path_parent p = Some cwd" "\<forall>imp \<in> set imps. \<forall>q. import_target ?po (cp_fs cp) (cp_paths cp) ins cwd imp = Some q
        \<longrightarrow> imports_path ge L p q" by blast
    have "q \<notin> dirty \<and> bt_get ?m q \<noteq> None"
      if im: "imp \<in> set imps" "resolve_import (cp_fs cp) (cp_paths cp) cwd imp = Inr q" "node_read ?po q \<noteq> None" for imp q
    proof -
      have "imports_path ge L p q" using n(4) im by (simp add: import_target_def known_def)
      from clean(2) [OF this p(2)] entry [of q] show ?thesis by auto
    qed
    with n s entry [OF pL p(2)] src show ?thesis by (auto simp: clean_file_def)
  qed
  moreover have "dirty_in_graph cp st unreadable srcs ge = Some dirty"
    using d np by (simp add: dirty_in_graph_def Let_def)
  ultimately show ?thesis by blast
qed

lemma dirty_files_spec:
  assumes fin: "finite {p. po_read (cp_parser cp) p \<noteq> None}"
    and parent: "\<forall>p. po_read (cp_parser cp) p \<noteq> None \<longrightarrow> path_parent p \<noteq> None"
    and wf: "bt_wf (cc_files (ac_cache st))" and rooted: "\<forall>p \<in> fst ` set (cc_files (ac_cache st)). has_root p"
    and fresh: "ac_dirty_sources st = {}" "ac_content_hashes st = (\<lambda>_. None)"
    and np: "\<not> cc_preprocessed (ac_cache st)"
  shows "\<exists>dirty st'. dirty_files cp st = Some (dirty, st') \<and> ac_cache st' = ac_cache st \<and>
    (\<forall>p. bt_get (cc_files (ac_cache st)) p \<noteq> None \<and> p \<notin> dirty \<longrightarrow> clean_file cp (cc_files (ac_cache st)) dirty p)"
proof -
  let ?po = "cp_parser cp" and ?m = "cc_files (ac_cache st)" and ?root = "pc_root (cp_paths cp)"
  let ?keys = "map fst (cc_files (ac_cache st))"
  let ?sources = "read_files (po_read ?po) ?keys" and ?unread = "set (filter (\<lambda>p. po_read ?po p = None) ?keys)"
  note get = read_files_get [OF bt_wf_distinct [OF wf], of "po_read ?po"]
  have skeys: "p \<in> fst ` set ?sources \<longleftrightarrow> p \<in> set ?keys \<and> po_read ?po p \<noteq> None" for p
    using get(1) [of p] by (metis map_of_eq_None_iff option.distinct(1))
  have abs: "make_absolute ?root ?sources = ?sources"
  proof (rule make_absolute_rooted [OF get(2)], rule ballI)
    fix p assume "p \<in> fst ` set ?sources"
    then have "p \<in> set ?keys" unfolding skeys by (rule conjunct1)
    then have "p \<in> fst ` set ?m" unfolding list.set_map .
    then show "has_root p" using rooted by blast
  qed
  have parent': "\<forall>p. p \<in> fst ` set (make_absolute ?root ?sources) \<or> po_read ?po p \<noteq> None \<longrightarrow> path_parent p \<noteq> None"
    using parent skeys unfolding abs by blast
  have unfold: "dirty_files cp st = (case resolve_sources ?po (cp_fs cp) (cp_paths cp) ?sources of
       None \<Rightarrow> None | Some (Inl EdgePanic) \<Rightarrow> None | Some (Inl _) \<Rightarrow> Some (?unread \<union> set ?keys, st)
     | Some (Inr graph) \<Rightarrow> let (sources, edges) = into_sources graph; st' = fill_hashes cp sources st
         in map_option (\<lambda>d. (d, st')) (dirty_in_graph cp st' ?unread sources edges))"
    unfolding dirty_files_def Let_def fresh(1) Un_empty_left ..
  show ?thesis
  proof (cases "resolve_sources ?po (cp_fs cp) (cp_paths cp) ?sources")
    case None
    with resolve_spec [OF fin parent', of "cp_fs cp"] show ?thesis by simp
  next
    case (Some r)
    show ?thesis
    proof (cases r)
      case (Inl e)
      with Some resolve_spec [OF fin parent', of "cp_fs cp"] have "e \<noteq> EdgePanic" by auto
      then have "dirty_files cp st = Some (?unread \<union> set ?keys, st)" unfolding unfold Some Inl by (cases e) simp_all
      moreover have "p \<in> ?unread \<union> set ?keys" if "bt_get ?m p \<noteq> None" for p
        using that by (metis UnI2 list.set_map map_of_eq_None_iff)
      ultimately show ?thesis by blast
    next
      case (Inr graph)
      obtain g ge where gr: "graph = (g, ge)" by (cases graph)
      have res: "resolve_sources ?po (cp_fs cp) (cp_paths cp) ?sources = Some (Inr (g, ge))" using Some Inr gr by simp
      obtain srcs L where into: "into_sources (g, ge) = (srcs, ge)" and L: "path_graph ge L" "bt_wf srcs" "fst ` set srcs = set L"
        and input: "\<And>p s. bt_get ?sources p = Some s \<Longrightarrow> bt_get srcs p = Some s"
        and node: "\<And>p s. bt_get srcs p = Some s \<Longrightarrow> \<exists>d imports cwd. po_parse ?po s p = Some d \<and> po_imports ?po d = Some imports \<and>
          path_parent p = Some cwd \<and> (\<forall>imp \<in> set imports. \<forall>q.
            import_target ?po (cp_fs cp) (cp_paths cp) (fst ` set ?sources) cwd imp = Some q \<longrightarrow> imports_path ge L p q)"
        by (rule resolved_files [OF fin parent' res, unfolded abs]) (rule that, assumption+)
      let ?st' = "fill_hashes cp srcs st"
      note fh = fill_hashes_spec [OF bt_wf_distinct [OF L(2)], of cp st]
      have "\<exists>dirty. dirty_in_graph cp ?st' ?unread srcs ge = Some dirty \<and>
          (\<forall>p. bt_get (cc_files (ac_cache ?st')) p \<noteq> None \<and> p \<notin> dirty \<longrightarrow> clean_file cp (cc_files (ac_cache ?st')) dirty p)"
      proof (rule dirty_in_graph_spec [OF L _ node])
        show "bt_get srcs p = Some s" if "p \<in> fst ` set (cc_files (ac_cache ?st'))" "po_read ?po p = Some s" for p s
          using that fh get(1) [of p] by (intro input) auto
        show "ac_content_hashes ?st' = (\<lambda>p. map_option (cp_content_hash cp) (bt_get srcs p))"
          using fh by (auto simp: fresh(2))
      qed (use fh np in \<open>auto simp: image_iff\<close>)
      then show ?thesis unfolding unfold res option.case sum.case into Let_def prod.case using fh by auto
    qed
  qed
qed



text \<open>\<open>A\<close> changed since it was cached and \<open>B\<close>, which it imports, did not.\<close>

definition sample_entry :: "string \<Rightarrow> nat CacheEntry" where
  "sample_entry hash = \<lparr>en_last_modification_date = 0, en_content_hash = hash, en_interface_repr_hash = None,
     en_source_name = [], en_imports = {}, en_version_requirement = None, en_artifacts = [], en_seen_by_compiler = True\<rparr>"

definition sample_project :: "(nat, string, nat, nat, nat, nat) cache_project" where
  "sample_project = \<lparr>cp_paths = sample_config, cp_parser = sample_parser, cp_fs = sample_fs, cp_cached = True,
     cp_settings_profiles = [(''default'', 0)], cp_can_use_cached = (\<lambda>a b. a = b), cp_content_hash = (\<lambda>s. s),
     cp_interface_repr = (\<lambda>_ _. None), cp_last_modification = (\<lambda>_. None), cp_version_req_text = (\<lambda>_. []),
     cp_artifact_dirty = (\<lambda>_. Some False), cp_read_cache = (\<lambda>_. None), cp_read_artifact = (\<lambda>_. None),
     cp_read_build = (\<lambda>_. None)\<rparr>"

definition sample_graph :: "(nat, string) GraphEdges" where
  "sample_graph = \<lparr>ge_edges = [[1], []], ge_rev_edges = [[], [0]], ge_indices = [(file_a, 0), (file_b, 1)],
     ge_rev_indices = [(0, file_a), (1, file_b)], ge_versions = [(0, None), (1, None)], ge_data = [''A'', ''B''],
     ge_num_input_files = 2, ge_unresolved_imports = {}, ge_include_paths = {}\<rparr>"

definition sample_state :: "(nat, string, nat, nat, nat, nat) ArtifactsCacheInner" where
  "sample_state = \<lparr>ac_cache = (compiler_cache_new [] (paths_relative sample_config) False)
       \<lparr>cc_files := [(file_a, sample_entry ''old''), (file_b, sample_entry ''B'')], cc_profiles := [(''default'', 0)]\<rparr>,
     ac_cached_artifacts = [], ac_cached_builds = [], ac_edges = sample_graph, ac_dirty_sources = {},
     ac_sources_in_scope = (\<lambda>_. None), ac_content_hashes = (\<lambda>_. None), ac_interface_repr_hashes = (\<lambda>_. None)\<rparr>"



section \<open>What the filter keeps\<close>

lemma hashes_frame:
  "(let st' = snd (set_content_hash cp content p st) in ac_cache st' = ac_cache st \<and> ac_edges st' = ac_edges st \<and>
     ac_cached_artifacts st' = ac_cached_artifacts st \<and> ac_sources_in_scope st' = ac_sources_in_scope st)"
  "(let st' = snd (set_interface_repr_hash cp content p st) in ac_cache st' = ac_cache st \<and> ac_edges st' = ac_edges st \<and>
     ac_cached_artifacts st' = ac_cached_artifacts st \<and> ac_sources_in_scope st' = ac_sources_in_scope st)"
proof -
  show c: "let st' = snd (set_content_hash cp content p st) in ac_cache st' = ac_cache st \<and> ac_edges st' = ac_edges st \<and>
     ac_cached_artifacts st' = ac_cached_artifacts st \<and> ac_sources_in_scope st' = ac_sources_in_scope st"
    by (simp add: set_content_hash_def Let_def split: option.split)
  then show "let st' = snd (set_interface_repr_hash cp content p st) in ac_cache st' = ac_cache st \<and> ac_edges st' = ac_edges st \<and>
     ac_cached_artifacts st' = ac_cached_artifacts st \<and> ac_sources_in_scope st' = ac_sources_in_scope st"
    by (auto simp: set_interface_repr_hash_def Let_def split: option.split prod.split)
qed

text \<open>What a new entry holds, and that nothing else changes.\<close>

definition new_entry :: "('c, 'd, 'v, 's, 'a, 'l) cache_project \<Rightarrow> string \<Rightarrow> 'v CacheEntry \<Rightarrow> bool" where
  "new_entry cp content e \<longleftrightarrow> en_content_hash e = cp_content_hash cp content \<and> en_artifacts e = [] \<and> \<not> en_seen_by_compiler e"

lemma create_cache_entry_spec:
  assumes "imports_of (ac_edges st) p \<noteq> None"
  obtains st' where "create_cache_entry cp p content st = Some st'" and "ac_edges st' = ac_edges st"
    and "ac_cached_artifacts st' = ac_cached_artifacts st" and "ac_sources_in_scope st' = ac_sources_in_scope st"
    and "\<And>q. q \<noteq> p \<Longrightarrow> cc_entry (ac_cache st') q = cc_entry (ac_cache st) q"
    and "\<exists>e. cc_entry (ac_cache st') p = Some e \<and> new_entry cp content e"
proof -
  from assms obtain ims where ims: "imports_of (ac_edges st) p = Some ims" by auto
  let ?h = "if cc_preprocessed (ac_cache st) \<and> is_source_file (cp_paths cp) p
    then (let (h, st1) = set_interface_repr_hash cp content p st in (Some h, st1)) else (None, st)"
  obtain h st1 where h: "?h = (h, st1)" by (cases ?h)
  have f: "ac_cache st1 = ac_cache st" "ac_edges st1 = ac_edges st" "ac_cached_artifacts st1 = ac_cached_artifacts st"
    "ac_sources_in_scope st1 = ac_sources_in_scope st"
    using h hashes_frame(2) [of cp content p st] by (auto simp: Let_def split: if_splits prod.splits)
  show ?thesis
  proof (rule that)
    show "create_cache_entry cp p content st = Some (st1\<lparr>ac_cache := (ac_cache st1)\<lparr>cc_files := bt_insert p
        \<lparr>en_last_modification_date = (case cp_last_modification cp p of Some d \<Rightarrow> d | None \<Rightarrow> 0),
           en_content_hash = cp_content_hash cp content, en_interface_repr_hash = h,
           en_source_name = strip_prefix p (pc_root (cp_paths cp)), en_imports = (\<lambda>i. strip_prefix i (pc_root (cp_paths cp))) ` ims,
           en_version_requirement = map_option (cp_version_req_text cp) (file_version_requirement (ac_edges st) p),
           en_artifacts = [], en_seen_by_compiler = False\<rparr> (cc_files (ac_cache st1))\<rparr>\<rparr>)"
      unfolding create_cache_entry_def ims option.case Let_def h [unfolded Let_def] prod.case ..
  qed (auto simp: f cc_entry_def new_entry_def)
qed

lemma filter_step:
  assumes i: "imports_of (ac_edges st) p \<noteq> None"
  obtains st2 where "(if cc_entry (ac_cache st) p \<noteq> None then Some st else create_cache_entry cp p content st) = Some st2"
    and "ac_edges st2 = ac_edges st" and "ac_cached_artifacts st2 = ac_cached_artifacts st"
    and "ac_sources_in_scope st2 = ac_sources_in_scope st"
    and "\<And>q. q \<noteq> p \<or> cc_entry (ac_cache st) q \<noteq> None \<Longrightarrow> cc_entry (ac_cache st2) q = cc_entry (ac_cache st) q"
    and "cc_entry (ac_cache st) p = None \<Longrightarrow> \<exists>e. cc_entry (ac_cache st2) p = Some e \<and> new_entry cp content e"
proof (cases "cc_entry (ac_cache st) p")
  case None
  from create_cache_entry_spec [OF i, of cp content] obtain st2 where "create_cache_entry cp p content st = Some st2"
    "ac_edges st2 = ac_edges st" "ac_cached_artifacts st2 = ac_cached_artifacts st" "ac_sources_in_scope st2 = ac_sources_in_scope st"
    "\<And>q. q \<noteq> p \<Longrightarrow> cc_entry (ac_cache st2) q = cc_entry (ac_cache st) q"
    "\<exists>e. cc_entry (ac_cache st2) p = Some e \<and> new_entry cp content e" by blast
  with None show ?thesis by (intro that [of st2]) auto
next
  case (Some e)
  then show ?thesis by (intro that [of st]) auto
qed

lemma is_missing_cong:
  assumes "cc_entry (ac_cache st') p = cc_entry (ac_cache st) p" and "ac_cached_artifacts st' = ac_cached_artifacts st"
  shows "is_missing_artifacts cp st' p = is_missing_artifacts cp st p"
  unfolding is_missing_artifacts_def is_missing_artifacts_impl_def missing_extra_files_def assms ..

lemma grouped_contains_insert:
  "grouped_contains (grouped_insert p v g) q w \<longleftrightarrow> grouped_contains g q w \<or> p = q \<and> v = w"
  by (auto simp: grouped_contains_def grouped_insert_def split: option.split)

lemma filter_loop_spec:
  assumes "\<forall>p. imports_of (ac_edges st) p \<noteq> None" and "distinct (map fst sources)"
  shows "\<exists>st'. filter_loop cp version profile sources (complete, st) =
      Some (complete @ filter (\<lambda>p. is_missing_artifacts cp st p version profile) (map fst sources), st') \<and>
    ac_edges st' = ac_edges st \<and> ac_cached_artifacts st' = ac_cached_artifacts st \<and>
    (\<forall>p v. grouped_contains (ac_sources_in_scope st') p v \<longleftrightarrow>
       grouped_contains (ac_sources_in_scope st) p v \<or> p \<in> fst ` set sources \<and> v = version) \<and>
    (\<forall>p. p \<notin> fst ` set sources \<or> cc_entry (ac_cache st) p \<noteq> None \<longrightarrow> cc_entry (ac_cache st') p = cc_entry (ac_cache st) p) \<and>
    (\<forall>(p, source) \<in> set sources. cc_entry (ac_cache st) p = None \<longrightarrow>
       (\<exists>e. cc_entry (ac_cache st') p = Some e \<and> new_entry cp (so_content source) e))"
  using assms
proof (induction sources arbitrary: complete st)
  case Nil
  then show ?case by simp
next
  case (Cons a rest)
  obtain p source where a: "a = (p, source)" by (cases a)
  let ?st1 = "st\<lparr>ac_sources_in_scope := grouped_insert p version (ac_sources_in_scope st)\<rparr>"
  have "imports_of (ac_edges ?st1) p \<noteq> None" using Cons.prems(1) by simp
  from filter_step [OF this, of cp "so_content source"] obtain st2
    where st2: "(if cc_entry (ac_cache ?st1) p \<noteq> None then Some ?st1 else create_cache_entry cp p (so_content source) ?st1) = Some st2"
    and same: "ac_edges st2 = ac_edges st" "ac_cached_artifacts st2 = ac_cached_artifacts st"
      "ac_sources_in_scope st2 = grouped_insert p version (ac_sources_in_scope st)"
    and other: "\<And>q. q \<noteq> p \<or> cc_entry (ac_cache st) q \<noteq> None \<Longrightarrow> cc_entry (ac_cache st2) q = cc_entry (ac_cache st) q"
    and new: "cc_entry (ac_cache st) p = None \<Longrightarrow> \<exists>e. cc_entry (ac_cache st2) p = Some e \<and> new_entry cp (so_content source) e"
    by auto
  have p: "p \<notin> fst ` set rest" and d: "distinct (map fst rest)" using Cons.prems(2) a by auto
  have miss: "is_missing_artifacts cp st2 q = is_missing_artifacts cp st q" if "q \<in> set (map fst rest)" for q
    using that p by (intro is_missing_cong other same) auto
  have miss1: "is_missing_artifacts cp ?st1 p = is_missing_artifacts cp st p" by (rule is_missing_cong) simp_all
  let ?complete = "if is_missing_artifacts cp st p version profile then complete @ [p] else complete"
  from Cons.IH [of st2 ?complete] Cons.prems(1) d same(1) obtain st' where
    r: "filter_loop cp version profile rest (?complete, st2) =
      Some (?complete @ filter (\<lambda>p. is_missing_artifacts cp st2 p version profile) (map fst rest), st')"
    and s: "ac_edges st' = ac_edges st2" "ac_cached_artifacts st' = ac_cached_artifacts st2"
      "\<forall>p v. grouped_contains (ac_sources_in_scope st') p v \<longleftrightarrow>
         grouped_contains (ac_sources_in_scope st2) p v \<or> p \<in> fst ` set rest \<and> v = version"
    and o: "\<forall>p. p \<notin> fst ` set rest \<or> cc_entry (ac_cache st2) p \<noteq> None \<longrightarrow> cc_entry (ac_cache st') p = cc_entry (ac_cache st2) p"
    and n: "\<forall>(p, source) \<in> set rest. cc_entry (ac_cache st2) p = None \<longrightarrow>
       (\<exists>e. cc_entry (ac_cache st') p = Some e \<and> new_entry cp (so_content source) e)"
    by auto
  have f: "filter (\<lambda>p. is_missing_artifacts cp st2 p version profile) (map fst rest) =
      filter (\<lambda>p. is_missing_artifacts cp st p version profile) (map fst rest)"
    using miss by (intro filter_cong refl) (auto dest: fun_cong)
  have "filter_loop cp version profile (a # rest) (complete, st) =
      Some (complete @ filter (\<lambda>p. is_missing_artifacts cp st p version profile) (map fst (a # rest)), st')"
    unfolding a filter_loop.simps Let_def st2 option.case miss1 r f by simp
  moreover have "\<forall>q v. grouped_contains (ac_sources_in_scope st') q v \<longleftrightarrow>
      grouped_contains (ac_sources_in_scope st) q v \<or> q \<in> fst ` set (a # rest) \<and> v = version"
    using s(3) unfolding same(3) grouped_contains_insert a by auto
  moreover have "\<forall>q. q \<notin> fst ` set (a # rest) \<or> cc_entry (ac_cache st) q \<noteq> None \<longrightarrow> cc_entry (ac_cache st') q = cc_entry (ac_cache st) q"
  proof (intro allI impI)
    fix q assume q: "q \<notin> fst ` set (a # rest) \<or> cc_entry (ac_cache st) q \<noteq> None"
    have "cc_entry (ac_cache st2) q = cc_entry (ac_cache st) q" using q a by (intro other) auto
    then show "cc_entry (ac_cache st') q = cc_entry (ac_cache st) q" using q o a by auto
  qed
  moreover have "\<forall>(q, source) \<in> set (a # rest). cc_entry (ac_cache st) q = None \<longrightarrow>
       (\<exists>e. cc_entry (ac_cache st') q = Some e \<and> new_entry cp (so_content source) e)"
    using n o other new p a by (fastforce simp: image_iff)
  ultimately show ?case
    using s(1,2) same(1,2) by (intro exI [of _ st'] conjI) (assumption | erule trans, assumption)+
qed

text \<open>The files that have to be compiled, of the given ones.\<close>

definition to_compile :: "('c, 'd, 'v, 's, 'a, 'l) cache_project \<Rightarrow> ('c, 'd, 'v, 's, 'a, 'l) ArtifactsCacheInner
    \<Rightarrow> (path, Source) btree \<Rightarrow> 'v \<Rightarrow> string \<Rightarrow> path set" where
  "to_compile cp st sources version profile =
     {p. bt_get sources p \<noteq> None \<and> is_missing_artifacts cp st p version profile}"

lemma imports_of_all_exact:
  assumes "path_graph ge L"
  obtains s where "imports_of_all ge ps = Some s" and "\<And>q. q \<notin> set ps \<Longrightarrow> q \<in> s \<longleftrightarrow> (\<exists>p \<in> set ps. (p, q) \<in> (imports_paths ge L)\<^sup>*)"
proof (induction ps arbitrary: thesis)
  case Nil
  then show ?case by simp
next
  case (Cons p ps)
  obtain s where s: "imports_of_all ge ps = Some s" "\<And>q. q \<notin> set ps \<Longrightarrow> q \<in> s \<longleftrightarrow> (\<exists>p \<in> set ps. (p, q) \<in> (imports_paths ge L)\<^sup>*)"
    using Cons.IH by blast
  obtain t where t: "imports_of ge p = Some t" "t \<subseteq> (imports_paths ge L)\<^sup>* `` {p}" "(imports_paths ge L)\<^sup>* `` {p} \<subseteq> insert p t"
    using imports_of_exact [OF assms] by blast
  show ?case using s t by (intro Cons.prems [of "t \<union> s"]) auto
qed

text \<open>
  C8: what is compiled.  A source whose artifacts are missing is compiled completely; one that such a source
  imports, directly or not, is handed to the compiler without its own outputs; the others are left out.
  All sources come into the scope of the version, every one has an entry afterwards, new with the
  hash of its content and no artifacts or the one it had, and nothing else changes.
\<close>

theorem filter_exact:
  assumes "path_graph (ac_edges st) L" and "bt_wf sources"
  shows "\<exists>kept st'. cache_filter cp sources version profile st = Some (kept, st') \<and>
    (\<forall>p. bt_get kept p = (case bt_get sources p of None \<Rightarrow> None | Some source \<Rightarrow>
       if p \<in> to_compile cp st sources version profile then Some (source\<lparr>so_kind := Complete\<rparr>)
       else if \<exists>q \<in> to_compile cp st sources version profile. (q, p) \<in> (imports_paths (ac_edges st) L)\<^sup>*
            then Some (source\<lparr>so_kind := Optimized\<rparr>) else None)) \<and>
    (\<forall>p v. grouped_contains (ac_sources_in_scope st') p v \<longleftrightarrow>
       grouped_contains (ac_sources_in_scope st) p v \<or> bt_get sources p \<noteq> None \<and> v = version) \<and>
    (\<forall>p. cc_entry (ac_cache st) p \<noteq> None \<or> bt_get sources p = None \<longrightarrow> cc_entry (ac_cache st') p = cc_entry (ac_cache st) p) \<and>
    (\<forall>p source. bt_get sources p = Some source \<and> cc_entry (ac_cache st) p = None \<longrightarrow>
       (\<exists>e. cc_entry (ac_cache st') p = Some e \<and> new_entry cp (so_content source) e))"
proof -
  let ?complete = "filter (\<lambda>p. is_missing_artifacts cp st p version profile) (map fst sources)"
  have keys: "p \<in> fst ` set sources \<longleftrightarrow> bt_get sources p \<noteq> None" for p by (simp add: map_of_eq_None_iff)
  have "\<forall>p. imports_of (ac_edges st) p \<noteq> None" using imports_of_exact [OF assms(1)] by (metis option.distinct(1))
  from filter_loop_spec [OF this bt_wf_distinct [OF assms(2)], of cp version profile "[]"] obtain st'
    where r: "filter_loop cp version profile sources ([], st) = Some (?complete, st')"
    and s: "ac_edges st' = ac_edges st"
      "\<forall>p v. grouped_contains (ac_sources_in_scope st') p v \<longleftrightarrow> grouped_contains (ac_sources_in_scope st) p v \<or> p \<in> fst ` set sources \<and> v = version"
      "\<forall>p. p \<notin> fst ` set sources \<or> cc_entry (ac_cache st) p \<noteq> None \<longrightarrow> cc_entry (ac_cache st') p = cc_entry (ac_cache st) p"
      "\<forall>(p, source) \<in> set sources. cc_entry (ac_cache st) p = None \<longrightarrow>
         (\<exists>e. cc_entry (ac_cache st') p = Some e \<and> new_entry cp (so_content source) e)" by auto
  obtain C where C: "set ?complete = C" "to_compile cp st sources version profile = C"
    using keys by (auto simp: to_compile_def)
  obtain imps where i: "imports_of_all (ac_edges st) ?complete = Some imps"
    "\<And>q. q \<notin> C \<Longrightarrow> q \<in> imps \<longleftrightarrow> (\<exists>p \<in> C. (p, q) \<in> (imports_paths (ac_edges st) L)\<^sup>*)"
    using imports_of_all_exact [OF assms(1)] unfolding C(1) [symmetric] by blast
  have f: "cache_filter cp sources version profile st = Some (mark_sources C (imps - C) sources, st')"
    unfolding cache_filter_def r option.case prod.case s(1) i(1) C(1) ..
  have m: "bt_get (mark_sources C (imps - C) sources) p = (case bt_get sources p of None \<Rightarrow> None | Some source \<Rightarrow>
       if p \<in> C then Some (source\<lparr>so_kind := Complete\<rparr>)
       else if \<exists>q \<in> C. (q, p) \<in> (imports_paths (ac_edges st) L)\<^sup>* then Some (source\<lparr>so_kind := Optimized\<rparr>) else None)" for p
    unfolding mark_sources_def bt_get_filter_map [OF assms(2)] using i(2) [of p] by (simp split: option.split)
  have n: "\<exists>e. cc_entry (ac_cache st') p = Some e \<and> new_entry cp (so_content source) e"
    if "bt_get sources p = Some source" "cc_entry (ac_cache st) p = None" for p source
    using s(4) that unfolding bt_get_mem [OF assms(2)] by blast
  show ?thesis
    unfolding f C(2) by (rule exI, rule exI, intro conjI, rule refl, rule allI, rule m) (use n s(2,3) keys in auto)
qed

text \<open>Only \<open>B\<close> has an entry: \<open>A\<close> is compiled, with \<open>B\<close> as an import.\<close>

theorem filter_exact_witness:
  "\<exists>kept st'. cache_filter sample_project [(file_a, \<lparr>so_content = ''A'', so_kind = Complete\<rparr>), (file_b, \<lparr>so_content = ''B'', so_kind = Complete\<rparr>)]
      0 ''default'' (sample_state\<lparr>ac_cache := (ac_cache sample_state)\<lparr>cc_files := [(file_b, sample_entry ''B'')]\<rparr>\<rparr>) = Some (kept, st') \<and>
     bt_get kept file_a = Some \<lparr>so_content = ''A'', so_kind = Complete\<rparr> \<and> bt_get kept file_b = Some \<lparr>so_content = ''B'', so_kind = Optimized\<rparr> \<and>
     grouped_contains (ac_sources_in_scope st') file_a 0 \<and> (\<exists>e. cc_entry (ac_cache st') file_a = Some e \<and> en_content_hash e = ''A'')"
proof -
  let ?sources = "[(file_a, \<lparr>so_content = ''A'', so_kind = Complete\<rparr>), (file_b, \<lparr>so_content = ''B'', so_kind = Complete\<rparr>)]"
  let ?st = "sample_state\<lparr>ac_cache := (ac_cache sample_state)\<lparr>cc_files := [(file_b, sample_entry ''B'')]\<rparr>\<rparr>"
  have g: "path_graph (ac_edges ?st) [file_a, file_b]" "bt_wf ?sources" by code_simp+
  have a: "bt_get ?sources file_a = Some \<lparr>so_content = ''A'', so_kind = Complete\<rparr>"
    "bt_get ?sources file_b = Some \<lparr>so_content = ''B'', so_kind = Complete\<rparr>"
    "is_missing_artifacts sample_project ?st file_a 0 ''default''" "\<not> is_missing_artifacts sample_project ?st file_b 0 ''default''"
    "cc_entry (ac_cache ?st) file_a = None" by code_simp+
  have "imports_path (ac_edges ?st) [file_a, file_b] file_a file_b"
    unfolding imports_path_def by (rule exI [of _ 0], rule exI [of _ 1]) (simp add: sample_state_def sample_graph_def)
  then have i: "(file_a, file_b) \<in> (imports_paths (ac_edges ?st) [file_a, file_b])\<^sup>*" by (auto simp: imports_paths_def)
  have c: "file_a \<in> to_compile sample_project ?st ?sources 0 ''default''" "file_b \<notin> to_compile sample_project ?st ?sources 0 ''default''"
    unfolding to_compile_def using a by simp_all
  have h: "new_entry sample_project s e \<Longrightarrow> en_content_hash e = s" for s e by (simp add: new_entry_def sample_project_def)
  from filter_exact [OF g, of sample_project 0 "''default''"] obtain kept st' where
    r: "cache_filter sample_project ?sources 0 ''default'' ?st = Some (kept, st')" and
    k: "\<And>p. bt_get kept p = (case bt_get ?sources p of None \<Rightarrow> None | Some source \<Rightarrow>
       if p \<in> to_compile sample_project ?st ?sources 0 ''default'' then Some (source\<lparr>so_kind := Complete\<rparr>)
       else if \<exists>q \<in> to_compile sample_project ?st ?sources 0 ''default''. (q, p) \<in> (imports_paths (ac_edges ?st) [file_a, file_b])\<^sup>*
            then Some (source\<lparr>so_kind := Optimized\<rparr>) else None)" and
    s: "grouped_contains (ac_sources_in_scope st') file_a 0" "\<exists>e. cc_entry (ac_cache st') file_a = Some e \<and> new_entry sample_project ''A'' e"
    using a(1,5) by fastforce
  have "bt_get kept file_a = Some \<lparr>so_content = ''A'', so_kind = Complete\<rparr>" unfolding k a(1) option.case if_P [OF c(1)] by simp
  moreover have "bt_get kept file_b = Some \<lparr>so_content = ''B'', so_kind = Optimized\<rparr>"
    unfolding k a(2) option.case if_not_P [OF c(2)] using c(1) i by auto
  ultimately show ?thesis using r s h by blast
qed

section \<open>What stays of the cached artifacts\<close>

lemma retain_artifacts_elements: "fm_elements (retain_artifacts keep m) = filter (\<lambda>(p, name, f). keep p name f) (fm_elements m)"
proof -
  have n: "named p (filter (\<lambda>(_, fs). fs \<noteq> []) (map (\<lambda>(name, fs). (name, filter (keep p name) fs)) by_name)) =
      filter (\<lambda>(p, name, f). keep p name f) (named p by_name)" for p by_name
    by (induction by_name) (auto simp: filter_map comp_def)
  have e: "filter (\<lambda>(p, name, f). keep p name f) (named p by_name) = []"
    if "filter (\<lambda>(_, fs). fs \<noteq> []) (map (\<lambda>(name, fs). (name, filter (keep p name) fs)) by_name) = []" for p by_name
    unfolding n [symmetric] that by simp
  show ?thesis
    unfolding fm_elements_def retain_artifacts_def by (induction m) (auto simp: n e)
qed

lemma consume_artifacts:
  "fm_elements (fst (fst (cache_consume cp written ids write (Cached st)))) = filter (\<lambda>(p, name, f).
     grouped_contains (ac_sources_in_scope st) p (af_version f) \<and> p \<notin> ac_dirty_sources st \<and>
     find_artifact_file written p name (af_version f) = None) (fm_elements (ac_cached_artifacts st))"
  by (auto simp: cache_consume_def retain_artifacts_elements keep_cached_def intro!: filter_cong)

text \<open>The profile is not compared: a cached artifact of another profile is dropped with the version that was written.\<close>

lemma consume_ignores_profile:
  "let f = \<lparr>af_artifact = 0, af_file = file_a, af_version = 0, af_build_id = [], af_profile = ''a''\<rparr>;
       st = sample_state\<lparr>ac_cached_artifacts := [(file_a, [(''A'', [f])])], ac_sources_in_scope := grouped_insert file_a 0 (\<lambda>_. None)\<rparr>
   in fst (fst (cache_consume sample_project [] [] False (Cached st))) = [(file_a, [(''A'', [f])])] \<and>
      fst (fst (cache_consume sample_project [(file_a, [(''A'', [f\<lparr>af_profile := ''b''\<rparr>])])] [] False (Cached st))) = []"
  by code_simp

end
