(* ===== verification/Spec2Isabelle.thy ===== *)
theory Spec2Isabelle
  imports Output_Selection Sourcemap Wallet_Sessions Fork_Runs Artifact_Cache
begin

text \<open>
  Verification development of foundry-core.
\<close>

end
